(* ===== verification/Prelude.thy ===== *)
theory Prelude
  imports Main "HOL-Library.Word" "HOL-Library.FSet"
begin

text \<open>
  Shared vocabulary of the development: Go's machine types, the two ways a call can fail to
  return normally (a panic or a fatal log entry), the sequencing of calls that may crash,
  and the generic facts on words and lists the components use.
\<close>

unbundle bit_operations_syntax

section \<open>Types\<close>

type_synonym byte = "8 word"
type_synonym bytes = "8 word list"
type_synonym uint64 = "64 word"
type_synonym uint32 = "32 word"

text \<open>
  A call that does not return: a run-time panic of the Go runtime, an explicit
  \<^verbatim>\<open>panic\<close>, or \<^verbatim>\<open>logger.Fatal\<close>, which exits the process.
\<close>

datatype crash =
    NilDeref
  | DivideByZero
  | IndexOutOfRange
  | PanicMsg string
  | LogFatal string

type_synonym 'a result = "crash + 'a"

section \<open>Fact collections\<close>

named_theorems wire_simps \<open>equations that evaluate wire encodings\<close>
named_theorems store_simps \<open>what a read returns after a write\<close>
named_theorems frame_simps \<open>state components an operation leaves alone\<close>

section \<open>Sequencing\<close>

fun rbind :: "'e + 'a \<Rightarrow> ('a \<Rightarrow> 'e + 'b) \<Rightarrow> 'e + 'b" where
  "rbind (Inl e) f = Inl e"
| "rbind (Inr x) f = f x"

text \<open>The value of a call that returned an error is discarded by the caller.\<close>

fun orFatal :: "'e + 'a \<Rightarrow> string \<Rightarrow> 'a result" where
  "orFatal (Inl e) msg = Inl (LogFatal msg)"
| "orFatal (Inr x) msg = Inr x"

fun deref :: "'a option \<Rightarrow> 'a result" where
  "deref None = Inl NilDeref"
| "deref (Some x) = Inr x"

text \<open>
  A call that may crash and otherwise returns a value or an error that the caller passes on
  (\<^verbatim>\<open>if err != nil { return err }\<close>).
\<close>

fun ebind :: "('e + 'a) result \<Rightarrow> ('a \<Rightarrow> ('e + 'b) result) \<Rightarrow> ('e + 'b) result" where
  "ebind (Inl c) f = Inl c"
| "ebind (Inr (Inl e)) f = Inr (Inl e)"
| "ebind (Inr (Inr x)) f = f x"

lemma ebind_Inr_Inr_iff:
  "ebind m f = Inr (Inr y) \<longleftrightarrow> (\<exists>x. m = Inr (Inr x) \<and> f x = Inr (Inr y))"
  by (cases "(m, f)" rule: ebind.cases) auto

lemma rbind_Inr_iff: "rbind m f = Inr y \<longleftrightarrow> (\<exists>x. m = Inr x \<and> f x = Inr y)"
  by (cases m) auto

lemma rbind_Inl_iff:
  "rbind m f = Inl e \<longleftrightarrow> m = Inl e \<or> (\<exists>x. m = Inr x \<and> f x = Inl e)"
  by (cases m) auto

lemma rbind_InrE [elim]:
  assumes "rbind m f = Inr y"
  obtains x where "m = Inr x" and "f x = Inr y"
  using assms by (auto simp: rbind_Inr_iff)

lemma rbind_assoc: "rbind (rbind m f) g = rbind m (\<lambda>x. rbind (f x) g)"
  by (cases m) auto

lemma rbind_right_Inr [simp]: "rbind m Inr = m"
  by (cases m) auto

lemma rbind_cong [fundef_cong]:
  "m = m' \<Longrightarrow> (\<And>x. m' = Inr x \<Longrightarrow> f x = g x) \<Longrightarrow> rbind m f = rbind m' g"
  by (cases m') auto

lemma orFatal_Inr_iff [simp]: "orFatal m msg = Inr x \<longleftrightarrow> m = Inr x"
  by (cases m) auto

lemma deref_Inr_iff [simp]: "deref p = Inr x \<longleftrightarrow> p = Some x"
  by (cases p) auto

section \<open>Lists\<close>

lemma take_append_length [simp]: "take (length xs) (xs @ ys) = xs"
  by simp

lemma drop_append_length [simp]: "drop (length xs) (xs @ ys) = ys"
  by simp

lemma length_drop_less: "n < length xs \<Longrightarrow> 0 < k \<Longrightarrow> length (drop (n + k) xs) < length (drop n xs)"
  by simp

section \<open>Words\<close>

lemma unat_of_nat_64: "n < 2 ^ 64 \<Longrightarrow> unat (of_nat n :: uint64) = n"
  by (simp add: unsigned_of_nat take_bit_nat_eq_self)

lemma unat_of_nat_32: "n < 2 ^ 32 \<Longrightarrow> unat (of_nat n :: uint32) = n"
  by (simp add: unsigned_of_nat take_bit_nat_eq_self)

lemma word_less_Suc_unat: "(a :: uint64) < b \<longleftrightarrow> unat a < unat b"
  by (simp add: word_less_nat_alt)

end
