(* ===== verification/Wire.thy ===== *)
theory Wire
  imports Prelude
begin

text \<open>
  The protocol-buffer wire format as the generated code of \<^verbatim>\<open>types/types.pb.go\<close>
  reads and writes it: base-128 varints, field tags, length-delimited fields, the skipping
  of unknown fields, and the loop every generated \<^verbatim>\<open>Unmarshal\<close> method is.
  Slices are lists; a reader position \<^verbatim>\<open>iNdEx\<close> in a slice of length \<^verbatim>\<open>l\<close> is
  represented by the bytes that remain, so \<^verbatim>\<open>iNdEx\<close> is \<open>l - length rest\<close>.
  Lengths are Go \<^verbatim>\<open>int\<close>s (64 bits): a length or a position of \<open>2 ^ 63\<close> or more
  is negative there.
\<close>

section \<open>Errors\<close>

datatype werr =
    ErrIntOverflowTypes
  | ErrUnexpectedEOF
  | ErrInvalidLengthTypes
  | ErrUnexpectedEndOfGroupTypes
  | ErrWrongWireType string
  | ErrEndGroupForNonGroup
  | ErrIllegalTag
  | ErrIllegalWireType

section \<open>Varints\<close>

text \<open>\<^verbatim>\<open>sovTypes\<close>: \<^verbatim>\<open>(bits.Len64(x|1) + 6) / 7\<close>, the encoded length.\<close>

fun bitLen :: "nat \<Rightarrow> nat" where
  "bitLen n = (if n = 0 then 0 else Suc (bitLen (n div 2)))"

declare bitLen.simps [simp del]

definition sovTypes :: "uint64 \<Rightarrow> nat" where
  "sovTypes x = (bitLen (unat (x OR 1)) + 6) div 7"

text \<open>
  The bytes \<^verbatim>\<open>encodeVarintTypes\<close> stores: seven bits at a time, the lowest first,
  bit 7 set on every byte but the last.
\<close>

function varint :: "uint64 \<Rightarrow> bytes" where
  "varint v = (if 128 \<le> v then (ucast ((v AND 0x7F) OR 0x80) :: byte) # varint (drop_bit 7 v)
               else [ucast v])"
  by pat_completeness auto
termination
proof (relation "measure unat")
  fix v :: uint64
  assume "128 \<le> v"
  then have "128 \<le> unat v" by (simp add: word_le_nat_alt)
  moreover have "unat (drop_bit 7 v) = unat v div 128"
    by (simp add: drop_bit_eq_div unat_div)
  ultimately show "(drop_bit 7 v, v) \<in> measure unat" by simp
qed simp

declare varint.simps [simp del]

text \<open>
  \<^verbatim>\<open>encodeVarintTypes(dAtA, offset, v)\<close> on the buffer itself: it steps back by
  \<^verbatim>\<open>sovTypes(v)\<close> and stores the bytes forward from there, returning the new start.
  An index outside the buffer panics.
\<close>

fun storeAt :: "bytes \<Rightarrow> nat \<Rightarrow> bytes \<Rightarrow> bytes result" where
  "storeAt dAtA offset [] = Inr dAtA"
| "storeAt dAtA offset (b # bs) =
     (if offset < length dAtA then storeAt (dAtA[offset := b]) (Suc offset) bs
      else Inl IndexOutOfRange)"

definition encodeVarintTypes :: "bytes \<Rightarrow> nat \<Rightarrow> uint64 \<Rightarrow> (bytes \<times> nat) result" where
  "encodeVarintTypes dAtA offset v =
     (if offset < sovTypes v then Inl IndexOutOfRange
      else let base = offset - sovTypes v
           in rbind (storeAt dAtA base (varint v)) (\<lambda>d. Inr (d, base)))"

text \<open>
  The reading loop, inlined by the generator at every use:
  \<^verbatim>\<open>for shift := uint(0); ; shift += 7\<close>.
\<close>

fun decodeVarint :: "nat \<Rightarrow> uint64 \<Rightarrow> bytes \<Rightarrow> werr + uint64 \<times> bytes" where
  "decodeVarint shift v rest =
     (if 64 \<le> shift then Inl ErrIntOverflowTypes
      else case rest of
        [] \<Rightarrow> Inl ErrUnexpectedEOF
      | b # rest' \<Rightarrow>
          let v' = v OR push_bit shift (ucast (b AND 0x7F))
          in if b < 0x80 then Inr (v', rest') else decodeVarint (shift + 7) v' rest')"

declare decodeVarint.simps [simp del]

abbreviation readVarint :: "bytes \<Rightarrow> werr + uint64 \<times> bytes" where
  "readVarint \<equiv> decodeVarint 0 0"


subsection \<open>What the writer stores, the reader returns\<close>

lemma bit_127: "bit (127 :: nat) n \<longleftrightarrow> n < 7" "bit (127 :: int) n \<longleftrightarrow> n < 7"
proof -
  have nat: "(127 :: nat) = mask 7" and int: "(127 :: int) = mask 7"
    by (simp_all add: mask_eq_exp_minus_1)
  show "bit (127 :: nat) n \<longleftrightarrow> n < 7" unfolding nat bit_mask_iff by simp
  show "bit (127 :: int) n \<longleftrightarrow> n < 7" unfolding int bit_mask_iff by simp
qed

lemma bit_128: "bit (128 :: nat) n \<longleftrightarrow> n = 7" "bit (128 :: int) n \<longleftrightarrow> n = 7"
proof -
  have nat: "(128 :: nat) = 2 ^ 7" and int: "(128 :: int) = 2 ^ 7" by simp_all
  show "bit (128 :: nat) n \<longleftrightarrow> n = 7" unfolding nat bit_exp_iff by auto
  show "bit (128 :: int) n \<longleftrightarrow> n = 7" unfolding int bit_exp_iff by auto
qed

lemma and_127_less: "(v :: uint64) < 128 \<Longrightarrow> v AND 127 = v"
proof -
  assume "v < 128"
  then have "unat v < 2 ^ 7" by (simp add: word_less_nat_alt)
  then have "take_bit 7 v = v"
    by (simp add: unsigned_take_bit_eq take_bit_nat_eq_self word_unat_eq_iff)
  then show ?thesis
    by (simp add: take_bit_eq_mask mask_eq_exp_minus_1)
qed

lemma varint_split: "(v :: uint64) = (v AND 127) OR push_bit 7 (drop_bit 7 v)"
proof (rule bit_eqI)
  fix n
  show "bit v n \<longleftrightarrow> bit ((v AND 127) OR push_bit 7 (drop_bit 7 v)) n"
    by (cases "n < 7") (auto simp: bit_simps bit_127 dest: bit_imp_le_length)
qed

lemma byte_last_group:
  assumes "(v :: uint64) < 128"
  shows "(ucast v :: byte) < 128" and "ucast ((ucast v :: byte) AND 127) = v"
proof -
  have uv: "unat v < 128" using assms by (simp add: word_less_nat_alt)
  then have "unat (ucast v :: byte) = unat v"
    by (simp add: unsigned_ucast_eq take_bit_nat_eq_self)
  with uv show "(ucast v :: byte) < 128" by (simp add: word_less_nat_alt)
  have "ucast ((ucast v :: byte) AND 127) = v AND 127"
    by (rule bit_eqI) (auto simp: bit_simps bit_127)
  then show "ucast ((ucast v :: byte) AND 127) = v"
    by (simp add: and_127_less assms)
qed

lemma byte_more_group:
  fixes v :: uint64
  defines "b \<equiv> (ucast ((v AND 127) OR 128) :: byte)"
  shows "\<not> b < 128" and "ucast (b AND 127) = v AND 127"
proof -
  have b7: "bit b 7" by (simp add: b_def bit_simps bit_128)
  show "\<not> b < 128"
  proof
    assume "b < 128"
    then have "unat b < 2 ^ 7" by (simp add: word_less_nat_alt)
    then have "\<not> bit (unat b) 7" by (simp add: bit_iff_odd)
    with b7 show False by (simp add: bit_unsigned_iff)
  qed
  show "ucast (b AND 127) = v AND 127"
    unfolding b_def by (rule bit_eqI) (auto simp: bit_simps bit_127 bit_128)
qed

lemma decodeVarint_varint:
  assumes "shift < 64" and "unat v < 2 ^ (64 - shift)"
  shows "decodeVarint shift acc (varint v @ rest) = Inr (acc OR push_bit shift v, rest)"
  using assms
proof (induction v arbitrary: shift acc rule: varint.induct)
  case (1 v)
  show ?case
  proof (cases "128 \<le> v")
    case False
    then have "v < 128" by simp
    then show ?thesis
      using "1.prems" False
      by (simp add: varint.simps [of v] decodeVarint.simps Let_def byte_last_group)
  next
    case True
    have "2 ^ 7 \<le> unat v" using True by (simp add: word_le_nat_alt)
    then have "(2::nat) ^ 7 < 2 ^ (64 - shift)" using "1.prems" by linarith
    then have shift: "shift + 7 < 64"
      by (metis less_diff_conv add.commute power_strict_increasing_iff one_less_numeral_iff semiring_norm(76))
    have "unat (drop_bit 7 v) = unat v div 2 ^ 7"
      by (simp add: drop_bit_eq_div unat_div)
    moreover have "64 - shift = 7 + (64 - (shift + 7))" using shift by simp
    then have "unat v < 2 ^ 7 * 2 ^ (64 - (shift + 7))"
      using "1.prems" by (metis power_add)
    ultimately have bound: "unat (drop_bit 7 v) < 2 ^ (64 - (shift + 7))"
      by (simp add: less_mult_imp_div_less mult.commute)
    have split: "push_bit shift v =
        push_bit shift (v AND 127) OR push_bit (shift + 7) (drop_bit 7 v)"
      by (subst varint_split [of v]) (simp add: push_bit_or push_bit_push_bit add.commute)
    have "decodeVarint shift acc (varint v @ rest) =
        decodeVarint (shift + 7) (acc OR push_bit shift (v AND 127)) (varint (drop_bit 7 v) @ rest)"
      using "1.prems"(1) True byte_more_group [of v]
      by (subst varint.simps, subst decodeVarint.simps) (simp add: Let_def)
    also have "\<dots> = Inr ((acc OR push_bit shift (v AND 127)) OR push_bit (shift + 7) (drop_bit 7 v), rest)"
      by (rule "1.IH" [OF True shift bound])
    finally show ?thesis by (simp only: split or.assoc)
  qed
qed

lemma readVarint_varint [wire_simps]: "readVarint (varint v @ rest) = Inr (v, rest)"
proof -
  have "unat v < 2 ^ (64 - 0)" using unsigned_less [of v] by simp
  then show ?thesis using decodeVarint_varint [of 0 v 0 rest] by simp
qed

text \<open>A number whose bytes are cut off is reported as such, never as another number.\<close>

lemma decodeVarint_cut:
  "decodeVarint shift acc (xs @ ys) = Inr (v, zs) \<Longrightarrow> length zs < length ys \<Longrightarrow>
    decodeVarint shift acc xs = Inl ErrUnexpectedEOF"
proof (induction xs arbitrary: shift acc)
  case Nil
  then show ?case by (simp add: decodeVarint.simps [of shift] split: if_splits)
next
  case (Cons b xs)
  then show ?case
    by (auto simp: decodeVarint.simps [of shift acc "b # xs"] decodeVarint.simps [of shift acc "b # xs @ ys"] Let_def
        split: if_splits)
qed

lemma decodeVarint_consumes:
  "decodeVarint shift acc rest = Inr (v, rest') \<Longrightarrow> length rest' < length rest"
proof (induction shift acc rest rule: decodeVarint.induct)
  case (1 shift acc rest)
  then show ?case
    by (subst (asm) (2) decodeVarint.simps)
      (force split: if_splits list.splits simp: Let_def)
qed


subsection \<open>The encoded length\<close>

lemma bitLen_pos: "0 < n \<Longrightarrow> bitLen n = Suc (bitLen (n div 2))"
  by (simp add: bitLen.simps [of n])

lemma bitLen_0 [simp]: "bitLen 0 = 0"
  by (simp add: bitLen.simps)

lemma bitLen_eq_0 [simp]: "bitLen n = 0 \<longleftrightarrow> n = 0"
  by (cases "n = 0") (simp_all add: bitLen_pos)

lemma bitLen_le: "n < 2 ^ k \<Longrightarrow> bitLen n \<le> k"
proof (induction k arbitrary: n)
  case (Suc k)
  then show ?case by (cases "n = 0") (auto simp: bitLen_pos)
qed simp

lemma bitLen_or_1: "bitLen (n OR Suc 0) = (if n = 0 then 1 else bitLen n)"
proof (cases "n = 0")
  case False
  have "(n OR Suc 0) div 2 = n div 2" by (simp add: or_Suc_0_eq)
  moreover have "0 < n OR Suc 0" using False by (simp add: or_Suc_0_eq)
  ultimately show ?thesis using False by (simp add: bitLen_pos)
qed (simp add: bitLen_pos)

lemma bitLen_128: "128 \<le> n \<Longrightarrow> bitLen n = 7 + bitLen (n div 128)"
  by (simp add: bitLen_pos flip: div_mult2_eq)

lemma unat_or_1: "unat ((v :: uint64) OR 1) = unat v OR Suc 0"
  by (simp add: unsigned_or_eq)

lemma sovTypes_small: "unat v < 128 \<Longrightarrow> sovTypes v = 1"
proof -
  assume "unat v < 128"
  then have "unat v = 0 \<or> bitLen (unat v) \<le> 7 \<and> 0 < bitLen (unat v)"
    using bitLen_le [of "unat v" 7] by (auto simp: bitLen_pos)
  then show ?thesis by (auto simp: sovTypes_def unat_or_1 bitLen_or_1)
qed

lemma sovTypes_step: "128 \<le> unat v \<Longrightarrow> sovTypes v = Suc (sovTypes (drop_bit 7 v))"
proof -
  assume v: "128 \<le> unat v"
  have d: "unat (drop_bit 7 v) = unat v div 128" by (simp add: drop_bit_eq_div unat_div)
  with v have "unat (drop_bit 7 v) \<noteq> 0" by simp
  with v d show ?thesis
    by (simp add: sovTypes_def unat_or_1 bitLen_or_1 bitLen_128)
qed

lemma length_varint [simp]: "length (varint v) = sovTypes v"
proof (induction v rule: varint.induct)
  case (1 v)
  show ?case
  proof (cases "128 \<le> v")
    case True
    then have "128 \<le> unat v" by (simp add: word_le_nat_alt)
    with True "1.IH" [OF True] show ?thesis
      by (subst varint.simps) (simp only: if_True list.size sovTypes_step add_0_right add_Suc_right)
  next
    case False
    then have "unat v < 128" by (simp add: word_le_nat_alt)
    with False show ?thesis by (subst varint.simps) (simp add: sovTypes_small)
  qed
qed

lemma varint_not_Nil [simp]: "varint v \<noteq> []"
  by (subst varint.simps) simp

lemma sovTypes_bounds: "1 \<le> sovTypes v" "sovTypes v \<le> 10"
proof -
  show "1 \<le> sovTypes v" by (metis length_varint varint_not_Nil length_greater_0_conv less_eq_Suc_le One_nat_def)
  have "bitLen (unat (v OR 1)) \<le> 64"
    by (rule bitLen_le) (use unsigned_less [of "v OR 1"] in simp)
  then show "sovTypes v \<le> 10" by (simp add: sovTypes_def)
qed

lemma sovTypes_not_0 [simp]: "sovTypes v \<noteq> 0"
  using sovTypes_bounds(1) [of v] by simp

lemma storeAt_fits:
  "offset + length bs \<le> length d \<Longrightarrow>
    storeAt d offset bs = Inr (take offset d @ bs @ drop (offset + length bs) d)"
proof (induction bs arbitrary: d offset)
  case (Cons b bs)
  then have "offset < length d" by simp
  then have "take (Suc offset) (d[offset := b]) = take offset d @ [b]"
    by (simp add: take_Suc_conv_app_nth)
  with Cons show ?case by simp
qed simp

lemma encodeVarintTypes_spec:
  assumes "sovTypes v \<le> offset" and "offset \<le> length d"
  shows "encodeVarintTypes d offset v =
    Inr (take (offset - sovTypes v) d @ varint v @ drop offset d, offset - sovTypes v)"
  using assms by (simp add: encodeVarintTypes_def Let_def storeAt_fits)

section \<open>Tags and length-delimited fields\<close>

definition fieldNum :: "uint64 \<Rightarrow> int" where
  "fieldNum wire = sint (ucast (drop_bit 3 wire) :: 32 word)"

definition wireType :: "uint64 \<Rightarrow> nat" where
  "wireType wire = unat (wire AND 7)"

text \<open>
  A length prefix and the bytes it covers: \<^verbatim>\<open>msglen\<close>/\<^verbatim>\<open>byteLen\<close> is an
  \<^verbatim>\<open>int\<close>, and both it and \<^verbatim>\<open>postIndex\<close> are checked for being negative.
\<close>

definition readLen :: "nat \<Rightarrow> bytes \<Rightarrow> werr + nat \<times> bytes" where
  "readLen l rest = rbind (readVarint rest) (\<lambda>(len, r).
     if 2 ^ 63 \<le> unat len then Inl ErrInvalidLengthTypes
     else if 2 ^ 63 \<le> (l - length r) + unat len then Inl ErrInvalidLengthTypes
     else if l < (l - length r) + unat len then Inl ErrUnexpectedEOF
     else Inr (unat len, r))"

definition readDelimited :: "nat \<Rightarrow> bytes \<Rightarrow> werr + bytes \<times> bytes" where
  "readDelimited l rest = rbind (readLen l rest) (\<lambda>(n, r). Inr (take n r, drop n r))"

text \<open>
  \<^verbatim>\<open>skipTypes\<close>: the number of bytes an unknown field takes, groups included.
\<close>

function skipLoop :: "bytes \<Rightarrow> nat \<Rightarrow> nat \<Rightarrow> werr + nat" where
  "skipLoop dAtA iNdEx depth =
     (if length dAtA \<le> iNdEx then Inl ErrUnexpectedEOF
      else case readVarint (drop iNdEx dAtA) of
        Inl e \<Rightarrow> Inl e
      | Inr (wire, r) \<Rightarrow>
          let at = length dAtA - length r; wt = wireType wire;
              moved = (if wt = 0 then
                         (case readVarint r of Inl e \<Rightarrow> Inl e
                          | Inr (_, r') \<Rightarrow> Inr (length dAtA - length r', depth))
                       else if wt = 1 then Inr (at + 8, depth)
                       else if wt = 2 then
                         (case readVarint r of Inl e \<Rightarrow> Inl e
                          | Inr (len, r') \<Rightarrow>
                              if 2 ^ 63 \<le> unat len then Inl ErrInvalidLengthTypes
                              else Inr (length dAtA - length r' + unat len, depth))
                       else if wt = 3 then Inr (at, Suc depth)
                       else if wt = 4 then
                         (if depth = 0 then Inl ErrUnexpectedEndOfGroupTypes
                          else Inr (at, depth - 1))
                       else if wt = 5 then Inr (at + 4, depth)
                       else Inl ErrIllegalWireType)
          in case moved of
               Inl e \<Rightarrow> Inl e
             | Inr (iNdEx', depth') \<Rightarrow>
                 if 2 ^ 63 \<le> iNdEx' then Inl ErrInvalidLengthTypes
                 else if depth' = 0 then Inr iNdEx'
                 else skipLoop dAtA iNdEx' depth')"
  by pat_completeness auto
termination
proof (relation "measure (\<lambda>(dAtA, iNdEx, _). length dAtA - iNdEx)", goal_cases)
  case (2 dAtA iNdEx depth y wire r at wt moved z iNdEx' depth')
  have r: "length r < length dAtA - iNdEx"
    using 2(1-3) decodeVarint_consumes by fastforce
  have "iNdEx < iNdEx'"
    using 2(4-8) r
    by (auto split: if_splits sum.splits dest!: decodeVarint_consumes)
  then show ?case using 2(1) by auto
qed simp

declare skipLoop.simps [simp del]

definition skipTypes :: "bytes \<Rightarrow> werr + nat" where
  "skipTypes dAtA = skipLoop dAtA 0 0"


lemma skipLoop_advances: "skipLoop d i k = Inr n \<Longrightarrow> i < n"
proof (induction d i k rule: skipLoop.induct)
  case (1 d i k)
  show ?case
  proof (cases "length d \<le> i")
    case True
    with "1.prems" show ?thesis by (simp add: skipLoop.simps)
  next
    case False
    with "1.prems" obtain wire r where r: "readVarint (drop i d) = Inr (wire, r)"
      by (subst (asm) skipLoop.simps) (auto split: sum.splits)
    have len: "length r < length d - i" using decodeVarint_consumes [OF r] by simp
    show ?thesis
      using "1.prems" False r len "1.IH" [OF False r _ refl refl refl]
      by (subst (asm) skipLoop.simps)
        (fastforce simp: Let_def split: sum.splits if_splits dest: decodeVarint_consumes)
  qed
qed

lemma skipTypes_advances: "skipTypes d = Inr n \<Longrightarrow> 0 < n"
  by (auto simp: skipTypes_def dest: skipLoop_advances)

section \<open>The unmarshalling loop\<close>

text \<open>
  A \<^verbatim>\<open>case\<close> of the generated \<^verbatim>\<open>switch fieldNum\<close>, by what it reads and how the
  value enters the message: a varint, a byte slice, an embedded message (whose own
  \<^verbatim>\<open>Unmarshal\<close> may fail), or a repeated varint, packed or not.
\<close>

datatype 'm field =
    VarintField "uint64 \<Rightarrow> 'm \<Rightarrow> 'm"
  | BytesField "bytes \<Rightarrow> 'm \<Rightarrow> 'm"
  | MsgField "bytes \<Rightarrow> 'm \<Rightarrow> werr + 'm"
  | PackedField "uint64 \<Rightarrow> 'm \<Rightarrow> 'm"

type_synonym 'm fields = "int \<Rightarrow> (string \<times> 'm field) option"

text \<open>
  The packed loop runs until \<^verbatim>\<open>postIndex\<close>; \<open>stop\<close> bytes remain there. The varint
  reader only checks the end of the whole slice, as in the source.
\<close>

function unpack :: "(uint64 \<Rightarrow> 'm \<Rightarrow> 'm) \<Rightarrow> nat \<Rightarrow> 'm \<Rightarrow> bytes \<Rightarrow> werr + 'm \<times> bytes" where
  "unpack f stop m rest =
     (if length rest \<le> stop then Inr (m, rest)
      else case readVarint rest of
        Inl e \<Rightarrow> Inl e
      | Inr (v, r) \<Rightarrow> unpack f stop (f v m) r)"
  by pat_completeness auto
termination
  by (relation "measure (\<lambda>(_, _, _, rest). length rest)") (auto dest: decodeVarint_consumes)

declare unpack.simps [simp del]

fun fieldStep :: "nat \<Rightarrow> string \<Rightarrow> 'm field \<Rightarrow> nat \<Rightarrow> 'm \<Rightarrow> bytes \<Rightarrow> werr + 'm \<times> bytes" where
  "fieldStep l nm (VarintField f) wt m rest =
     (if wt \<noteq> 0 then Inl (ErrWrongWireType nm)
      else rbind (readVarint rest) (\<lambda>(v, r). Inr (f v m, r)))"
| "fieldStep l nm (BytesField f) wt m rest =
     (if wt \<noteq> 2 then Inl (ErrWrongWireType nm)
      else rbind (readDelimited l rest) (\<lambda>(b, r). Inr (f b m, r)))"
| "fieldStep l nm (MsgField f) wt m rest =
     (if wt \<noteq> 2 then Inl (ErrWrongWireType nm)
      else rbind (readDelimited l rest) (\<lambda>(b, r). rbind (f b m) (\<lambda>m'. Inr (m', r))))"
| "fieldStep l nm (PackedField f) wt m rest =
     (if wt = 0 then rbind (readVarint rest) (\<lambda>(v, r). Inr (f v m, r))
      else if wt = 2 then rbind (readLen l rest) (\<lambda>(n, r). unpack f (length r - n) m r)
      else Inl (ErrWrongWireType nm))"

lemma unpack_consumes: "unpack f stop m rest = Inr (m', r) \<Longrightarrow> length r \<le> length rest"
proof (induction f stop m rest rule: unpack.induct)
  case (1 f stop m rest)
  show ?case
  proof (cases "length rest \<le> stop")
    case True
    with "1.prems" show ?thesis by (simp add: unpack.simps)
  next
    case False
    with "1.prems" obtain v r1 where r1: "readVarint rest = Inr (v, r1)"
      and rec: "unpack f stop (f v m) r1 = Inr (m', r)"
      by (subst (asm) unpack.simps) (auto split: sum.splits)
    show ?thesis using "1.IH" [OF False r1 refl rec] decodeVarint_consumes [OF r1] by simp
  qed
qed

lemma readLen_consumes: "readLen l rest = Inr (n, r) \<Longrightarrow> length r < length rest"
  by (auto simp: readLen_def rbind_Inr_iff split: if_splits dest: decodeVarint_consumes)

lemma readDelimited_consumes: "readDelimited l rest = Inr (b, r) \<Longrightarrow> length r < length rest"
  by (auto simp: readDelimited_def rbind_Inr_iff dest: readLen_consumes)

lemma fieldStep_consumes: "fieldStep l nm fd wt m rest = Inr (m', r) \<Longrightarrow> length r < length rest"
  by (cases fd)
    (fastforce simp: rbind_Inr_iff split: if_splits
      dest: decodeVarint_consumes readDelimited_consumes readLen_consumes unpack_consumes)+

text \<open>
  \<^verbatim>\<open>Unmarshal\<close>: the message as far as it was filled, and the error that ended the loop.
  An unknown field number is skipped from the start of its tag.
\<close>

function unmarshalLoop :: "'m fields \<Rightarrow> nat \<Rightarrow> 'm \<Rightarrow> bytes \<Rightarrow> 'm \<times> werr option" where
  "unmarshalLoop fs l m rest =
     (if rest = [] then (m, None)
      else case readVarint rest of
        Inl e \<Rightarrow> (m, Some e)
      | Inr (wire, r) \<Rightarrow>
          if wireType wire = 4 then (m, Some ErrEndGroupForNonGroup)
          else if fieldNum wire \<le> 0 then (m, Some ErrIllegalTag)
          else case fs (fieldNum wire) of
            Some (nm, fd) \<Rightarrow>
              (case fieldStep l nm fd (wireType wire) m r of
                Inl e \<Rightarrow> (m, Some e)
              | Inr (m', r') \<Rightarrow> unmarshalLoop fs l m' r')
          | None \<Rightarrow>
              (case skipTypes rest of
                Inl e \<Rightarrow> (m, Some e)
              | Inr skippy \<Rightarrow>
                  if 2 ^ 63 \<le> l - length rest + skippy then (m, Some ErrInvalidLengthTypes)
                  else if length rest < skippy then (m, Some ErrUnexpectedEOF)
                  else unmarshalLoop fs l m (drop skippy rest)))"
  by pat_completeness auto
termination
  by (relation "measure (\<lambda>(_, _, _, rest). length rest)")
    (fastforce dest: decodeVarint_consumes fieldStep_consumes skipTypes_advances)+

declare unmarshalLoop.simps [simp del]

definition unmarshal :: "'m fields \<Rightarrow> 'm \<Rightarrow> bytes \<Rightarrow> werr + 'm" where
  "unmarshal fs m dAtA =
     (case unmarshalLoop fs (length dAtA) m dAtA of (m', None) \<Rightarrow> Inr m' | (_, Some e) \<Rightarrow> Inl e)"


section \<open>Writing fields\<close>

text \<open>
  The generated writers fill the buffer from its end: the payload, the length before it,
  the tag before that, and the fields in descending order. The bytes of one field are
  therefore its tag, its length and its payload. A scalar or byte field is written only
  when it is not the zero value, an embedded message when its pointer is not nil.
\<close>

definition putVarint :: "byte \<Rightarrow> uint64 \<Rightarrow> bytes" where
  "putVarint tag v = (if v \<noteq> 0 then tag # varint v else [])"

definition putLen :: "byte \<Rightarrow> bytes \<Rightarrow> bytes" where
  "putLen tag b = tag # varint (of_nat (length b)) @ b"

definition putBytes :: "byte \<Rightarrow> bytes \<Rightarrow> bytes" where
  "putBytes tag b = (if 0 < length b then putLen tag b else [])"

definition putMsg :: "byte \<Rightarrow> bytes option \<Rightarrow> bytes" where
  "putMsg tag p = (case p of None \<Rightarrow> [] | Some b \<Rightarrow> putLen tag b)"

text \<open>The contribution of a field to \<^verbatim>\<open>Size\<close>.\<close>

definition sizeVarint :: "uint64 \<Rightarrow> nat" where
  "sizeVarint v = (if v \<noteq> 0 then 1 + sovTypes v else 0)"

definition sizeLen :: "nat \<Rightarrow> nat" where
  "sizeLen l = 1 + l + sovTypes (of_nat l)"

definition sizeBytes :: "bytes \<Rightarrow> nat" where
  "sizeBytes b = (if 0 < length b then sizeLen (length b) else 0)"

definition sizeMsg :: "nat option \<Rightarrow> nat" where
  "sizeMsg p = (case p of None \<Rightarrow> 0 | Some l \<Rightarrow> sizeLen l)"

text \<open>
  \<^verbatim>\<open>Marshal\<close>: a zeroed buffer of \<^verbatim>\<open>Size()\<close> bytes is filled from its end, and the
  first \<open>n\<close> bytes are returned, where \<open>n\<close> is the number of bytes written.
\<close>

definition intoSizedBuffer :: "nat \<Rightarrow> bytes \<Rightarrow> bytes" where
  "intoSizedBuffer sz out = take (length out) (replicate (sz - length out) 0 @ out)"

lemma intoSizedBuffer_exact [simp]: "sz = length out \<Longrightarrow> intoSizedBuffer sz out = out"
  by (simp add: intoSizedBuffer_def)

lemma length_putVarint [simp]: "length (putVarint tag v) = sizeVarint v"
  by (simp add: putVarint_def sizeVarint_def)

lemma length_putLen [simp]: "length (putLen tag b) = sizeLen (length b)"
  by (simp add: putLen_def sizeLen_def)

lemma length_putBytes [simp]: "length (putBytes tag b) = sizeBytes b"
  by (simp add: putBytes_def sizeBytes_def)

lemma length_putMsg [simp]: "length (putMsg tag p) = sizeMsg (map_option length p)"
  by (simp add: putMsg_def sizeMsg_def split: option.split)

subsection \<open>Reading back one field\<close>

definition tagOf :: "byte \<Rightarrow> int \<Rightarrow> nat \<Rightarrow> bool" where
  "tagOf t n w \<longleftrightarrow> t < 128 \<and> fieldNum (ucast t) = n \<and> 0 < n \<and> wireType (ucast t) = w \<and> w \<noteq> 4"

lemma readVarint_byte: "t < 128 \<Longrightarrow> readVarint (t # r) = Inr (ucast t, r)"
proof -
  assume t: "t < (128 :: byte)"
  then have "unat t < 128" by (simp add: word_less_nat_alt)
  then have small: "(ucast t :: uint64) < 128"
    by (simp add: word_less_nat_alt unsigned_ucast_eq le_less_trans [OF take_bit_nat_less_eq_self])
  have "(ucast (ucast t :: uint64) :: byte) = t" by (rule bit_eqI) (auto simp: bit_simps)
  then have "varint (ucast t) = [t]" using small by (subst varint.simps) simp
  then show ?thesis using readVarint_varint [of "ucast t" r] by simp
qed

lemma unmarshalLoop_Nil [simp]: "unmarshalLoop fs l m [] = (m, None)"
  by (simp add: unmarshalLoop.simps)

lemma unmarshalLoop_tag:
  assumes "tagOf t n w" and "fs n = Some (nm, fd)"
  shows "unmarshalLoop fs l m (t # r) =
    (case fieldStep l nm fd w m r of Inl e \<Rightarrow> (m, Some e) | Inr (m', r') \<Rightarrow> unmarshalLoop fs l m' r')"
  using assms by (subst unmarshalLoop.simps) (auto simp: readVarint_byte tagOf_def)

lemma readLen_varint:
  assumes "length (varint (of_nat n) @ b) \<le> l" and "l < 2 ^ 63" and "n \<le> length b"
  shows "readLen l (varint (of_nat n) @ b) = Inr (n, b)"
proof -
  have n: "n < 2 ^ 63" using assms by simp
  then have "unat (of_nat n :: uint64) = n" by (intro unat_of_nat_64) simp
  with n assms show ?thesis by (simp add: readLen_def readVarint_varint)
qed

lemma readDelimited_put:
  assumes "length (varint (of_nat (length b)) @ b @ r) \<le> l" and "l < 2 ^ 63"
  shows "readDelimited l (varint (of_nat (length b)) @ b @ r) = Inr (b, r)"
  using readLen_varint [of "length b" "b @ r" l] assms
  by (simp add: readDelimited_def)

text \<open>
  One lemma per kind of field: the loop, started on what the writer produced, continues
  after it with the field set. The zero value is not written; it must be what the message
  holds already.
\<close>

lemma loop_putVarint:
  assumes "tagOf t n 0" and "fs n = Some (nm, VarintField f)" and "f 0 m = m"
  shows "unmarshalLoop fs l m (putVarint t v @ r) = unmarshalLoop fs l (f v m) r"
  using assms by (simp add: putVarint_def unmarshalLoop_tag readVarint_varint)

lemma loop_putLen_msg:
  assumes "tagOf t n 2" and "fs n = Some (nm, MsgField f)" and "f b m = Inr m'"
    and "length (putLen t b @ r) \<le> l" and "l < 2 ^ 63"
  shows "unmarshalLoop fs l m (putLen t b @ r) = unmarshalLoop fs l m' r"
  using assms by (simp add: putLen_def unmarshalLoop_tag readDelimited_put)

lemma loop_putBytes:
  assumes "tagOf t n 2" and "fs n = Some (nm, BytesField f)" and "f [] m = m"
    and "length (putBytes t b @ r) \<le> l" and "l < 2 ^ 63"
  shows "unmarshalLoop fs l m (putBytes t b @ r) = unmarshalLoop fs l (f b m) r"
  using assms
  by (cases "b = []") (simp_all add: putBytes_def putLen_def unmarshalLoop_tag readDelimited_put)

lemma loop_putBytes_opt:
  assumes "tagOf t n 2" and "fs n = Some (nm, BytesField f)"
    and "length (putBytes t b @ r) \<le> l" and "l < 2 ^ 63"
  shows "unmarshalLoop fs l m (putBytes t b @ r) =
    unmarshalLoop fs l (if b = [] then m else f b m) r"
  using assms
  by (cases "b = []") (simp_all add: putBytes_def putLen_def unmarshalLoop_tag readDelimited_put)

lemma loop_putMsg:
  assumes "tagOf t n 2" and "fs n = Some (nm, MsgField f)"
    and "\<And>b. p = Some b \<Longrightarrow> f b m = Inr m'" and "p = None \<Longrightarrow> m' = m"
    and "length (putMsg t p @ r) \<le> l" and "l < 2 ^ 63"
  shows "unmarshalLoop fs l m (putMsg t p @ r) = unmarshalLoop fs l m' r"
  using assms by (cases p) (auto simp: putMsg_def intro: loop_putLen_msg)

lemma unpack_varints:
  assumes "length rest = stop"
  shows "unpack f stop m (concat (map varint vs) @ rest) = Inr (fold f vs m, rest)"
  using assms
proof (induction vs arbitrary: m)
  case Nil
  then show ?case by (simp add: unpack.simps)
next
  case (Cons v vs)
  have "0 < sovTypes v" using sovTypes_bounds [of v] by simp
  with Cons show ?case
    by (subst unpack.simps) (simp add: readVarint_varint)
qed

lemma loop_putPacked:
  assumes "tagOf t n 2" and "fs n = Some (nm, PackedField f)"
    and "length (putBytes t (concat (map varint vs)) @ r) \<le> l" and "l < 2 ^ 63"
  shows "unmarshalLoop fs l m (putBytes t (concat (map varint vs)) @ r) =
    unmarshalLoop fs l (fold f vs m) r"
proof (cases "concat (map varint vs) = []")
  case True
  then have "vs = []" by (cases vs) auto
  then show ?thesis by (simp add: putBytes_def)
next
  case False
  let ?b = "concat (map varint vs)"
  have "readLen l (varint (of_nat (length ?b)) @ ?b @ r) = Inr (length ?b, ?b @ r)"
    by (rule readLen_varint) (use assms False in \<open>simp_all add: putBytes_def putLen_def sizeBytes_def sizeLen_def\<close>)
  with assms False show ?thesis
    by (simp add: putBytes_def putLen_def unmarshalLoop_tag unpack_varints)
qed

text \<open>Bounds on the sizes the messages sum up.\<close>

lemma size_bounds:
  shows "sizeVarint v \<le> 11" and "sizeLen l \<le> 11 + l" and "sizeBytes b \<le> 11 + length b"
  using sovTypes_bounds(2) [of v] sovTypes_bounds(2) [of "of_nat l"] sovTypes_bounds(2) [of "of_nat (length b)"]
  by (simp_all add: sizeVarint_def sizeLen_def sizeBytes_def)

end
