(* ===== verification/Types.thy ===== *)
theory Types
  imports Wire
begin

text \<open>
  The messages of \<^verbatim>\<open>types/types.pb.go\<close> and their generated methods. A message is a
  record with the struct's fields, each prefixed with the message's name; a pointer is an
  option (\<open>None\<close> is nil), a \<^verbatim>\<open>oneof\<close> a datatype. Nil and empty byte slices are told
  apart only in \<^verbatim>\<open>AggregatedSignature.Sig\<close>, the one field whose nilness the program
  tests (\<^verbatim>\<open>Merge\<close>); elements of repeated message fields are never nil, as the decoder
  never produces a nil element. For each message \<open>T\<close>: \<open>T_zero\<close> is the zero value,
  \<open>T_MarshalToSizedBuffer\<close> the bytes written, \<open>T_Size\<close> the announced size,
  \<open>T_Marshal\<close> the buffer returned, \<open>T_fields\<close> the cases of the decoding switch and
  \<open>T_Unmarshal\<close> the decoder, which fills the message it is called on.
  The locale \<open>wire_codec\<close> states the contract of one message; every message interprets it.
\<close>

section \<open>Messages\<close>

record Transaction =
  Transaction_Account :: bytes
  Transaction_Nonce :: uint64
  Transaction_Data :: bytes
  Transaction_Sig :: bytes

record Data =
  Data_Data :: "Transaction list"

record AggregatedSignature =
  AggregatedSignature_Voters :: "uint64 list"
  AggregatedSignature_Sig :: "bytes option"

record TimeoutCertificate =
  TimeoutCertificate_View :: uint64
  TimeoutCertificate_Sig :: "AggregatedSignature option"

record Certificate =
  Certificate_Block :: bytes
  Certificate_Sig :: "AggregatedSignature option"

record Vote =
  Vote_Block :: bytes
  Vote_View :: uint64
  Vote_Voter :: uint64
  Vote_Sig :: bytes

record Header =
  Header_View :: uint64
  Header_Parent :: bytes
  Header_ParentView :: uint64
  Header_DataRoot :: bytes
  Header_StateRoot :: bytes

record Block =
  Block_Header :: "Header option"
  Block_Data :: "Data option"
  Block_Cert :: "Certificate option"

record NewView =
  NewView_View :: uint64
  NewView_Voter :: uint64
  NewView_Sig :: bytes
  NewView_Cert :: "Certificate option"

record Proposal =
  Proposal_Header :: "Header option"
  Proposal_Data :: "Data option"
  Proposal_Sig :: bytes
  Proposal_ParentCert :: "Certificate option"
  Proposal_Timeout :: "TimeoutCertificate option"

record SyncRequest =
  SyncRequest_From :: "Header option"
  SyncRequest_Limit :: uint64

record Sync =
  Sync_Blocks :: "Block list"

datatype Message_Type =
    Message_Proposal "Proposal option"
  | Message_Newview "NewView option"
  | Message_Vote "Vote option"
  | Message_Sync "Sync option"

record Message =
  Message_Type :: "Message_Type option"

subsection \<open>Zero values\<close>

definition Transaction_zero :: Transaction where
  "Transaction_zero = \<lparr>Transaction_Account = [], Transaction_Nonce = 0, Transaction_Data = [], Transaction_Sig = []\<rparr>"

definition Data_zero :: Data where
  "Data_zero = \<lparr>Data_Data = []\<rparr>"

definition AggregatedSignature_zero :: AggregatedSignature where
  "AggregatedSignature_zero = \<lparr>AggregatedSignature_Voters = [], AggregatedSignature_Sig = None\<rparr>"

definition TimeoutCertificate_zero :: TimeoutCertificate where
  "TimeoutCertificate_zero = \<lparr>TimeoutCertificate_View = 0, TimeoutCertificate_Sig = None\<rparr>"

definition Certificate_zero :: Certificate where
  "Certificate_zero = \<lparr>Certificate_Block = [], Certificate_Sig = None\<rparr>"

definition Vote_zero :: Vote where
  "Vote_zero = \<lparr>Vote_Block = [], Vote_View = 0, Vote_Voter = 0, Vote_Sig = []\<rparr>"

definition Header_zero :: Header where
  "Header_zero = \<lparr>Header_View = 0, Header_Parent = [], Header_ParentView = 0, Header_DataRoot = [], Header_StateRoot = []\<rparr>"

definition Block_zero :: Block where
  "Block_zero = \<lparr>Block_Header = None, Block_Data = None, Block_Cert = None\<rparr>"

definition NewView_zero :: NewView where
  "NewView_zero = \<lparr>NewView_View = 0, NewView_Voter = 0, NewView_Sig = [], NewView_Cert = None\<rparr>"

definition Proposal_zero :: Proposal where
  "Proposal_zero = \<lparr>Proposal_Header = None, Proposal_Data = None, Proposal_Sig = [], Proposal_ParentCert = None, Proposal_Timeout = None\<rparr>"

definition SyncRequest_zero :: SyncRequest where
  "SyncRequest_zero = \<lparr>SyncRequest_From = None, SyncRequest_Limit = 0\<rparr>"

definition Sync_zero :: Sync where
  "Sync_zero = \<lparr>Sync_Blocks = []\<rparr>"

definition Message_zero :: Message where
  "Message_zero = \<lparr>Message_Type = None\<rparr>"

section \<open>Writing\<close>

definition Transaction_MarshalToSizedBuffer :: "Transaction \<Rightarrow> bytes" where
  "Transaction_MarshalToSizedBuffer m =
     putBytes 0x0a (Transaction_Account m) @
     putVarint 0x10 (Transaction_Nonce m) @
     putBytes 0x1a (Transaction_Data m) @
     putBytes 0x22 (Transaction_Sig m)"

definition Data_MarshalToSizedBuffer :: "Data \<Rightarrow> bytes" where
  "Data_MarshalToSizedBuffer m =
     concat (map (\<lambda>e. putLen 0x0a (Transaction_MarshalToSizedBuffer e)) (Data_Data m))"

definition AggregatedSignature_MarshalToSizedBuffer :: "AggregatedSignature \<Rightarrow> bytes" where
  "AggregatedSignature_MarshalToSizedBuffer m =
     putBytes 0x0a (concat (map varint (AggregatedSignature_Voters m))) @
     putBytes 0x12 (case AggregatedSignature_Sig m of None \<Rightarrow> [] | Some b \<Rightarrow> b)"

definition TimeoutCertificate_MarshalToSizedBuffer :: "TimeoutCertificate \<Rightarrow> bytes" where
  "TimeoutCertificate_MarshalToSizedBuffer m =
     putVarint 0x08 (TimeoutCertificate_View m) @
     putMsg 0x12 (map_option AggregatedSignature_MarshalToSizedBuffer (TimeoutCertificate_Sig m))"

definition Certificate_MarshalToSizedBuffer :: "Certificate \<Rightarrow> bytes" where
  "Certificate_MarshalToSizedBuffer m =
     putBytes 0x0a (Certificate_Block m) @
     putMsg 0x12 (map_option AggregatedSignature_MarshalToSizedBuffer (Certificate_Sig m))"

definition Vote_MarshalToSizedBuffer :: "Vote \<Rightarrow> bytes" where
  "Vote_MarshalToSizedBuffer m =
     putBytes 0x0a (Vote_Block m) @
     putVarint 0x10 (Vote_View m) @
     putVarint 0x18 (Vote_Voter m) @
     putBytes 0x22 (Vote_Sig m)"

definition Header_MarshalToSizedBuffer :: "Header \<Rightarrow> bytes" where
  "Header_MarshalToSizedBuffer m =
     putVarint 0x08 (Header_View m) @
     putBytes 0x12 (Header_Parent m) @
     putVarint 0x18 (Header_ParentView m) @
     putBytes 0x22 (Header_DataRoot m) @
     putBytes 0x2a (Header_StateRoot m)"

definition Block_MarshalToSizedBuffer :: "Block \<Rightarrow> bytes" where
  "Block_MarshalToSizedBuffer m =
     putMsg 0x0a (map_option Header_MarshalToSizedBuffer (Block_Header m)) @
     putMsg 0x12 (map_option Data_MarshalToSizedBuffer (Block_Data m)) @
     putMsg 0x1a (map_option Certificate_MarshalToSizedBuffer (Block_Cert m))"

definition NewView_MarshalToSizedBuffer :: "NewView \<Rightarrow> bytes" where
  "NewView_MarshalToSizedBuffer m =
     putVarint 0x08 (NewView_View m) @
     putVarint 0x10 (NewView_Voter m) @
     putBytes 0x1a (NewView_Sig m) @
     putMsg 0x22 (map_option Certificate_MarshalToSizedBuffer (NewView_Cert m))"

definition Proposal_MarshalToSizedBuffer :: "Proposal \<Rightarrow> bytes" where
  "Proposal_MarshalToSizedBuffer m =
     putMsg 0x0a (map_option Header_MarshalToSizedBuffer (Proposal_Header m)) @
     putMsg 0x12 (map_option Data_MarshalToSizedBuffer (Proposal_Data m)) @
     putBytes 0x1a (Proposal_Sig m) @
     putMsg 0x22 (map_option Certificate_MarshalToSizedBuffer (Proposal_ParentCert m)) @
     putMsg 0x2a (map_option TimeoutCertificate_MarshalToSizedBuffer (Proposal_Timeout m))"

definition SyncRequest_MarshalToSizedBuffer :: "SyncRequest \<Rightarrow> bytes" where
  "SyncRequest_MarshalToSizedBuffer m =
     putMsg 0x0a (map_option Header_MarshalToSizedBuffer (SyncRequest_From m)) @
     putVarint 0x10 (SyncRequest_Limit m)"

definition Sync_MarshalToSizedBuffer :: "Sync \<Rightarrow> bytes" where
  "Sync_MarshalToSizedBuffer m =
     concat (map (\<lambda>e. putLen 0x0a (Block_MarshalToSizedBuffer e)) (Sync_Blocks m))"

text \<open>
  The wrapper types of the \<^verbatim>\<open>oneof\<close>, and the message around them.
\<close>

fun Message_Type_MarshalToSizedBuffer :: "Message_Type \<Rightarrow> bytes" where
  "Message_Type_MarshalToSizedBuffer (Message_Proposal p) =
     putMsg 0x0a (map_option Proposal_MarshalToSizedBuffer p)"
| "Message_Type_MarshalToSizedBuffer (Message_Newview p) =
     putMsg 0x12 (map_option NewView_MarshalToSizedBuffer p)"
| "Message_Type_MarshalToSizedBuffer (Message_Vote p) =
     putMsg 0x1a (map_option Vote_MarshalToSizedBuffer p)"
| "Message_Type_MarshalToSizedBuffer (Message_Sync p) =
     putMsg 0x22 (map_option Sync_MarshalToSizedBuffer p)"

definition Message_MarshalToSizedBuffer :: "Message \<Rightarrow> bytes" where
  "Message_MarshalToSizedBuffer m =
     (case Message_Type m of None \<Rightarrow> [] | Some t \<Rightarrow> Message_Type_MarshalToSizedBuffer t)"

section \<open>Sizes\<close>

definition Transaction_Size :: "Transaction \<Rightarrow> nat" where
  "Transaction_Size m =
     sizeBytes (Transaction_Account m) +
     sizeVarint (Transaction_Nonce m) +
     sizeBytes (Transaction_Data m) +
     sizeBytes (Transaction_Sig m)"

definition Data_Size :: "Data \<Rightarrow> nat" where
  "Data_Size m =
     sum_list (map (\<lambda>e. sizeLen (Transaction_Size e)) (Data_Data m))"

definition AggregatedSignature_Size :: "AggregatedSignature \<Rightarrow> nat" where
  "AggregatedSignature_Size m =
     (if 0 < length (AggregatedSignature_Voters m) then sizeLen (sum_list (map sovTypes (AggregatedSignature_Voters m))) else 0) +
     sizeBytes (case AggregatedSignature_Sig m of None \<Rightarrow> [] | Some b \<Rightarrow> b)"

definition TimeoutCertificate_Size :: "TimeoutCertificate \<Rightarrow> nat" where
  "TimeoutCertificate_Size m =
     sizeVarint (TimeoutCertificate_View m) +
     sizeMsg (map_option AggregatedSignature_Size (TimeoutCertificate_Sig m))"

definition Certificate_Size :: "Certificate \<Rightarrow> nat" where
  "Certificate_Size m =
     sizeBytes (Certificate_Block m) +
     sizeMsg (map_option AggregatedSignature_Size (Certificate_Sig m))"

definition Vote_Size :: "Vote \<Rightarrow> nat" where
  "Vote_Size m =
     sizeBytes (Vote_Block m) +
     sizeVarint (Vote_View m) +
     sizeVarint (Vote_Voter m) +
     sizeBytes (Vote_Sig m)"

definition Header_Size :: "Header \<Rightarrow> nat" where
  "Header_Size m =
     sizeVarint (Header_View m) +
     sizeBytes (Header_Parent m) +
     sizeVarint (Header_ParentView m) +
     sizeBytes (Header_DataRoot m) +
     sizeBytes (Header_StateRoot m)"

definition Block_Size :: "Block \<Rightarrow> nat" where
  "Block_Size m =
     sizeMsg (map_option Header_Size (Block_Header m)) +
     sizeMsg (map_option Data_Size (Block_Data m)) +
     sizeMsg (map_option Certificate_Size (Block_Cert m))"

definition NewView_Size :: "NewView \<Rightarrow> nat" where
  "NewView_Size m =
     sizeVarint (NewView_View m) +
     sizeVarint (NewView_Voter m) +
     sizeBytes (NewView_Sig m) +
     sizeMsg (map_option Certificate_Size (NewView_Cert m))"

definition Proposal_Size :: "Proposal \<Rightarrow> nat" where
  "Proposal_Size m =
     sizeMsg (map_option Header_Size (Proposal_Header m)) +
     sizeMsg (map_option Data_Size (Proposal_Data m)) +
     sizeBytes (Proposal_Sig m) +
     sizeMsg (map_option Certificate_Size (Proposal_ParentCert m)) +
     sizeMsg (map_option TimeoutCertificate_Size (Proposal_Timeout m))"

definition SyncRequest_Size :: "SyncRequest \<Rightarrow> nat" where
  "SyncRequest_Size m =
     sizeMsg (map_option Header_Size (SyncRequest_From m)) +
     sizeVarint (SyncRequest_Limit m)"

definition Sync_Size :: "Sync \<Rightarrow> nat" where
  "Sync_Size m =
     sum_list (map (\<lambda>e. sizeLen (Block_Size e)) (Sync_Blocks m))"

fun Message_Type_Size :: "Message_Type \<Rightarrow> nat" where
  "Message_Type_Size (Message_Proposal p) = sizeMsg (map_option Proposal_Size p)"
| "Message_Type_Size (Message_Newview p) = sizeMsg (map_option NewView_Size p)"
| "Message_Type_Size (Message_Vote p) = sizeMsg (map_option Vote_Size p)"
| "Message_Type_Size (Message_Sync p) = sizeMsg (map_option Sync_Size p)"

definition Message_Size :: "Message \<Rightarrow> nat" where
  "Message_Size m = (case Message_Type m of None \<Rightarrow> 0 | Some t \<Rightarrow> Message_Type_Size t)"

definition Transaction_Marshal :: "Transaction \<Rightarrow> bytes" where
  "Transaction_Marshal m = intoSizedBuffer (Transaction_Size m) (Transaction_MarshalToSizedBuffer m)"

definition Data_Marshal :: "Data \<Rightarrow> bytes" where
  "Data_Marshal m = intoSizedBuffer (Data_Size m) (Data_MarshalToSizedBuffer m)"

definition AggregatedSignature_Marshal :: "AggregatedSignature \<Rightarrow> bytes" where
  "AggregatedSignature_Marshal m = intoSizedBuffer (AggregatedSignature_Size m) (AggregatedSignature_MarshalToSizedBuffer m)"

definition TimeoutCertificate_Marshal :: "TimeoutCertificate \<Rightarrow> bytes" where
  "TimeoutCertificate_Marshal m = intoSizedBuffer (TimeoutCertificate_Size m) (TimeoutCertificate_MarshalToSizedBuffer m)"

definition Certificate_Marshal :: "Certificate \<Rightarrow> bytes" where
  "Certificate_Marshal m = intoSizedBuffer (Certificate_Size m) (Certificate_MarshalToSizedBuffer m)"

definition Vote_Marshal :: "Vote \<Rightarrow> bytes" where
  "Vote_Marshal m = intoSizedBuffer (Vote_Size m) (Vote_MarshalToSizedBuffer m)"

definition Header_Marshal :: "Header \<Rightarrow> bytes" where
  "Header_Marshal m = intoSizedBuffer (Header_Size m) (Header_MarshalToSizedBuffer m)"

definition Block_Marshal :: "Block \<Rightarrow> bytes" where
  "Block_Marshal m = intoSizedBuffer (Block_Size m) (Block_MarshalToSizedBuffer m)"

definition NewView_Marshal :: "NewView \<Rightarrow> bytes" where
  "NewView_Marshal m = intoSizedBuffer (NewView_Size m) (NewView_MarshalToSizedBuffer m)"

definition Proposal_Marshal :: "Proposal \<Rightarrow> bytes" where
  "Proposal_Marshal m = intoSizedBuffer (Proposal_Size m) (Proposal_MarshalToSizedBuffer m)"

definition SyncRequest_Marshal :: "SyncRequest \<Rightarrow> bytes" where
  "SyncRequest_Marshal m = intoSizedBuffer (SyncRequest_Size m) (SyncRequest_MarshalToSizedBuffer m)"

definition Sync_Marshal :: "Sync \<Rightarrow> bytes" where
  "Sync_Marshal m = intoSizedBuffer (Sync_Size m) (Sync_MarshalToSizedBuffer m)"

definition Message_Marshal :: "Message \<Rightarrow> bytes" where
  "Message_Marshal m = intoSizedBuffer (Message_Size m) (Message_MarshalToSizedBuffer m)"

section \<open>Reading\<close>

text \<open>
  \<^verbatim>\<open>if m.F == nil { m.F = &T{} }; m.F.Unmarshal(...)\<close>: an embedded message is decoded
  into the one that is there, so a field that occurs twice is merged.
\<close>

definition intoPtr :: "'t fields \<Rightarrow> 't \<Rightarrow> 't option \<Rightarrow> bytes \<Rightarrow> werr + 't option" where
  "intoPtr fs zero p b =
     rbind (unmarshal fs (case p of None \<Rightarrow> zero | Some x \<Rightarrow> x) b) (\<lambda>x. Inr (Some x))"


definition Transaction_fields :: "Transaction fields" where
  "Transaction_fields n =
     (if n = 1 then Some (''Account'', BytesField (\<lambda>b m. m\<lparr>Transaction_Account := b\<rparr>))
      else if n = 2 then Some (''Nonce'', VarintField (\<lambda>v m. m\<lparr>Transaction_Nonce := v\<rparr>))
      else if n = 3 then Some (''Data'', BytesField (\<lambda>b m. m\<lparr>Transaction_Data := b\<rparr>))
      else if n = 4 then Some (''Sig'', BytesField (\<lambda>b m. m\<lparr>Transaction_Sig := b\<rparr>))
      else None)"

definition Data_fields :: "Data fields" where
  "Data_fields n =
     (if n = 1 then Some (''Data'', MsgField (\<lambda>b m. rbind (unmarshal Transaction_fields Transaction_zero b)
          (\<lambda>e. Inr (m\<lparr>Data_Data := Data_Data m @ [e]\<rparr>))))
      else None)"

definition AggregatedSignature_fields :: "AggregatedSignature fields" where
  "AggregatedSignature_fields n =
     (if n = 1 then Some (''Voters'', PackedField (\<lambda>v m. m\<lparr>AggregatedSignature_Voters := AggregatedSignature_Voters m @ [v]\<rparr>))
      else if n = 2 then Some (''Sig'', BytesField (\<lambda>b m. m\<lparr>AggregatedSignature_Sig := Some b\<rparr>))
      else None)"

definition TimeoutCertificate_fields :: "TimeoutCertificate fields" where
  "TimeoutCertificate_fields n =
     (if n = 1 then Some (''View'', VarintField (\<lambda>v m. m\<lparr>TimeoutCertificate_View := v\<rparr>))
      else if n = 2 then Some (''Sig'', MsgField (\<lambda>b m. rbind (intoPtr AggregatedSignature_fields AggregatedSignature_zero (TimeoutCertificate_Sig m) b)
          (\<lambda>p. Inr (m\<lparr>TimeoutCertificate_Sig := p\<rparr>))))
      else None)"

definition Certificate_fields :: "Certificate fields" where
  "Certificate_fields n =
     (if n = 1 then Some (''Block'', BytesField (\<lambda>b m. m\<lparr>Certificate_Block := b\<rparr>))
      else if n = 2 then Some (''Sig'', MsgField (\<lambda>b m. rbind (intoPtr AggregatedSignature_fields AggregatedSignature_zero (Certificate_Sig m) b)
          (\<lambda>p. Inr (m\<lparr>Certificate_Sig := p\<rparr>))))
      else None)"

definition Vote_fields :: "Vote fields" where
  "Vote_fields n =
     (if n = 1 then Some (''Block'', BytesField (\<lambda>b m. m\<lparr>Vote_Block := b\<rparr>))
      else if n = 2 then Some (''View'', VarintField (\<lambda>v m. m\<lparr>Vote_View := v\<rparr>))
      else if n = 3 then Some (''Voter'', VarintField (\<lambda>v m. m\<lparr>Vote_Voter := v\<rparr>))
      else if n = 4 then Some (''Sig'', BytesField (\<lambda>b m. m\<lparr>Vote_Sig := b\<rparr>))
      else None)"

definition Header_fields :: "Header fields" where
  "Header_fields n =
     (if n = 1 then Some (''View'', VarintField (\<lambda>v m. m\<lparr>Header_View := v\<rparr>))
      else if n = 2 then Some (''Parent'', BytesField (\<lambda>b m. m\<lparr>Header_Parent := b\<rparr>))
      else if n = 3 then Some (''ParentView'', VarintField (\<lambda>v m. m\<lparr>Header_ParentView := v\<rparr>))
      else if n = 4 then Some (''DataRoot'', BytesField (\<lambda>b m. m\<lparr>Header_DataRoot := b\<rparr>))
      else if n = 5 then Some (''StateRoot'', BytesField (\<lambda>b m. m\<lparr>Header_StateRoot := b\<rparr>))
      else None)"

definition Block_fields :: "Block fields" where
  "Block_fields n =
     (if n = 1 then Some (''Header'', MsgField (\<lambda>b m. rbind (intoPtr Header_fields Header_zero (Block_Header m) b)
          (\<lambda>p. Inr (m\<lparr>Block_Header := p\<rparr>))))
      else if n = 2 then Some (''Data'', MsgField (\<lambda>b m. rbind (intoPtr Data_fields Data_zero (Block_Data m) b)
          (\<lambda>p. Inr (m\<lparr>Block_Data := p\<rparr>))))
      else if n = 3 then Some (''Cert'', MsgField (\<lambda>b m. rbind (intoPtr Certificate_fields Certificate_zero (Block_Cert m) b)
          (\<lambda>p. Inr (m\<lparr>Block_Cert := p\<rparr>))))
      else None)"

definition NewView_fields :: "NewView fields" where
  "NewView_fields n =
     (if n = 1 then Some (''View'', VarintField (\<lambda>v m. m\<lparr>NewView_View := v\<rparr>))
      else if n = 2 then Some (''Voter'', VarintField (\<lambda>v m. m\<lparr>NewView_Voter := v\<rparr>))
      else if n = 3 then Some (''Sig'', BytesField (\<lambda>b m. m\<lparr>NewView_Sig := b\<rparr>))
      else if n = 4 then Some (''Cert'', MsgField (\<lambda>b m. rbind (intoPtr Certificate_fields Certificate_zero (NewView_Cert m) b)
          (\<lambda>p. Inr (m\<lparr>NewView_Cert := p\<rparr>))))
      else None)"

definition Proposal_fields :: "Proposal fields" where
  "Proposal_fields n =
     (if n = 1 then Some (''Header'', MsgField (\<lambda>b m. rbind (intoPtr Header_fields Header_zero (Proposal_Header m) b)
          (\<lambda>p. Inr (m\<lparr>Proposal_Header := p\<rparr>))))
      else if n = 2 then Some (''Data'', MsgField (\<lambda>b m. rbind (intoPtr Data_fields Data_zero (Proposal_Data m) b)
          (\<lambda>p. Inr (m\<lparr>Proposal_Data := p\<rparr>))))
      else if n = 3 then Some (''Sig'', BytesField (\<lambda>b m. m\<lparr>Proposal_Sig := b\<rparr>))
      else if n = 4 then Some (''ParentCert'', MsgField (\<lambda>b m. rbind (intoPtr Certificate_fields Certificate_zero (Proposal_ParentCert m) b)
          (\<lambda>p. Inr (m\<lparr>Proposal_ParentCert := p\<rparr>))))
      else if n = 5 then Some (''Timeout'', MsgField (\<lambda>b m. rbind (intoPtr TimeoutCertificate_fields TimeoutCertificate_zero (Proposal_Timeout m) b)
          (\<lambda>p. Inr (m\<lparr>Proposal_Timeout := p\<rparr>))))
      else None)"

definition SyncRequest_fields :: "SyncRequest fields" where
  "SyncRequest_fields n =
     (if n = 1 then Some (''From'', MsgField (\<lambda>b m. rbind (intoPtr Header_fields Header_zero (SyncRequest_From m) b)
          (\<lambda>p. Inr (m\<lparr>SyncRequest_From := p\<rparr>))))
      else if n = 2 then Some (''Limit'', VarintField (\<lambda>v m. m\<lparr>SyncRequest_Limit := v\<rparr>))
      else None)"

definition Sync_fields :: "Sync fields" where
  "Sync_fields n =
     (if n = 1 then Some (''Blocks'', MsgField (\<lambda>b m. rbind (unmarshal Block_fields Block_zero b)
          (\<lambda>e. Inr (m\<lparr>Sync_Blocks := Sync_Blocks m @ [e]\<rparr>))))
      else None)"

definition Message_fields :: "Message fields" where
  "Message_fields n =
     (if n = 1 then Some (''Proposal'', MsgField (\<lambda>b m.
          rbind (unmarshal Proposal_fields Proposal_zero b)
            (\<lambda>v. Inr (m\<lparr>Message_Type := Some (Message_Proposal (Some v))\<rparr>))))
      else if n = 2 then Some (''Newview'', MsgField (\<lambda>b m.
          rbind (unmarshal NewView_fields NewView_zero b)
            (\<lambda>v. Inr (m\<lparr>Message_Type := Some (Message_Newview (Some v))\<rparr>))))
      else if n = 3 then Some (''Vote'', MsgField (\<lambda>b m.
          rbind (unmarshal Vote_fields Vote_zero b)
            (\<lambda>v. Inr (m\<lparr>Message_Type := Some (Message_Vote (Some v))\<rparr>))))
      else if n = 4 then Some (''Sync'', MsgField (\<lambda>b m.
          rbind (unmarshal Sync_fields Sync_zero b)
            (\<lambda>v. Inr (m\<lparr>Message_Type := Some (Message_Sync (Some v))\<rparr>))))
      else None)"

definition Transaction_Unmarshal :: "Transaction \<Rightarrow> bytes \<Rightarrow> werr + Transaction" where
  "Transaction_Unmarshal m dAtA = unmarshal Transaction_fields m dAtA"

definition Data_Unmarshal :: "Data \<Rightarrow> bytes \<Rightarrow> werr + Data" where
  "Data_Unmarshal m dAtA = unmarshal Data_fields m dAtA"

definition AggregatedSignature_Unmarshal :: "AggregatedSignature \<Rightarrow> bytes \<Rightarrow> werr + AggregatedSignature" where
  "AggregatedSignature_Unmarshal m dAtA = unmarshal AggregatedSignature_fields m dAtA"

definition TimeoutCertificate_Unmarshal :: "TimeoutCertificate \<Rightarrow> bytes \<Rightarrow> werr + TimeoutCertificate" where
  "TimeoutCertificate_Unmarshal m dAtA = unmarshal TimeoutCertificate_fields m dAtA"

definition Certificate_Unmarshal :: "Certificate \<Rightarrow> bytes \<Rightarrow> werr + Certificate" where
  "Certificate_Unmarshal m dAtA = unmarshal Certificate_fields m dAtA"

definition Vote_Unmarshal :: "Vote \<Rightarrow> bytes \<Rightarrow> werr + Vote" where
  "Vote_Unmarshal m dAtA = unmarshal Vote_fields m dAtA"

definition Header_Unmarshal :: "Header \<Rightarrow> bytes \<Rightarrow> werr + Header" where
  "Header_Unmarshal m dAtA = unmarshal Header_fields m dAtA"

definition Block_Unmarshal :: "Block \<Rightarrow> bytes \<Rightarrow> werr + Block" where
  "Block_Unmarshal m dAtA = unmarshal Block_fields m dAtA"

definition NewView_Unmarshal :: "NewView \<Rightarrow> bytes \<Rightarrow> werr + NewView" where
  "NewView_Unmarshal m dAtA = unmarshal NewView_fields m dAtA"

definition Proposal_Unmarshal :: "Proposal \<Rightarrow> bytes \<Rightarrow> werr + Proposal" where
  "Proposal_Unmarshal m dAtA = unmarshal Proposal_fields m dAtA"

definition SyncRequest_Unmarshal :: "SyncRequest \<Rightarrow> bytes \<Rightarrow> werr + SyncRequest" where
  "SyncRequest_Unmarshal m dAtA = unmarshal SyncRequest_fields m dAtA"

definition Sync_Unmarshal :: "Sync \<Rightarrow> bytes \<Rightarrow> werr + Sync" where
  "Sync_Unmarshal m dAtA = unmarshal Sync_fields m dAtA"

text \<open>
  The caller of \<^verbatim>\<open>Message.Unmarshal\<close> in \<^verbatim>\<open>hotstuff-node\<close> ignores the error and uses the
  message as it was left, so the decoder of the envelope returns both. An embedded message
  enters \<^verbatim>\<open>Type\<close> only once it is decoded completely.
\<close>

definition Message_Unmarshal :: "Message \<Rightarrow> bytes \<Rightarrow> Message \<times> werr option" where
  "Message_Unmarshal m dAtA = unmarshalLoop Message_fields (length dAtA) m dAtA"

section \<open>The codec contract\<close>

text \<open>
  What a message promises: the size it announces is the number of bytes it writes, and its
  decoder, started on the zero value, reads a well-formed message back.
\<close>

locale wire_codec =
  fixes fields :: "'m fields" and zero :: 'm and written :: "'m \<Rightarrow> bytes"
    and sz :: "'m \<Rightarrow> nat" and wf :: "'m \<Rightarrow> bool"
  assumes size_exact: "length (written m) = sz m"
    and loop_reads: "wf m \<Longrightarrow> sz m \<le> l \<Longrightarrow> l < 2 ^ 63 \<Longrightarrow>
      unmarshalLoop fields l zero (written m) = (m, None)"
begin

lemma marshal_exact: "intoSizedBuffer (sz m) (written m) = written m"
  by (simp add: size_exact)

lemma length_marshal: "length (intoSizedBuffer (sz m) (written m)) = sz m"
  by (simp add: size_exact)

lemma loop_read_back:
  assumes "wf m" and "sz m < 2 ^ 63"
  shows "unmarshalLoop fields (sz m) zero (written m) = (m, None)"
  using assms by (simp add: loop_reads)

lemma read_back: "wf m \<Longrightarrow> sz m < 2 ^ 63 \<Longrightarrow> unmarshal fields zero (written m) = Inr m"
  by (simp add: unmarshal_def size_exact loop_read_back)

lemma ptr_read_back:
  "wf m \<Longrightarrow> sz m < 2 ^ 63 \<Longrightarrow> intoPtr fields zero None (written m) = Inr (Some m)"
  by (simp add: intoPtr_def read_back)

lemma length_ptr [simp]: "map_option length (map_option written p) = map_option sz p"
  by (cases p) (simp_all add: size_exact)

lemma loop_ptr:
  assumes "tagOf t n 2"
    and "fs n = Some (nm, MsgField (\<lambda>b m. rbind (intoPtr fields zero (get m) b) (\<lambda>q. Inr (upd q m))))"
    and "get m = None" and "upd None m = m" and "pred_option wf p"
    and "length (putMsg t (map_option written p) @ r) \<le> l" and "l < 2 ^ 63"
  shows "unmarshalLoop fs l m (putMsg t (map_option written p) @ r) = unmarshalLoop fs l (upd p m) r"
proof (rule loop_putMsg [where fs = fs and n = n, OF assms(1,2)])
  show "length (putMsg t (map_option written p) @ r) \<le> l" and "l < 2 ^ 63" by fact+
  fix b
  assume "map_option written p = Some b"
  then obtain x where x: "p = Some x" and b: "b = written x" by auto
  with assms have "sz x < 2 ^ 63" and "wf x" by (auto simp: sizeMsg_def sizeLen_def size_exact)
  then show "rbind (intoPtr fields zero (get m) b) (\<lambda>q. Inr (upd q m)) = Inr (upd p m)"
    using assms(3) x b by (simp add: ptr_read_back)
qed (use assms in simp)

lemma loop_repeated:
  assumes "tagOf t n 2"
    and "fs n = Some (nm, MsgField (\<lambda>b m. rbind (unmarshal fields zero b) (\<lambda>e. Inr (app e m))))"
    and "list_all wf es" and "length (concat (map (\<lambda>e. putLen t (written e)) es) @ r) \<le> l"
    and "l < 2 ^ 63"
  shows "unmarshalLoop fs l m (concat (map (\<lambda>e. putLen t (written e)) es) @ r) =
    unmarshalLoop fs l (fold app es m) r"
  using assms(3,4)
proof (induction es arbitrary: m)
  case (Cons e es)
  then have "sz e < 2 ^ 63" and "wf e"
    using assms(5) by (auto simp: sizeLen_def size_exact)
  then have "rbind (unmarshal fields zero (written e)) (\<lambda>e. Inr (app e m)) = Inr (app e m)"
    by (simp add: read_back)
  with Cons loop_putLen_msg [where fs = fs and n = n, OF assms(1,2), of "written e" m "app e m"] assms(5)
  show ?case by simp
qed simp

lemma written_inj:
  assumes "wf m" and "wf m'" and "sz m < 2 ^ 63" and "written m = written m'"
  shows "m = m'"
  using assms read_back [of m] read_back [of m'] by (metis Inr_inject size_exact)

end

text \<open>
  Well-formed values are those the encoding distinguishes: an aggregated signature that is
  present but empty is written like an absent one.
\<close>

definition AggregatedSignature_wf :: "AggregatedSignature \<Rightarrow> bool" where
  "AggregatedSignature_wf m \<longleftrightarrow> AggregatedSignature_Sig m \<noteq> Some []"

definition TimeoutCertificate_wf :: "TimeoutCertificate \<Rightarrow> bool" where
  "TimeoutCertificate_wf m \<longleftrightarrow> pred_option AggregatedSignature_wf (TimeoutCertificate_Sig m)"

definition Certificate_wf :: "Certificate \<Rightarrow> bool" where
  "Certificate_wf m \<longleftrightarrow> pred_option AggregatedSignature_wf (Certificate_Sig m)"

definition Block_wf :: "Block \<Rightarrow> bool" where
  "Block_wf m \<longleftrightarrow> pred_option Certificate_wf (Block_Cert m)"

definition NewView_wf :: "NewView \<Rightarrow> bool" where
  "NewView_wf m \<longleftrightarrow> pred_option Certificate_wf (NewView_Cert m)"

definition Proposal_wf :: "Proposal \<Rightarrow> bool" where
  "Proposal_wf m \<longleftrightarrow> pred_option Certificate_wf (Proposal_ParentCert m) \<and> pred_option TimeoutCertificate_wf (Proposal_Timeout m)"

definition Sync_wf :: "Sync \<Rightarrow> bool" where
  "Sync_wf m \<longleftrightarrow> list_all Block_wf (Sync_Blocks m)"

fun Message_Type_wf :: "Message_Type \<Rightarrow> bool" where
  "Message_Type_wf (Message_Proposal p) = (case p of None \<Rightarrow> False | Some v \<Rightarrow> Proposal_wf v)"
| "Message_Type_wf (Message_Newview p) = (case p of None \<Rightarrow> False | Some v \<Rightarrow> NewView_wf v)"
| "Message_Type_wf (Message_Vote p) = (p \<noteq> None)"
| "Message_Type_wf (Message_Sync p) = (case p of None \<Rightarrow> False | Some v \<Rightarrow> Sync_wf v)"

definition Message_wf :: "Message \<Rightarrow> bool" where
  "Message_wf m \<longleftrightarrow> pred_option Message_Type_wf (Message_Type m)"

subsection \<open>Tags\<close>

lemma tags:
  shows tag_08: "tagOf 0x08 1 0" and tag_0a: "tagOf 0x0a 1 2" and tag_10: "tagOf 0x10 2 0"
    and tag_12: "tagOf 0x12 2 2" and tag_18: "tagOf 0x18 3 0" and tag_1a: "tagOf 0x1a 3 2"
    and tag_22: "tagOf 0x22 4 2" and tag_2a: "tagOf 0x2a 5 2"
  by (simp_all add: tagOf_def fieldNum_def wireType_def drop_bit_eq_div)

lemma length_concat_varints: "length (concat (map varint vs)) = sum_list (map sovTypes vs)"
  by (induction vs) simp_all

lemma sizeBytes_varints:
  "sizeBytes (concat (map varint vs)) = (if 0 < length vs then sizeLen (sum_list (map sovTypes vs)) else 0)"
  by (cases vs) (simp_all add: sizeBytes_def length_concat_varints)

text \<open>Appending element by element is appending the list.\<close>

lemma fold_append_fields:
  shows "fold (\<lambda>v m. m\<lparr>AggregatedSignature_Voters := AggregatedSignature_Voters m @ [v]\<rparr>) vs a =
      a\<lparr>AggregatedSignature_Voters := AggregatedSignature_Voters a @ vs\<rparr>"
    and "fold (\<lambda>e m. m\<lparr>Data_Data := Data_Data m @ [e]\<rparr>) ts d = d\<lparr>Data_Data := Data_Data d @ ts\<rparr>"
    and "fold (\<lambda>e m. m\<lparr>Sync_Blocks := Sync_Blocks m @ [e]\<rparr>) bs s = s\<lparr>Sync_Blocks := Sync_Blocks s @ bs\<rparr>"
proof -
  show "fold (\<lambda>v m. m\<lparr>AggregatedSignature_Voters := AggregatedSignature_Voters m @ [v]\<rparr>) vs a =
      a\<lparr>AggregatedSignature_Voters := AggregatedSignature_Voters a @ vs\<rparr>"
    by (induction vs arbitrary: a) simp_all
  show "fold (\<lambda>e m. m\<lparr>Data_Data := Data_Data m @ [e]\<rparr>) ts d = d\<lparr>Data_Data := Data_Data d @ ts\<rparr>"
    by (induction ts arbitrary: d) simp_all
  show "fold (\<lambda>e m. m\<lparr>Sync_Blocks := Sync_Blocks m @ [e]\<rparr>) bs s = s\<lparr>Sync_Blocks := Sync_Blocks s @ bs\<rparr>"
    by (induction bs arbitrary: s) simp_all
qed

subsection \<open>Every message keeps the contract\<close>

lemma Transaction_fields_eqs:
  shows "Transaction_fields 1 = Some (''Account'', BytesField (\<lambda>b m. m\<lparr>Transaction_Account := b\<rparr>))"
    and "Transaction_fields 2 = Some (''Nonce'', VarintField (\<lambda>v m. m\<lparr>Transaction_Nonce := v\<rparr>))"
    and "Transaction_fields 3 = Some (''Data'', BytesField (\<lambda>b m. m\<lparr>Transaction_Data := b\<rparr>))"
    and "Transaction_fields 4 = Some (''Sig'', BytesField (\<lambda>b m. m\<lparr>Transaction_Sig := b\<rparr>))"
  by (simp_all add: Transaction_fields_def)

lemmas Transaction_loop =
  loop_putBytes [where fs = Transaction_fields and n = 1, OF tag_0a Transaction_fields_eqs(1)]
  loop_putVarint [where fs = Transaction_fields and n = 2, OF tag_10 Transaction_fields_eqs(2)]
  loop_putBytes [where fs = Transaction_fields and n = 3, OF tag_1a Transaction_fields_eqs(3)]
  loop_putBytes [where fs = Transaction_fields and n = 4, OF tag_22 Transaction_fields_eqs(4)]
  loop_putBytes [where fs = Transaction_fields and n = 4, OF tag_22 Transaction_fields_eqs(4), where r = "[]", unfolded append_Nil2 unmarshalLoop_Nil]

interpretation Transaction_codec: wire_codec Transaction_fields Transaction_zero Transaction_MarshalToSizedBuffer Transaction_Size "\<lambda>_ :: Transaction. True"
proof
  fix m :: Transaction and l :: nat
  show "length (Transaction_MarshalToSizedBuffer m) = Transaction_Size m"
    by (simp add: Transaction_MarshalToSizedBuffer_def Transaction_Size_def)
  assume "Transaction_Size m \<le> l" and "l < 2 ^ 63"
  then show "unmarshalLoop Transaction_fields l Transaction_zero (Transaction_MarshalToSizedBuffer m) = (m, None)"
    by (simp add: Transaction_MarshalToSizedBuffer_def Transaction_Size_def Transaction_zero_def Transaction_loop)
qed

lemma Data_fields_eqs:
  shows "Data_fields 1 = Some (''Data'', MsgField (\<lambda>b m. rbind (unmarshal Transaction_fields Transaction_zero b)
          (\<lambda>e. Inr (m\<lparr>Data_Data := Data_Data m @ [e]\<rparr>))))"
  by (simp_all add: Data_fields_def)

lemmas Data_loop =
  Transaction_codec.loop_repeated [where fs = Data_fields and n = 1, OF tag_0a Data_fields_eqs]
  Transaction_codec.loop_repeated [where fs = Data_fields and n = 1, OF tag_0a Data_fields_eqs, where r = "[]", unfolded append_Nil2 unmarshalLoop_Nil]

interpretation Data_codec: wire_codec Data_fields Data_zero Data_MarshalToSizedBuffer Data_Size "\<lambda>_ :: Data. True"
proof
  fix m :: Data and l :: nat
  show "length (Data_MarshalToSizedBuffer m) = Data_Size m"
    by (simp add: Data_MarshalToSizedBuffer_def Data_Size_def fold_append_fields length_concat o_def list.pred_True Transaction_codec.size_exact)
  assume "Data_Size m \<le> l" and "l < 2 ^ 63"
  then show "unmarshalLoop Data_fields l Data_zero (Data_MarshalToSizedBuffer m) = (m, None)"
    by (simp add: Data_MarshalToSizedBuffer_def Data_Size_def Data_zero_def Data_loop fold_append_fields length_concat o_def list.pred_True Transaction_codec.size_exact)
qed

lemma AggregatedSignature_fields_eqs:
  shows "AggregatedSignature_fields 1 = Some (''Voters'', PackedField (\<lambda>v m. m\<lparr>AggregatedSignature_Voters := AggregatedSignature_Voters m @ [v]\<rparr>))"
    and "AggregatedSignature_fields 2 = Some (''Sig'', BytesField (\<lambda>b m. m\<lparr>AggregatedSignature_Sig := Some b\<rparr>))"
  by (simp_all add: AggregatedSignature_fields_def)

lemmas AggregatedSignature_loop =
  loop_putPacked [where fs = AggregatedSignature_fields and n = 1, OF tag_0a AggregatedSignature_fields_eqs(1)]
  loop_putBytes_opt [where fs = AggregatedSignature_fields and n = 2, OF tag_12 AggregatedSignature_fields_eqs(2)]
  loop_putBytes_opt [where fs = AggregatedSignature_fields and n = 2, OF tag_12 AggregatedSignature_fields_eqs(2), where r = "[]", unfolded append_Nil2 unmarshalLoop_Nil]

interpretation AggregatedSignature_codec: wire_codec AggregatedSignature_fields AggregatedSignature_zero AggregatedSignature_MarshalToSizedBuffer AggregatedSignature_Size AggregatedSignature_wf
proof
  fix m :: AggregatedSignature and l :: nat
  show "length (AggregatedSignature_MarshalToSizedBuffer m) = AggregatedSignature_Size m"
    by (simp add: AggregatedSignature_MarshalToSizedBuffer_def AggregatedSignature_Size_def sizeBytes_varints fold_append_fields AggregatedSignature_wf_def)
  assume "AggregatedSignature_wf m" and "AggregatedSignature_Size m \<le> l" and "l < 2 ^ 63"
  then show "unmarshalLoop AggregatedSignature_fields l AggregatedSignature_zero (AggregatedSignature_MarshalToSizedBuffer m) = (m, None)"
    by (cases "AggregatedSignature_Sig m") (simp_all add: AggregatedSignature_MarshalToSizedBuffer_def AggregatedSignature_Size_def AggregatedSignature_zero_def AggregatedSignature_loop sizeBytes_varints fold_append_fields AggregatedSignature_wf_def)
qed

lemma TimeoutCertificate_fields_eqs:
  shows "TimeoutCertificate_fields 1 = Some (''View'', VarintField (\<lambda>v m. m\<lparr>TimeoutCertificate_View := v\<rparr>))"
    and "TimeoutCertificate_fields 2 = Some (''Sig'', MsgField (\<lambda>b m. rbind (intoPtr AggregatedSignature_fields AggregatedSignature_zero (TimeoutCertificate_Sig m) b)
          (\<lambda>p. Inr (m\<lparr>TimeoutCertificate_Sig := p\<rparr>))))"
  by (simp_all add: TimeoutCertificate_fields_def)

lemmas TimeoutCertificate_loop =
  loop_putVarint [where fs = TimeoutCertificate_fields and n = 1, OF tag_08 TimeoutCertificate_fields_eqs(1)]
  AggregatedSignature_codec.loop_ptr [where fs = TimeoutCertificate_fields and n = 2, OF tag_12 TimeoutCertificate_fields_eqs(2)]
  AggregatedSignature_codec.loop_ptr [where fs = TimeoutCertificate_fields and n = 2, OF tag_12 TimeoutCertificate_fields_eqs(2), where r = "[]", unfolded append_Nil2 unmarshalLoop_Nil]

interpretation TimeoutCertificate_codec: wire_codec TimeoutCertificate_fields TimeoutCertificate_zero TimeoutCertificate_MarshalToSizedBuffer TimeoutCertificate_Size TimeoutCertificate_wf
proof
  fix m :: TimeoutCertificate and l :: nat
  show "length (TimeoutCertificate_MarshalToSizedBuffer m) = TimeoutCertificate_Size m"
    by (simp add: TimeoutCertificate_MarshalToSizedBuffer_def TimeoutCertificate_Size_def option.pred_True AggregatedSignature_codec.size_exact TimeoutCertificate_wf_def)
  assume "TimeoutCertificate_wf m" and "TimeoutCertificate_Size m \<le> l" and "l < 2 ^ 63"
  then show "unmarshalLoop TimeoutCertificate_fields l TimeoutCertificate_zero (TimeoutCertificate_MarshalToSizedBuffer m) = (m, None)"
    by (simp add: TimeoutCertificate_MarshalToSizedBuffer_def TimeoutCertificate_Size_def TimeoutCertificate_zero_def TimeoutCertificate_loop option.pred_True AggregatedSignature_codec.size_exact TimeoutCertificate_wf_def)
qed

lemma Certificate_fields_eqs:
  shows "Certificate_fields 1 = Some (''Block'', BytesField (\<lambda>b m. m\<lparr>Certificate_Block := b\<rparr>))"
    and "Certificate_fields 2 = Some (''Sig'', MsgField (\<lambda>b m. rbind (intoPtr AggregatedSignature_fields AggregatedSignature_zero (Certificate_Sig m) b)
          (\<lambda>p. Inr (m\<lparr>Certificate_Sig := p\<rparr>))))"
  by (simp_all add: Certificate_fields_def)

lemmas Certificate_loop =
  loop_putBytes [where fs = Certificate_fields and n = 1, OF tag_0a Certificate_fields_eqs(1)]
  AggregatedSignature_codec.loop_ptr [where fs = Certificate_fields and n = 2, OF tag_12 Certificate_fields_eqs(2)]
  AggregatedSignature_codec.loop_ptr [where fs = Certificate_fields and n = 2, OF tag_12 Certificate_fields_eqs(2), where r = "[]", unfolded append_Nil2 unmarshalLoop_Nil]

interpretation Certificate_codec: wire_codec Certificate_fields Certificate_zero Certificate_MarshalToSizedBuffer Certificate_Size Certificate_wf
proof
  fix m :: Certificate and l :: nat
  show "length (Certificate_MarshalToSizedBuffer m) = Certificate_Size m"
    by (simp add: Certificate_MarshalToSizedBuffer_def Certificate_Size_def option.pred_True AggregatedSignature_codec.size_exact Certificate_wf_def)
  assume "Certificate_wf m" and "Certificate_Size m \<le> l" and "l < 2 ^ 63"
  then show "unmarshalLoop Certificate_fields l Certificate_zero (Certificate_MarshalToSizedBuffer m) = (m, None)"
    by (simp add: Certificate_MarshalToSizedBuffer_def Certificate_Size_def Certificate_zero_def Certificate_loop option.pred_True AggregatedSignature_codec.size_exact Certificate_wf_def)
qed

lemma Vote_fields_eqs:
  shows "Vote_fields 1 = Some (''Block'', BytesField (\<lambda>b m. m\<lparr>Vote_Block := b\<rparr>))"
    and "Vote_fields 2 = Some (''View'', VarintField (\<lambda>v m. m\<lparr>Vote_View := v\<rparr>))"
    and "Vote_fields 3 = Some (''Voter'', VarintField (\<lambda>v m. m\<lparr>Vote_Voter := v\<rparr>))"
    and "Vote_fields 4 = Some (''Sig'', BytesField (\<lambda>b m. m\<lparr>Vote_Sig := b\<rparr>))"
  by (simp_all add: Vote_fields_def)

lemmas Vote_loop =
  loop_putBytes [where fs = Vote_fields and n = 1, OF tag_0a Vote_fields_eqs(1)]
  loop_putVarint [where fs = Vote_fields and n = 2, OF tag_10 Vote_fields_eqs(2)]
  loop_putVarint [where fs = Vote_fields and n = 3, OF tag_18 Vote_fields_eqs(3)]
  loop_putBytes [where fs = Vote_fields and n = 4, OF tag_22 Vote_fields_eqs(4)]
  loop_putBytes [where fs = Vote_fields and n = 4, OF tag_22 Vote_fields_eqs(4), where r = "[]", unfolded append_Nil2 unmarshalLoop_Nil]

interpretation Vote_codec: wire_codec Vote_fields Vote_zero Vote_MarshalToSizedBuffer Vote_Size "\<lambda>_ :: Vote. True"
proof
  fix m :: Vote and l :: nat
  show "length (Vote_MarshalToSizedBuffer m) = Vote_Size m"
    by (simp add: Vote_MarshalToSizedBuffer_def Vote_Size_def)
  assume "Vote_Size m \<le> l" and "l < 2 ^ 63"
  then show "unmarshalLoop Vote_fields l Vote_zero (Vote_MarshalToSizedBuffer m) = (m, None)"
    by (simp add: Vote_MarshalToSizedBuffer_def Vote_Size_def Vote_zero_def Vote_loop)
qed

lemma Header_fields_eqs:
  shows "Header_fields 1 = Some (''View'', VarintField (\<lambda>v m. m\<lparr>Header_View := v\<rparr>))"
    and "Header_fields 2 = Some (''Parent'', BytesField (\<lambda>b m. m\<lparr>Header_Parent := b\<rparr>))"
    and "Header_fields 3 = Some (''ParentView'', VarintField (\<lambda>v m. m\<lparr>Header_ParentView := v\<rparr>))"
    and "Header_fields 4 = Some (''DataRoot'', BytesField (\<lambda>b m. m\<lparr>Header_DataRoot := b\<rparr>))"
    and "Header_fields 5 = Some (''StateRoot'', BytesField (\<lambda>b m. m\<lparr>Header_StateRoot := b\<rparr>))"
  by (simp_all add: Header_fields_def)

lemmas Header_loop =
  loop_putVarint [where fs = Header_fields and n = 1, OF tag_08 Header_fields_eqs(1)]
  loop_putBytes [where fs = Header_fields and n = 2, OF tag_12 Header_fields_eqs(2)]
  loop_putVarint [where fs = Header_fields and n = 3, OF tag_18 Header_fields_eqs(3)]
  loop_putBytes [where fs = Header_fields and n = 4, OF tag_22 Header_fields_eqs(4)]
  loop_putBytes [where fs = Header_fields and n = 5, OF tag_2a Header_fields_eqs(5)]
  loop_putBytes [where fs = Header_fields and n = 5, OF tag_2a Header_fields_eqs(5), where r = "[]", unfolded append_Nil2 unmarshalLoop_Nil]

interpretation Header_codec: wire_codec Header_fields Header_zero Header_MarshalToSizedBuffer Header_Size "\<lambda>_ :: Header. True"
proof
  fix m :: Header and l :: nat
  show "length (Header_MarshalToSizedBuffer m) = Header_Size m"
    by (simp add: Header_MarshalToSizedBuffer_def Header_Size_def)
  assume "Header_Size m \<le> l" and "l < 2 ^ 63"
  then show "unmarshalLoop Header_fields l Header_zero (Header_MarshalToSizedBuffer m) = (m, None)"
    by (simp add: Header_MarshalToSizedBuffer_def Header_Size_def Header_zero_def Header_loop)
qed

lemma Block_fields_eqs:
  shows "Block_fields 1 = Some (''Header'', MsgField (\<lambda>b m. rbind (intoPtr Header_fields Header_zero (Block_Header m) b)
          (\<lambda>p. Inr (m\<lparr>Block_Header := p\<rparr>))))"
    and "Block_fields 2 = Some (''Data'', MsgField (\<lambda>b m. rbind (intoPtr Data_fields Data_zero (Block_Data m) b)
          (\<lambda>p. Inr (m\<lparr>Block_Data := p\<rparr>))))"
    and "Block_fields 3 = Some (''Cert'', MsgField (\<lambda>b m. rbind (intoPtr Certificate_fields Certificate_zero (Block_Cert m) b)
          (\<lambda>p. Inr (m\<lparr>Block_Cert := p\<rparr>))))"
  by (simp_all add: Block_fields_def)

lemmas Block_loop =
  Header_codec.loop_ptr [where fs = Block_fields and n = 1, OF tag_0a Block_fields_eqs(1)]
  Data_codec.loop_ptr [where fs = Block_fields and n = 2, OF tag_12 Block_fields_eqs(2)]
  Certificate_codec.loop_ptr [where fs = Block_fields and n = 3, OF tag_1a Block_fields_eqs(3)]
  Certificate_codec.loop_ptr [where fs = Block_fields and n = 3, OF tag_1a Block_fields_eqs(3), where r = "[]", unfolded append_Nil2 unmarshalLoop_Nil]

interpretation Block_codec: wire_codec Block_fields Block_zero Block_MarshalToSizedBuffer Block_Size Block_wf
proof
  fix m :: Block and l :: nat
  show "length (Block_MarshalToSizedBuffer m) = Block_Size m"
    by (simp add: Block_MarshalToSizedBuffer_def Block_Size_def option.pred_True Certificate_codec.size_exact Data_codec.size_exact Header_codec.size_exact Block_wf_def)
  assume "Block_wf m" and "Block_Size m \<le> l" and "l < 2 ^ 63"
  then show "unmarshalLoop Block_fields l Block_zero (Block_MarshalToSizedBuffer m) = (m, None)"
    by (simp add: Block_MarshalToSizedBuffer_def Block_Size_def Block_zero_def Block_loop option.pred_True Certificate_codec.size_exact Data_codec.size_exact Header_codec.size_exact Block_wf_def)
qed

lemma NewView_fields_eqs:
  shows "NewView_fields 1 = Some (''View'', VarintField (\<lambda>v m. m\<lparr>NewView_View := v\<rparr>))"
    and "NewView_fields 2 = Some (''Voter'', VarintField (\<lambda>v m. m\<lparr>NewView_Voter := v\<rparr>))"
    and "NewView_fields 3 = Some (''Sig'', BytesField (\<lambda>b m. m\<lparr>NewView_Sig := b\<rparr>))"
    and "NewView_fields 4 = Some (''Cert'', MsgField (\<lambda>b m. rbind (intoPtr Certificate_fields Certificate_zero (NewView_Cert m) b)
          (\<lambda>p. Inr (m\<lparr>NewView_Cert := p\<rparr>))))"
  by (simp_all add: NewView_fields_def)

lemmas NewView_loop =
  loop_putVarint [where fs = NewView_fields and n = 1, OF tag_08 NewView_fields_eqs(1)]
  loop_putVarint [where fs = NewView_fields and n = 2, OF tag_10 NewView_fields_eqs(2)]
  loop_putBytes [where fs = NewView_fields and n = 3, OF tag_1a NewView_fields_eqs(3)]
  Certificate_codec.loop_ptr [where fs = NewView_fields and n = 4, OF tag_22 NewView_fields_eqs(4)]
  Certificate_codec.loop_ptr [where fs = NewView_fields and n = 4, OF tag_22 NewView_fields_eqs(4), where r = "[]", unfolded append_Nil2 unmarshalLoop_Nil]

interpretation NewView_codec: wire_codec NewView_fields NewView_zero NewView_MarshalToSizedBuffer NewView_Size NewView_wf
proof
  fix m :: NewView and l :: nat
  show "length (NewView_MarshalToSizedBuffer m) = NewView_Size m"
    by (simp add: NewView_MarshalToSizedBuffer_def NewView_Size_def option.pred_True Certificate_codec.size_exact NewView_wf_def)
  assume "NewView_wf m" and "NewView_Size m \<le> l" and "l < 2 ^ 63"
  then show "unmarshalLoop NewView_fields l NewView_zero (NewView_MarshalToSizedBuffer m) = (m, None)"
    by (simp add: NewView_MarshalToSizedBuffer_def NewView_Size_def NewView_zero_def NewView_loop option.pred_True Certificate_codec.size_exact NewView_wf_def)
qed

lemma Proposal_fields_eqs:
  shows "Proposal_fields 1 = Some (''Header'', MsgField (\<lambda>b m. rbind (intoPtr Header_fields Header_zero (Proposal_Header m) b)
          (\<lambda>p. Inr (m\<lparr>Proposal_Header := p\<rparr>))))"
    and "Proposal_fields 2 = Some (''Data'', MsgField (\<lambda>b m. rbind (intoPtr Data_fields Data_zero (Proposal_Data m) b)
          (\<lambda>p. Inr (m\<lparr>Proposal_Data := p\<rparr>))))"
    and "Proposal_fields 3 = Some (''Sig'', BytesField (\<lambda>b m. m\<lparr>Proposal_Sig := b\<rparr>))"
    and "Proposal_fields 4 = Some (''ParentCert'', MsgField (\<lambda>b m. rbind (intoPtr Certificate_fields Certificate_zero (Proposal_ParentCert m) b)
          (\<lambda>p. Inr (m\<lparr>Proposal_ParentCert := p\<rparr>))))"
    and "Proposal_fields 5 = Some (''Timeout'', MsgField (\<lambda>b m. rbind (intoPtr TimeoutCertificate_fields TimeoutCertificate_zero (Proposal_Timeout m) b)
          (\<lambda>p. Inr (m\<lparr>Proposal_Timeout := p\<rparr>))))"
  by (simp_all add: Proposal_fields_def)

lemmas Proposal_loop =
  Header_codec.loop_ptr [where fs = Proposal_fields and n = 1, OF tag_0a Proposal_fields_eqs(1)]
  Data_codec.loop_ptr [where fs = Proposal_fields and n = 2, OF tag_12 Proposal_fields_eqs(2)]
  loop_putBytes [where fs = Proposal_fields and n = 3, OF tag_1a Proposal_fields_eqs(3)]
  Certificate_codec.loop_ptr [where fs = Proposal_fields and n = 4, OF tag_22 Proposal_fields_eqs(4)]
  TimeoutCertificate_codec.loop_ptr [where fs = Proposal_fields and n = 5, OF tag_2a Proposal_fields_eqs(5)]
  TimeoutCertificate_codec.loop_ptr [where fs = Proposal_fields and n = 5, OF tag_2a Proposal_fields_eqs(5), where r = "[]", unfolded append_Nil2 unmarshalLoop_Nil]

interpretation Proposal_codec: wire_codec Proposal_fields Proposal_zero Proposal_MarshalToSizedBuffer Proposal_Size Proposal_wf
proof
  fix m :: Proposal and l :: nat
  show "length (Proposal_MarshalToSizedBuffer m) = Proposal_Size m"
    by (simp add: Proposal_MarshalToSizedBuffer_def Proposal_Size_def option.pred_True Certificate_codec.size_exact Data_codec.size_exact Header_codec.size_exact TimeoutCertificate_codec.size_exact Proposal_wf_def)
  assume "Proposal_wf m" and "Proposal_Size m \<le> l" and "l < 2 ^ 63"
  then show "unmarshalLoop Proposal_fields l Proposal_zero (Proposal_MarshalToSizedBuffer m) = (m, None)"
    by (simp add: Proposal_MarshalToSizedBuffer_def Proposal_Size_def Proposal_zero_def Proposal_loop option.pred_True Certificate_codec.size_exact Data_codec.size_exact Header_codec.size_exact TimeoutCertificate_codec.size_exact Proposal_wf_def)
qed

lemma SyncRequest_fields_eqs:
  shows "SyncRequest_fields 1 = Some (''From'', MsgField (\<lambda>b m. rbind (intoPtr Header_fields Header_zero (SyncRequest_From m) b)
          (\<lambda>p. Inr (m\<lparr>SyncRequest_From := p\<rparr>))))"
    and "SyncRequest_fields 2 = Some (''Limit'', VarintField (\<lambda>v m. m\<lparr>SyncRequest_Limit := v\<rparr>))"
  by (simp_all add: SyncRequest_fields_def)

lemmas SyncRequest_loop =
  Header_codec.loop_ptr [where fs = SyncRequest_fields and n = 1, OF tag_0a SyncRequest_fields_eqs(1)]
  loop_putVarint [where fs = SyncRequest_fields and n = 2, OF tag_10 SyncRequest_fields_eqs(2)]
  loop_putVarint [where fs = SyncRequest_fields and n = 2, OF tag_10 SyncRequest_fields_eqs(2), where r = "[]", unfolded append_Nil2 unmarshalLoop_Nil]

interpretation SyncRequest_codec: wire_codec SyncRequest_fields SyncRequest_zero SyncRequest_MarshalToSizedBuffer SyncRequest_Size "\<lambda>_ :: SyncRequest. True"
proof
  fix m :: SyncRequest and l :: nat
  show "length (SyncRequest_MarshalToSizedBuffer m) = SyncRequest_Size m"
    by (simp add: SyncRequest_MarshalToSizedBuffer_def SyncRequest_Size_def option.pred_True Header_codec.size_exact)
  assume "SyncRequest_Size m \<le> l" and "l < 2 ^ 63"
  then show "unmarshalLoop SyncRequest_fields l SyncRequest_zero (SyncRequest_MarshalToSizedBuffer m) = (m, None)"
    by (simp add: SyncRequest_MarshalToSizedBuffer_def SyncRequest_Size_def SyncRequest_zero_def SyncRequest_loop option.pred_True Header_codec.size_exact)
qed

lemma Sync_fields_eqs:
  shows "Sync_fields 1 = Some (''Blocks'', MsgField (\<lambda>b m. rbind (unmarshal Block_fields Block_zero b)
          (\<lambda>e. Inr (m\<lparr>Sync_Blocks := Sync_Blocks m @ [e]\<rparr>))))"
  by (simp_all add: Sync_fields_def)

lemmas Sync_loop =
  Block_codec.loop_repeated [where fs = Sync_fields and n = 1, OF tag_0a Sync_fields_eqs]
  Block_codec.loop_repeated [where fs = Sync_fields and n = 1, OF tag_0a Sync_fields_eqs, where r = "[]", unfolded append_Nil2 unmarshalLoop_Nil]

interpretation Sync_codec: wire_codec Sync_fields Sync_zero Sync_MarshalToSizedBuffer Sync_Size Sync_wf
proof
  fix m :: Sync and l :: nat
  show "length (Sync_MarshalToSizedBuffer m) = Sync_Size m"
    by (simp add: Sync_MarshalToSizedBuffer_def Sync_Size_def fold_append_fields length_concat o_def list.pred_True Block_codec.size_exact Sync_wf_def)
  assume "Sync_wf m" and "Sync_Size m \<le> l" and "l < 2 ^ 63"
  then show "unmarshalLoop Sync_fields l Sync_zero (Sync_MarshalToSizedBuffer m) = (m, None)"
    by (simp add: Sync_MarshalToSizedBuffer_def Sync_Size_def Sync_zero_def Sync_loop fold_append_fields length_concat o_def list.pred_True Block_codec.size_exact Sync_wf_def)
qed

lemma Message_fields_eqs:
  shows "Message_fields 1 = Some (''Proposal'', MsgField (\<lambda>b m.
          rbind (unmarshal Proposal_fields Proposal_zero b)
            (\<lambda>v. Inr (m\<lparr>Message_Type := Some (Message_Proposal (Some v))\<rparr>))))"
    and "Message_fields 2 = Some (''Newview'', MsgField (\<lambda>b m.
          rbind (unmarshal NewView_fields NewView_zero b)
            (\<lambda>v. Inr (m\<lparr>Message_Type := Some (Message_Newview (Some v))\<rparr>))))"
    and "Message_fields 3 = Some (''Vote'', MsgField (\<lambda>b m.
          rbind (unmarshal Vote_fields Vote_zero b)
            (\<lambda>v. Inr (m\<lparr>Message_Type := Some (Message_Vote (Some v))\<rparr>))))"
    and "Message_fields 4 = Some (''Sync'', MsgField (\<lambda>b m.
          rbind (unmarshal Sync_fields Sync_zero b)
            (\<lambda>v. Inr (m\<lparr>Message_Type := Some (Message_Sync (Some v))\<rparr>))))"
  by (simp_all add: Message_fields_def)

text \<open>A field that holds exactly one element of a repeated field, which is how a oneof is read.\<close>

lemmas Message_loop =
  Proposal_codec.loop_repeated [where fs = Message_fields and n = 1, OF tag_0a Message_fields_eqs(1),
    where r = "[]", unfolded append_Nil2 unmarshalLoop_Nil]
  NewView_codec.loop_repeated [where fs = Message_fields and n = 2, OF tag_12 Message_fields_eqs(2),
    where r = "[]", unfolded append_Nil2 unmarshalLoop_Nil]
  Vote_codec.loop_repeated [where fs = Message_fields and n = 3, OF tag_1a Message_fields_eqs(3),
    where r = "[]", unfolded append_Nil2 unmarshalLoop_Nil]
  Sync_codec.loop_repeated [where fs = Message_fields and n = 4, OF tag_22 Message_fields_eqs(4),
    where r = "[]", unfolded append_Nil2 unmarshalLoop_Nil]

lemmas Message_loop_one =
  Message_loop(1) [where es = "[e]" for e, simplified] Message_loop(2) [where es = "[e]" for e, simplified]
  Message_loop(3) [where es = "[e]" for e, simplified] Message_loop(4) [where es = "[e]" for e, simplified]

lemma Message_Type_size: "length (Message_Type_MarshalToSizedBuffer t) = Message_Type_Size t"
  by (cases t) simp_all

interpretation Message_codec:
  wire_codec Message_fields Message_zero Message_MarshalToSizedBuffer Message_Size Message_wf
proof
  fix m :: Message and l :: nat
  show "length (Message_MarshalToSizedBuffer m) = Message_Size m"
    by (simp add: Message_MarshalToSizedBuffer_def Message_Size_def Message_Type_size split: option.split)
  assume wf: "Message_wf m" and sz: "Message_Size m \<le> l" and l: "l < 2 ^ 63"
  show "unmarshalLoop Message_fields l Message_zero (Message_MarshalToSizedBuffer m) = (m, None)"
  proof (cases "Message_Type m")
    case None
    then show ?thesis by (simp add: Message_MarshalToSizedBuffer_def Message_zero_def)
  next
    case (Some t)
    with wf sz l show ?thesis
      by (cases t)
        (auto simp: Message_MarshalToSizedBuffer_def Message_Size_def Message_wf_def Message_zero_def
          Message_loop_one putMsg_def sizeMsg_def sizeLen_def
          Proposal_codec.size_exact NewView_codec.size_exact Vote_codec.size_exact Sync_codec.size_exact
          split: option.splits)
  qed
qed

end
