(* ===== verification/Encoding.thy ===== *)
theory Encoding
  imports Types
begin

text \<open>
  Fixed-width integers in big-endian order (\<^verbatim>\<open>encoding.go\<close>, and the length prefixes of
  \<^verbatim>\<open>bytes_encoding.go\<close>), and the two hash functions of the program:
  \<^verbatim>\<open>HashSum\<close> of \<^verbatim>\<open>utils.go\<close> and \<^verbatim>\<open>Header.Hash\<close> of \<^verbatim>\<open>types/hash.go\<close>. Both are
  blake2s-256, a library function and hence the parameter \<open>H\<close>.
\<close>

section \<open>Big-endian integers\<close>

text \<open>\<^verbatim>\<open>binary.BigEndian\<close>: the \<open>k\<close> low bytes of a word, the most significant first.\<close>

fun beBytes :: "nat \<Rightarrow> 'a::len word \<Rightarrow> bytes" where
  "beBytes 0 u = []"
| "beBytes (Suc k) u = ucast (drop_bit (8 * k) u) # beBytes k u"

definition beWord :: "bytes \<Rightarrow> 'a::len word" where
  "beWord bs = fold (\<lambda>b acc. push_bit 8 acc OR ucast b) bs 0"

definition EncodeUint64 :: "uint64 \<Rightarrow> bytes" where
  "EncodeUint64 u = beBytes 8 u"

text \<open>Reading needs eight bytes and ignores what follows them; fewer are out of range.\<close>

definition DecodeUint64 :: "bytes \<Rightarrow> uint64 result" where
  "DecodeUint64 b = (if length b < 8 then Inl IndexOutOfRange else Inr (beWord (take 8 b)))"

lemma length_beBytes [simp]: "length (beBytes k u) = k"
  by (induction k) simp_all

lemma fold_beBytes:
  "fold (\<lambda>b acc. push_bit 8 acc OR ucast b) (beBytes k u) acc =
    push_bit (8 * k) acc OR take_bit (8 * k) (u :: 'a::len word)"
proof (induction k arbitrary: acc)
  case 0
  then show ?case by simp
next
  case (Suc k)
  have "push_bit (8 * k) (push_bit 8 acc OR ucast (ucast (drop_bit (8 * k) u) :: byte)) OR take_bit (8 * k) u =
      push_bit (8 * Suc k) acc OR take_bit (8 * Suc k) u"
  proof (rule bit_eqI)
    fix n
    show "bit (push_bit (8 * k) (push_bit 8 acc OR ucast (ucast (drop_bit (8 * k) u) :: byte))
          OR take_bit (8 * k) u) n \<longleftrightarrow>
        bit (push_bit (8 * Suc k) acc OR take_bit (8 * Suc k) u) n"
      by (cases "n < 8 * k") (auto simp: bit_simps not_less algebra_simps dest: bit_imp_le_length)
  qed
  with Suc show ?case by simp
qed

lemma beWord_beBytes: "beWord (beBytes k u) = take_bit (8 * k) (u :: 'a::len word)"
  by (simp add: beWord_def fold_beBytes)

lemma length_EncodeUint64 [simp]: "length (EncodeUint64 u) = 8"
  by (simp add: EncodeUint64_def)

lemma DecodeUint64_EncodeUint64: "DecodeUint64 (EncodeUint64 u @ rest) = Inr u"
proof -
  have "take_bit (8 * 8) u = u" by (rule take_bit_word_eq_self) simp
  then have "beWord (EncodeUint64 u) = u"
    by (simp only: EncodeUint64_def beWord_beBytes)
  moreover have "take 8 (EncodeUint64 u @ rest) = EncodeUint64 u" by simp
  ultimately show ?thesis by (simp add: DecodeUint64_def)
qed

lemma EncodeUint64_inject [simp]: "EncodeUint64 u = EncodeUint64 v \<longleftrightarrow> u = v"
  by (metis DecodeUint64_EncodeUint64 Inr_inject)

section \<open>Hashes\<close>

type_synonym hash = "bytes \<Rightarrow> bytes"

definition HashSum :: "hash \<Rightarrow> bytes \<Rightarrow> bytes" where
  "HashSum H buf = H buf"

definition Header_Hash :: "hash \<Rightarrow> Header \<Rightarrow> bytes" where
  "Header_Hash H h = H (Header_Marshal h)"

text \<open>
  Two headers with one hash are one header, as far as the hash function tells their
  encodings apart: the encoding binds every field.
\<close>

lemma Header_Marshal_written [simp]: "Header_Marshal h = Header_MarshalToSizedBuffer h"
  by (simp add: Header_Marshal_def Header_codec.size_exact)

lemma Header_Hash_inject:
  assumes "inj_on H {Header_Marshal h, Header_Marshal h'}"
    and "Header_Size h < 2 ^ 63" and "Header_Size h' < 2 ^ 63"
    and "Header_Hash H h = Header_Hash H h'"
  shows "h = h'"
proof -
  have "H (Header_Marshal h) = H (Header_Marshal h')"
    using assms(4) unfolding Header_Hash_def .
  then have "Header_Marshal h = Header_Marshal h'"
    by (rule inj_onD [OF assms(1)]) blast+
  then have "Header_MarshalToSizedBuffer h = Header_MarshalToSizedBuffer h'"
    by (simp only: Header_Marshal_written)
  then show ?thesis
    by (rule Header_codec.written_inj [OF TrueI TrueI assms(2)])
qed

text \<open>
  A vote signs a header's hash, a new-view message the hash of an eight-byte number, with
  one key and one domain tag. A header whose parent is a 32-byte hash is longer than eight
  bytes, so the two kinds of signed messages differ.
\<close>

lemma Header_Marshal_long: "length (Header_Parent h) = 32 \<Longrightarrow> 33 < length (Header_Marshal h)"
  using sovTypes_bounds(1) [of "of_nat 32"]
  by (simp add: Header_codec.size_exact Header_Size_def sizeBytes_def sizeLen_def)

end
