(* ===== verification/Crypto.thy ===== *)
theory Crypto
  imports Types
begin

text \<open>
  Package \<^verbatim>\<open>crypto\<close>: the signer and the verifier over BLS12-381 signatures, and key
  generation. The signature scheme is a library, hence the parameter \<open>B\<close>; what the
  program relies on is the locale \<open>bls\<close>: decompression inverts compression, a signature
  verifies under its own key, and adding a verifying signature to an aggregate that verifies
  under a list of keys gives one that verifies under the list extended by the signer's key.
  The locale \<open>verifier\<close> is the interface \<^verbatim>\<open>Verifier\<close> of \<^verbatim>\<open>consensus.go\<close> as its
  clients use it; the BLS verifier is shown to implement it.
\<close>

section \<open>The library\<close>

record ('sk, 'pk, 'sig) BLS =
  bls_Sign :: "bytes \<Rightarrow> bytes \<Rightarrow> 'sk \<Rightarrow> 'sig"
  bls_SignatureToCompressed :: "'sig \<Rightarrow> bytes"
  bls_NewSignatureFromCompressed :: "bytes \<Rightarrow> string + 'sig"
  bls_Verify :: "bytes \<Rightarrow> bytes \<Rightarrow> 'sig \<Rightarrow> 'pk \<Rightarrow> bool"
  bls_VerifyAggregateCommon :: "bytes \<Rightarrow> bytes \<Rightarrow> 'pk list \<Rightarrow> 'sig \<Rightarrow> bool"
  bls_AggregateSignature :: "'sig \<Rightarrow> 'sig \<Rightarrow> 'sig"
  bls_PublicKeyFromSecretKey :: "'sk \<Rightarrow> 'pk"

definition domain :: bytes where
  "domain = [1, 1, 1, 0, 0, 0, 0, 0]"

text \<open>\<^verbatim>\<open>m := [32]byte{}; copy(m[:], msg)\<close>: cut or padded with zeros to 32 bytes.\<close>

definition copy32 :: "bytes \<Rightarrow> bytes" where
  "copy32 msg = take 32 (msg @ replicate 32 0)"

lemma length_copy32 [simp]: "length (copy32 msg) = 32"
  by (simp add: copy32_def)

section \<open>Signer\<close>

definition BLS12381Signer_Sign ::
  "('sk, 'pk, 'sig) BLS \<Rightarrow> 'sk \<Rightarrow> bytes \<Rightarrow> bytes \<Rightarrow> bytes result" where
  "BLS12381Signer_Sign B priv dst msg =
     (if length msg \<noteq> 32 then Inl (PanicMsg ''message must be exactly 32 bytes'')
      else Inr (dst @ bls_SignatureToCompressed B (bls_Sign B (copy32 msg) domain priv)))"

section \<open>Verifier\<close>

record 'pk BLS12381Verifier =
  threshold :: nat
  pubkeys :: "'pk list"

definition BLS12381Verifier_Verify ::
  "('sk, 'pk, 'sig) BLS \<Rightarrow> 'pk BLS12381Verifier \<Rightarrow> uint64 \<Rightarrow> bytes \<Rightarrow> bytes \<Rightarrow> bool" where
  "BLS12381Verifier_Verify B v idx msg sig =
     (if of_nat (length (pubkeys v)) \<le> idx then False
      else case bls_NewSignatureFromCompressed B sig of
        Inl e \<Rightarrow> False
      | Inr s \<Rightarrow> bls_Verify B (copy32 msg) domain s (pubkeys v ! unat idx))"

text \<open>The loop over the voters: the keys it appends, or the \<^verbatim>\<open>return false\<close>.\<close>

fun collectKeys :: "'pk list \<Rightarrow> uint64 list \<Rightarrow> 'pk list option" where
  "collectKeys pks [] = Some []"
| "collectKeys pks (voter # vs) =
     (if of_nat (length pks) \<le> voter then None
      else map_option (\<lambda>ks. pks ! unat voter # ks) (collectKeys pks vs))"

fun sigBytes :: "bytes option \<Rightarrow> bytes" where
  "sigBytes None = []"
| "sigBytes (Some b) = b"

definition BLS12381Verifier_VerifyAggregated ::
  "('sk, 'pk, 'sig) BLS \<Rightarrow> 'pk BLS12381Verifier \<Rightarrow> bytes \<Rightarrow> AggregatedSignature \<Rightarrow> bool" where
  "BLS12381Verifier_VerifyAggregated B v msg asig =
     (if length (AggregatedSignature_Voters asig) < threshold v then False
      else case collectKeys (pubkeys v) (AggregatedSignature_Voters asig) of
        None \<Rightarrow> False
      | Some pubs \<Rightarrow>
          (case bls_NewSignatureFromCompressed B (sigBytes (AggregatedSignature_Sig asig)) of
             Inl e \<Rightarrow> False
           | Inr sig \<Rightarrow> bls_VerifyAggregateCommon B (copy32 msg) domain pubs sig))"

definition BLS12381Verifier_Merge ::
  "('sk, 'pk, 'sig) BLS \<Rightarrow> 'pk BLS12381Verifier \<Rightarrow> AggregatedSignature \<Rightarrow> uint64 \<Rightarrow> bytes \<Rightarrow> AggregatedSignature" where
  "BLS12381Verifier_Merge B v asig voter sig =
     (if of_nat (length (pubkeys v)) \<le> voter then asig
      else if voter \<in> set (AggregatedSignature_Voters asig) then asig
      else let withVoter = (\<lambda>sg. asig\<lparr>AggregatedSignature_Sig := Some sg,
                 AggregatedSignature_Voters := AggregatedSignature_Voters asig @ [voter]\<rparr>)
           in case AggregatedSignature_Sig asig of
                Some sg \<Rightarrow>
                  (case bls_NewSignatureFromCompressed B sg of
                     Inl e \<Rightarrow> asig
                   | Inr sig1 \<Rightarrow>
                       (case bls_NewSignatureFromCompressed B sig of
                          Inl e \<Rightarrow> asig
                        | Inr sig2 \<Rightarrow>
                            withVoter (bls_SignatureToCompressed B (bls_AggregateSignature B sig1 sig2))))
              | None \<Rightarrow> withVoter sig)"

section \<open>Keys\<close>

text \<open>
  \<^verbatim>\<open>GenerateKey\<close> draws a secret key from the random source; \<open>rand\<close> is
  \<^verbatim>\<open>blssig.RandSecretKey\<close>, which may fail, threading the source \<open>'r\<close>.
\<close>

definition GenerateKey ::
  "('sk, 'pk, 'sig) BLS \<Rightarrow> ('r \<Rightarrow> (string + 'sk) \<times> 'r) \<Rightarrow> 'r \<Rightarrow> (string + 'sk \<times> 'pk) \<times> 'r" where
  "GenerateKey B rand rng =
     (case rand rng of
        (Inl e, rng') \<Rightarrow> (Inl e, rng')
      | (Inr priv, rng') \<Rightarrow> (Inr (priv, bls_PublicKeyFromSecretKey B priv), rng'))"

fun GenerateKeys ::
  "('sk, 'pk, 'sig) BLS \<Rightarrow> ('r \<Rightarrow> (string + 'sk) \<times> 'r) \<Rightarrow> 'r \<Rightarrow> nat \<Rightarrow> (string + 'pk list \<times> 'sk list) \<times> 'r" where
  "GenerateKeys B rand rng 0 = (Inr ([], []), rng)"
| "GenerateKeys B rand rng (Suc n) =
     (case GenerateKey B rand rng of
        (Inl e, rng') \<Rightarrow> (Inl e, rng')
      | (Inr (priv, pub), rng') \<Rightarrow>
          (case GenerateKeys B rand rng' n of
             (Inl e, rng'') \<Rightarrow> (Inl e, rng'')
           | (Inr (pubs, privs), rng'') \<Rightarrow> (Inr (pub # pubs, priv # privs), rng'')))"

section \<open>The interface of the consensus code\<close>

record Verifier =
  v_VerifyAggregated :: "bytes \<Rightarrow> AggregatedSignature \<Rightarrow> bool"
  v_Verify :: "uint64 \<Rightarrow> bytes \<Rightarrow> bytes \<Rightarrow> bool"
  v_Merge :: "AggregatedSignature \<Rightarrow> uint64 \<Rightarrow> bytes \<Rightarrow> AggregatedSignature"

definition NewBLS12381Verifier :: "('sk, 'pk, 'sig) BLS \<Rightarrow> nat \<Rightarrow> 'pk list \<Rightarrow> Verifier" where
  "NewBLS12381Verifier B n pks =
     (let v = \<lparr>threshold = n, pubkeys = pks\<rparr>
      in \<lparr>v_VerifyAggregated = BLS12381Verifier_VerifyAggregated B v,
          v_Verify = BLS12381Verifier_Verify B v,
          v_Merge = BLS12381Verifier_Merge B v\<rparr>)"

text \<open>
  What a collector of signatures relies on: \<open>good m a\<close> says that \<open>a\<close> is the aggregate
  of one verifying signature on \<open>m\<close> per listed voter. The empty aggregate is good,
  merging a verified signature of a new voter keeps it good and appends the voter, and a
  good aggregate with enough voters passes \<^verbatim>\<open>VerifyAggregated\<close>.
\<close>

locale verifier =
  fixes V :: Verifier and majority :: nat and good :: "bytes \<Rightarrow> AggregatedSignature \<Rightarrow> bool"
  assumes good_zero: "good m AggregatedSignature_zero"
    and good_merge: "good m a \<Longrightarrow> v_Verify V i m s \<Longrightarrow> i \<notin> set (AggregatedSignature_Voters a) \<Longrightarrow>
      good m (v_Merge V a i s)"
    and voters_merge: "good m a \<Longrightarrow> v_Verify V i m s \<Longrightarrow> i \<notin> set (AggregatedSignature_Voters a) \<Longrightarrow>
      AggregatedSignature_Voters (v_Merge V a i s) = AggregatedSignature_Voters a @ [i]"
    and good_verifies: "good m a \<Longrightarrow> majority \<le> length (AggregatedSignature_Voters a) \<Longrightarrow>
      v_VerifyAggregated V m a"

section \<open>The BLS verifier implements it\<close>

locale bls =
  fixes B :: "('sk, 'pk, 'sig) BLS"
  assumes decompress: "bls_NewSignatureFromCompressed B (bls_SignatureToCompressed B s) = Inr s"
    and verify_sign: "bls_Verify B m d (bls_Sign B m d sk) (bls_PublicKeyFromSecretKey B sk)"
    and aggregate_one: "bls_Verify B m d s pk \<Longrightarrow> bls_VerifyAggregateCommon B m d [pk] s"
    and aggregate_more: "bls_VerifyAggregateCommon B m d pks s \<Longrightarrow> pks \<noteq> [] \<Longrightarrow> bls_Verify B m d s' pk \<Longrightarrow>
      bls_VerifyAggregateCommon B m d (pks @ [pk]) (bls_AggregateSignature B s s')"

text \<open>A good aggregate of the BLS verifier.\<close>

definition bls_good ::
  "('sk, 'pk, 'sig) BLS \<Rightarrow> 'pk list \<Rightarrow> bytes \<Rightarrow> AggregatedSignature \<Rightarrow> bool" where
  "bls_good B pks m a \<longleftrightarrow>
     (AggregatedSignature_Voters a = [] \<and> AggregatedSignature_Sig a = None) \<or>
     (\<exists>sg s ks. AggregatedSignature_Voters a \<noteq> [] \<and> AggregatedSignature_Sig a = Some sg \<and>
        bls_NewSignatureFromCompressed B sg = Inr s \<and>
        collectKeys pks (AggregatedSignature_Voters a) = Some ks \<and>
        bls_VerifyAggregateCommon B (copy32 m) domain ks s)"

lemma collectKeys_append_one:
  "collectKeys pks vs = Some ks \<Longrightarrow> \<not> of_nat (length pks) \<le> voter \<Longrightarrow>
    collectKeys pks (vs @ [voter]) = Some (ks @ [pks ! unat voter])"
  by (induction vs arbitrary: ks) (auto split: if_splits)

lemma collectKeys_length: "collectKeys pks vs = Some ks \<Longrightarrow> length ks = length vs"
  by (induction vs arbitrary: ks) (auto split: if_splits)

context bls
begin

lemma bls_good_merge:
  assumes good: "bls_good B pks m a"
    and ver: "BLS12381Verifier_Verify B \<lparr>threshold = n, pubkeys = pks\<rparr> i m s"
    and new: "i \<notin> set (AggregatedSignature_Voters a)"
  shows "bls_good B pks m (BLS12381Verifier_Merge B \<lparr>threshold = n, pubkeys = pks\<rparr> a i s)"
    and "AggregatedSignature_Voters (BLS12381Verifier_Merge B \<lparr>threshold = n, pubkeys = pks\<rparr> a i s) =
      AggregatedSignature_Voters a @ [i]"
proof -
  obtain s2 where i: "\<not> of_nat (length pks) \<le> i" and s2: "bls_NewSignatureFromCompressed B s = Inr s2"
    and v2: "bls_Verify B (copy32 m) domain s2 (pks ! unat i)"
    using ver by (auto simp: BLS12381Verifier_Verify_def split: if_splits sum.splits)
  show "bls_good B pks m (BLS12381Verifier_Merge B \<lparr>threshold = n, pubkeys = pks\<rparr> a i s)"
  proof (cases "AggregatedSignature_Sig a")
    case None
    with good have "AggregatedSignature_Voters a = []" by (auto simp: bls_good_def)
    with None i s2 aggregate_one [OF v2] show ?thesis
      by (simp add: bls_good_def BLS12381Verifier_Merge_def)
  next
    case (Some sg)
    with good obtain s1 ks where s1: "bls_NewSignatureFromCompressed B sg = Inr s1"
      and ks: "collectKeys pks (AggregatedSignature_Voters a) = Some ks"
      and v1: "bls_VerifyAggregateCommon B (copy32 m) domain ks s1"
      and ne: "AggregatedSignature_Voters a \<noteq> []"
      by (auto simp: bls_good_def)
    have "ks \<noteq> []" using collectKeys_length [OF ks] ne by auto
    from aggregate_more [OF v1 this v2] collectKeys_append_one [OF ks i] Some s1 s2 i new
    show ?thesis by (simp add: bls_good_def BLS12381Verifier_Merge_def decompress)
  qed
  show "AggregatedSignature_Voters (BLS12381Verifier_Merge B \<lparr>threshold = n, pubkeys = pks\<rparr> a i s) =
      AggregatedSignature_Voters a @ [i]"
    using good i new s2 by (auto simp: bls_good_def BLS12381Verifier_Merge_def split: option.split)
qed

lemma bls_implements_verifier:
  assumes "0 < n"
  shows "verifier (NewBLS12381Verifier B n pks) n (bls_good B pks)"
proof
  fix m a i s
  show "bls_good B pks m AggregatedSignature_zero"
    by (simp add: bls_good_def AggregatedSignature_zero_def)
  assume good: "bls_good B pks m a"
  show "v_VerifyAggregated (NewBLS12381Verifier B n pks) m a"
    if "n \<le> length (AggregatedSignature_Voters a)"
    using good that assms
    by (auto simp: NewBLS12381Verifier_def BLS12381Verifier_VerifyAggregated_def bls_good_def Let_def)
  assume "v_Verify (NewBLS12381Verifier B n pks) i m s" and "i \<notin> set (AggregatedSignature_Voters a)"
  with good show "bls_good B pks m (v_Merge (NewBLS12381Verifier B n pks) a i s)"
    and "AggregatedSignature_Voters (v_Merge (NewBLS12381Verifier B n pks) a i s) =
      AggregatedSignature_Voters a @ [i]"
    using bls_good_merge [of pks m a n i s] by (simp_all add: NewBLS12381Verifier_def Let_def)
qed

text \<open>
  The aggregate of \<open>k + 1\<close> copies of one signature verifies under \<open>k + 1\<close> copies of
  the signer's key.
\<close>

lemma aggregate_copies:
  assumes "bls_Verify B m d s pk"
  shows "bls_VerifyAggregateCommon B m d (replicate (Suc k) pk)
    (((\<lambda>a. bls_AggregateSignature B a s) ^^ k) s)"
proof (induction k)
  case 0
  then show ?case using aggregate_one [OF assms] by simp
next
  case (Suc k)
  have "replicate (Suc (Suc k)) pk = replicate (Suc k) pk @ [pk]"
    by (simp add: replicate_append_same)
  moreover have "bls_VerifyAggregateCommon B m d (replicate (Suc k) pk @ [pk])
      (((\<lambda>a. bls_AggregateSignature B a s) ^^ Suc k) s)"
    using aggregate_more [OF Suc _ assms] by simp
  ultimately show ?case by (simp only:)
qed

lemma collectKeys_copies:
  "\<not> of_nat (length pks) \<le> i \<Longrightarrow> collectKeys pks (replicate k i) = Some (replicate k (pks ! unat i))"
  by (induction k) simp_all

lemma one_key_certificate:
  assumes "\<not> of_nat (length pks) \<le> i" and "pks ! unat i = bls_PublicKeyFromSecretKey B sk"
  shows "\<exists>a. set (AggregatedSignature_Voters a) = {i} \<and>
    v_VerifyAggregated (NewBLS12381Verifier B (Suc k) pks) m a"
proof -
  let ?s = "((\<lambda>a. bls_AggregateSignature B a (bls_Sign B (copy32 m) domain sk)) ^^ k) (bls_Sign B (copy32 m) domain sk)"
  let ?a = "\<lparr>AggregatedSignature_Voters = replicate (Suc k) i,
              AggregatedSignature_Sig = Some (bls_SignatureToCompressed B ?s)\<rparr>"
  have "v_VerifyAggregated (NewBLS12381Verifier B (Suc k) pks) m ?a"
    using aggregate_copies [where k = k, OF verify_sign [of "copy32 m" domain sk]] assms
      collectKeys_copies [OF assms(1), of "Suc k"]
    by (simp add: NewBLS12381Verifier_def BLS12381Verifier_VerifyAggregated_def decompress Let_def)
  then show ?thesis by (intro exI [of _ ?a]) (simp add: set_replicate_conv_if)
qed

end

sublocale bls \<subseteq> quorumVerifier: verifier "NewBLS12381Verifier B (Suc n) pks" "Suc n" "bls_good B pks" for n pks
  by (rule bls_implements_verifier) simp

text \<open>
  An instance of the scheme's laws: a signature lists, for each signer, the domain, the
  message and the key it was made with.
\<close>

definition symBLS :: "(byte, byte, bytes) BLS" where
  "symBLS =
     \<lparr>bls_Sign = (\<lambda>m d sk. d @ m @ [sk]),
      bls_SignatureToCompressed = (\<lambda>s. s),
      bls_NewSignatureFromCompressed = Inr,
      bls_Verify = (\<lambda>m d s pk. s = d @ m @ [pk]),
      bls_VerifyAggregateCommon = (\<lambda>m d pks s. s = concat (map (\<lambda>pk. d @ m @ [pk]) pks)),
      bls_AggregateSignature = (@),
      bls_PublicKeyFromSecretKey = (\<lambda>sk. sk)\<rparr>"

interpretation symBLS: bls symBLS
  by unfold_locales (simp_all add: symBLS_def)

section \<open>Key generation\<close>

lemma GenerateKeys_length:
  "fst (GenerateKeys B rand rng n) = Inr (pubs, privs) \<Longrightarrow>
    length pubs = n \<and> length privs = n \<and> pubs = map (bls_PublicKeyFromSecretKey B) privs"
proof (induction n arbitrary: rng pubs privs)
  case (Suc n)
  then show ?case
    by (auto simp: GenerateKey_def split: prod.splits sum.splits) (metis fst_conv)+
qed simp

end
