(* ===== verification/Collectors.thy ===== *)
theory Collectors
  imports Encoding Crypto
begin

text \<open>
  The two quorum collectors of \<^verbatim>\<open>utils.go\<close>: \<^verbatim>\<open>Timeouts\<close> gathers new-view signatures for
  a view, \<^verbatim>\<open>Votes\<close> gathers votes for a block. A Go map used as a set is a finite set, and
  \<^verbatim>\<open>Cert\<close> is nil until collection starts. Both keep the contract of the locale
  \<open>collector\<close>, whose lemmas say that a collector reports a quorum only with a certificate
  that \<^verbatim>\<open>VerifyAggregated\<close> accepts and that many different voters signed.
\<close>

section \<open>Timeouts\<close>

record Timeouts =
  t_view :: uint64
  t_majority :: nat
  t_received :: "uint64 fset"
  t_Cert :: "TimeoutCertificate option"

definition NewTimeouts :: "nat \<Rightarrow> Timeouts" where
  "NewTimeouts majority = \<lparr>t_view = 0, t_majority = majority, t_received = {||}, t_Cert = None\<rparr>"

definition Timeouts_Start :: "Timeouts \<Rightarrow> uint64 \<Rightarrow> Timeouts result" where
  "Timeouts_Start t v =
     (if t_view t \<noteq> 0 then Inl (PanicMsg ''timeouts must be reset before starting collection for another view'')
      else Inr (t\<lparr>t_view := v,
                  t_Cert := Some \<lparr>TimeoutCertificate_View = v,
                                  TimeoutCertificate_Sig = Some AggregatedSignature_zero\<rparr>\<rparr>))"

definition Timeouts_Reset :: "Timeouts \<Rightarrow> Timeouts" where
  "Timeouts_Reset t = t\<lparr>t_view := 0, t_received := {||}, t_Cert := None\<rparr>"

definition Timeouts_Collect :: "hash \<Rightarrow> Verifier \<Rightarrow> Timeouts \<Rightarrow> NewView \<Rightarrow> (bool \<times> Timeouts) result" where
  "Timeouts_Collect H V t nview =
     (if t_view t = 0 then Inr (False, t)
      else if t_view t \<noteq> NewView_View nview then Inr (False, t)
      else if NewView_Voter nview |\<in>| t_received t then Inr (False, t)
      else if \<not> v_Verify V (NewView_Voter nview) (HashSum H (EncodeUint64 (NewView_View nview))) (NewView_Sig nview)
        then Inr (False, t)
      else
        let received = finsert (NewView_Voter nview) (t_received t)
        in rbind (deref (t_Cert t)) (\<lambda>cert.
           rbind (deref (TimeoutCertificate_Sig cert)) (\<lambda>sg.
             let t' = t\<lparr>t_received := received,
                        t_Cert := Some (cert\<lparr>TimeoutCertificate_Sig :=
                          Some (v_Merge V sg (NewView_Voter nview) (NewView_Sig nview))\<rparr>)\<rparr>
             in Inr (t_majority t \<le> fcard received, t'))))"

section \<open>Votes\<close>

record Votes =
  vt_majority :: nat
  vt_votes :: "uint64 fset"
  vt_Cert :: "Certificate option"
  vt_Header :: "Header option"

definition NewVotes :: "nat \<Rightarrow> Votes" where
  "NewVotes majority = \<lparr>vt_majority = majority, vt_votes = {||}, vt_Cert = None, vt_Header = None\<rparr>"

definition Votes_Start :: "hash \<Rightarrow> Votes \<Rightarrow> Header \<Rightarrow> Votes" where
  "Votes_Start H v header =
     v\<lparr>vt_Cert := Some \<lparr>Certificate_Block = Header_Hash H header,
                        Certificate_Sig = Some AggregatedSignature_zero\<rparr>,
       vt_Header := Some header\<rparr>"

definition Votes_Reset :: "Votes \<Rightarrow> Votes" where
  "Votes_Reset v = v\<lparr>vt_votes := {||}, vt_Cert := None, vt_Header := None\<rparr>"

definition Votes_Collect :: "Verifier \<Rightarrow> Votes \<Rightarrow> Vote \<Rightarrow> (bool \<times> Votes) result" where
  "Votes_Collect V v vote =
     (case vt_Cert v of
        None \<Rightarrow> Inr (False, v)
      | Some cert \<Rightarrow>
          if Certificate_Block cert \<noteq> Vote_Block vote then Inr (False, v)
          else if Vote_Voter vote |\<in>| vt_votes v then Inr (False, v)
          else if \<not> v_Verify V (Vote_Voter vote) (Certificate_Block cert) (Vote_Sig vote) then Inr (False, v)
          else
            let votes = finsert (Vote_Voter vote) (vt_votes v)
            in rbind (deref (Certificate_Sig cert)) (\<lambda>sg.
                 let v' = v\<lparr>vt_votes := votes,
                            vt_Cert := Some (cert\<lparr>Certificate_Sig :=
                              Some (v_Merge V sg (Vote_Voter vote) (Vote_Sig vote))\<rparr>)\<rparr>
                 in Inr (vt_majority v \<le> fcard votes, v')))"

section \<open>The contract of a collector\<close>

text \<open>
  \<open>topic c\<close> is the message collected signatures must sign, \<open>agg c\<close> the aggregate being
  built. A call of \<open>collect\<close> either changes nothing and reports no quorum, or accepts a
  verified signature of a new voter and reports whether the quorum is reached.
\<close>

locale collector = verifier V majority good
  for V :: Verifier and majority :: nat and good +
  fixes voters :: "'c \<Rightarrow> uint64 fset" and agg :: "'c \<Rightarrow> AggregatedSignature option"
    and topic :: "'c \<Rightarrow> bytes" and need :: "'c \<Rightarrow> nat"
    and voterOf :: "'m \<Rightarrow> uint64" and sigOf :: "'m \<Rightarrow> bytes"
    and collect :: "'c \<Rightarrow> 'm \<Rightarrow> (bool \<times> 'c) result"
  assumes collect_cases: "collect c m = Inr (b, c') \<Longrightarrow>
      c' = c \<and> \<not> b \<or>
      (\<exists>a. agg c = Some a \<and> voterOf m |\<notin>| voters c \<and> v_Verify V (voterOf m) (topic c) (sigOf m) \<and>
         voters c' = finsert (voterOf m) (voters c) \<and> agg c' = Some (v_Merge V a (voterOf m) (sigOf m)) \<and>
         topic c' = topic c \<and> need c' = need c \<and> b = (need c \<le> fcard (voters c')))"
begin

definition collecting :: "'c \<Rightarrow> bool" where
  "collecting c \<longleftrightarrow> need c = majority \<and>
     (\<forall>a. agg c = Some a \<longrightarrow> good (topic c) a \<and> distinct (AggregatedSignature_Voters a) \<and>
        set (AggregatedSignature_Voters a) = fset (voters c))"

lemma collecting_fresh: "need c = majority \<Longrightarrow> voters c = {||} \<Longrightarrow>
    agg c = None \<or> agg c = Some AggregatedSignature_zero \<Longrightarrow> collecting c"
  by (auto simp: collecting_def good_zero AggregatedSignature_zero_def) (simp add: good_zero flip: AggregatedSignature_zero_def)

lemma collect_collecting:
  assumes "collecting c" and "collect c m = Inr (b, c')"
  shows "collecting c'"
proof (cases "c' = c")
  case True
  with assms(1) show ?thesis by simp
next
  case False
  then obtain a where a: "agg c = Some a" and new: "voterOf m |\<notin>| voters c"
    and ver: "v_Verify V (voterOf m) (topic c) (sigOf m)"
    and c': "voters c' = finsert (voterOf m) (voters c)" "agg c' = Some (v_Merge V a (voterOf m) (sigOf m))"
      "topic c' = topic c" "need c' = need c"
    using collect_cases [OF assms(2)] by blast
  have good: "good (topic c) a" and set: "set (AggregatedSignature_Voters a) = fset (voters c)"
    and dist: "distinct (AggregatedSignature_Voters a)" and need: "need c = majority"
    using assms(1) a by (auto simp: collecting_def)
  have fresh: "voterOf m \<notin> set (AggregatedSignature_Voters a)" using new set by simp
  have vs: "AggregatedSignature_Voters (v_Merge V a (voterOf m) (sigOf m)) =
      AggregatedSignature_Voters a @ [voterOf m]"
    by (rule voters_merge [OF good ver fresh])
  show ?thesis
    using c' need good_merge [OF good ver fresh] vs set dist fresh by (simp add: collecting_def)
qed

lemma quorum_certified:
  assumes "collecting c" and "collect c m = Inr (True, c')"
  shows "\<exists>a. agg c' = Some a \<and> v_VerifyAggregated V (topic c') a \<and>
    distinct (AggregatedSignature_Voters a) \<and> majority \<le> length (AggregatedSignature_Voters a)"
proof -
  have coll: "collecting c'" using assms by (rule collect_collecting)
  obtain a where a: "agg c' = Some a" and q: "need c \<le> fcard (voters c')" and n: "need c' = need c"
    using collect_cases [OF assms(2)] by blast
  then have good: "good (topic c') a" and dist: "distinct (AggregatedSignature_Voters a)"
    and set: "set (AggregatedSignature_Voters a) = fset (voters c')" and need: "need c' = majority"
    using coll by (auto simp: collecting_def)
  have "length (AggregatedSignature_Voters a) = fcard (voters c')"
    using dist set distinct_card [of "AggregatedSignature_Voters a"] by (simp add: fcard.rep_eq)
  with q n need have "majority \<le> length (AggregatedSignature_Voters a)" by simp
  with a dist good_verifies [OF good] show ?thesis by blast
qed

end

text \<open>Both collectors implement it, whatever the verifier.\<close>

definition Votes_agg :: "Votes \<Rightarrow> AggregatedSignature option" where
  "Votes_agg v = Option.bind (vt_Cert v) Certificate_Sig"

definition Votes_topic :: "Votes \<Rightarrow> bytes" where
  "Votes_topic v = (case vt_Cert v of None \<Rightarrow> [] | Some c \<Rightarrow> Certificate_Block c)"

definition Timeouts_agg :: "Timeouts \<Rightarrow> AggregatedSignature option" where
  "Timeouts_agg t = Option.bind (t_Cert t) TimeoutCertificate_Sig"

definition Timeouts_topic :: "hash \<Rightarrow> Timeouts \<Rightarrow> bytes" where
  "Timeouts_topic H t = HashSum H (EncodeUint64 (t_view t))"

sublocale verifier \<subseteq> votes: collector V majority good
  vt_votes Votes_agg Votes_topic vt_majority Vote_Voter Vote_Sig "Votes_Collect V"
  by unfold_locales
    (auto simp: Votes_Collect_def Votes_agg_def Votes_topic_def Let_def rbind_Inr_iff
      split: option.splits if_splits)

sublocale verifier \<subseteq> timeouts: collector V majority good
  t_received Timeouts_agg "Timeouts_topic H" t_majority NewView_Voter NewView_Sig "Timeouts_Collect H V"
  for H
  by unfold_locales
    (auto simp: Timeouts_Collect_def Timeouts_agg_def Timeouts_topic_def Let_def rbind_Inr_iff
      split: option.splits if_splits)

end
