(* ===== verification/Progress.thy ===== *)
theory Progress
  imports Types
begin

text \<open>
  \<^verbatim>\<open>progress.go\<close>: what the consensus module hands to its environment. A nil recipient
  list, the result of a variadic call without recipients, is a broadcast.
\<close>

record MsgTo =
  Recipients :: "uint64 list option"
  MsgTo_Message :: Message

definition MsgTo_Broadcast :: "MsgTo \<Rightarrow> bool" where
  "MsgTo_Broadcast m \<longleftrightarrow> Recipients m = None"

record BlockRef =
  BlockRef_Hash :: bytes
  BlockRef_View :: uint64

record BlockEvent =
  BlockEvent_Header :: Header
  BlockEvent_Finalized :: bool

record Progress =
  Messages :: "MsgTo list"
  Events :: "BlockEvent list"
  NotFound :: "BlockRef list"
  Progress_WaitingData :: bool

definition Progress_zero :: Progress where
  "Progress_zero = \<lparr>Messages = [], Events = [], NotFound = [], Progress_WaitingData = False\<rparr>"

definition Progress_Empty :: "Progress \<Rightarrow> bool" where
  "Progress_Empty p \<longleftrightarrow> length (Messages p) = 0 \<and> length (Events p) = 0 \<and> \<not> Progress_WaitingData p"

definition AddMessage :: "Progress \<Rightarrow> Message \<Rightarrow> uint64 list option \<Rightarrow> Progress" where
  "AddMessage p msg recipients =
     p\<lparr>Messages := Messages p @ [\<lparr>Recipients = recipients, MsgTo_Message = msg\<rparr>]\<rparr>"

definition AddHeader :: "Progress \<Rightarrow> Header \<Rightarrow> bool \<Rightarrow> Progress" where
  "AddHeader p header finalized =
     p\<lparr>Events := Events p @ [\<lparr>BlockEvent_Header = header, BlockEvent_Finalized = finalized\<rparr>]\<rparr>"

definition AddNotFound :: "Progress \<Rightarrow> uint64 \<Rightarrow> bytes \<Rightarrow> Progress" where
  "AddNotFound p v hash = p\<lparr>NotFound := NotFound p @ [\<lparr>BlockRef_Hash = hash, BlockRef_View = v\<rparr>]\<rparr>"

text \<open>\<^verbatim>\<open>Reset\<close> leaves \<^verbatim>\<open>NotFound\<close> as it is.\<close>

definition Progress_Reset :: "Progress \<Rightarrow> Progress" where
  "Progress_Reset p = p\<lparr>Progress_WaitingData := False, Messages := [], Events := []\<rparr>"

definition NewVoteMsg :: "Vote \<Rightarrow> Message" where
  "NewVoteMsg vote = \<lparr>Message_Type = Some (Message_Vote (Some vote))\<rparr>"

definition NewProposalMsg :: "Proposal \<Rightarrow> Message" where
  "NewProposalMsg proposal = \<lparr>Message_Type = Some (Message_Proposal (Some proposal))\<rparr>"

definition NewViewMsg :: "NewView \<Rightarrow> Message" where
  "NewViewMsg newview = \<lparr>Message_Type = Some (Message_Newview (Some newview))\<rparr>"

definition NewSyncMsg :: "Block list \<Rightarrow> Message" where
  "NewSyncMsg blocks = \<lparr>Message_Type = Some (Message_Sync (Some \<lparr>Sync_Blocks = blocks\<rparr>))\<rparr>"

lemmas msg_defs = NewVoteMsg_def NewProposalMsg_def NewViewMsg_def NewSyncMsg_def

lemmas progress_defs =
  AddMessage_def AddHeader_def AddNotFound_def Progress_Reset_def Progress_zero_def

end
