(* ===== verification/Store.thy ===== *)
theory Store
  imports Encoding
begin

text \<open>
  \<^verbatim>\<open>store.go\<close> and \<^verbatim>\<open>db.go\<close>: the block store over a LevelDB database. LevelDB is a
  library, hence a parameter: the two operations the store uses, with their laws in the
  locale \<open>leveldb\<close>. The abstraction \<open>absStore\<close> is what a client sees of a database
  (headers, certificates, data by hash; tags; the two views), and every writing operation
  of the store is shown to be one update of it.
\<close>

section \<open>The database\<close>

record 'db Env =
  ldb_Get :: "'db \<Rightarrow> bytes \<Rightarrow> string + bytes"
  ldb_Put :: "'db \<Rightarrow> bytes \<Rightarrow> bytes \<Rightarrow> string + 'db"
  blake2s :: hash

datatype storeErr = DBErr string | DecodeErr werr

section \<open>Keys\<close>

type_synonym Tag = bytes

definition headerBucket :: byte where "headerBucket = 1"
definition dataBucket :: byte where "dataBucket = 2"
definition certBucket :: byte where "certBucket = 3"
definition viewBucket :: byte where "viewBucket = 4"
definition votedBucket :: byte where "votedBucket = 5"

lemmas bucket_defs = headerBucket_def dataBucket_def certBucket_def viewBucket_def votedBucket_def

definition PrepareTag :: Tag where "PrepareTag = [0x70]"
definition LockedTag :: Tag where "LockedTag = [0x6c]"
definition DecideTag :: Tag where "DecideTag = [0x64]"
definition ExecTag :: Tag where "ExecTag = [0x65]"

lemmas tag_defs = PrepareTag_def LockedTag_def DecideTag_def ExecTag_def

definition partsKey :: "byte \<Rightarrow> bytes \<Rightarrow> bytes" where
  "partsKey part hash = part # hash"

definition headerKey :: "bytes \<Rightarrow> bytes" where "headerKey hash = partsKey headerBucket hash"
definition dataKey :: "bytes \<Rightarrow> bytes" where "dataKey hash = partsKey dataBucket hash"
definition certKey :: "bytes \<Rightarrow> bytes" where "certKey hash = partsKey certBucket hash"

lemmas key_defs = headerKey_def dataKey_def certKey_def partsKey_def

section \<open>Operations\<close>

definition dbGet :: "('db, 'z) Env_scheme \<Rightarrow> 'db \<Rightarrow> bytes \<Rightarrow> storeErr + bytes" where
  "dbGet E s k = (case ldb_Get E s k of Inl e \<Rightarrow> Inl (DBErr e) | Inr v \<Rightarrow> Inr v)"

definition dbPut :: "('db, 'z) Env_scheme \<Rightarrow> 'db \<Rightarrow> bytes \<Rightarrow> bytes \<Rightarrow> storeErr + 'db" where
  "dbPut E s k v = (case ldb_Put E s k v of Inl e \<Rightarrow> Inl (DBErr e) | Inr s' \<Rightarrow> Inr s')"

fun decoded :: "werr + 'a \<Rightarrow> storeErr + 'a" where
  "decoded (Inl e) = Inl (DecodeErr e)"
| "decoded (Inr x) = Inr x"

definition GetHeader :: "('db, 'z) Env_scheme \<Rightarrow> 'db \<Rightarrow> bytes \<Rightarrow> storeErr + Header" where
  "GetHeader E s hash = rbind (dbGet E s (headerKey hash)) (\<lambda>buf. decoded (Header_Unmarshal Header_zero buf))"

definition SaveHeader :: "('db, 'z) Env_scheme \<Rightarrow> 'db \<Rightarrow> Header \<Rightarrow> storeErr + 'db" where
  "SaveHeader E s header =
     dbPut E s (headerKey (Header_Hash (blake2s E) header)) (Header_Marshal header)"

definition GetCertificate :: "('db, 'z) Env_scheme \<Rightarrow> 'db \<Rightarrow> bytes \<Rightarrow> storeErr + Certificate" where
  "GetCertificate E s hash =
     rbind (dbGet E s (certKey hash)) (\<lambda>buf. decoded (Certificate_Unmarshal Certificate_zero buf))"

definition SaveCertificate :: "('db, 'z) Env_scheme \<Rightarrow> 'db \<Rightarrow> Certificate \<Rightarrow> storeErr + 'db" where
  "SaveCertificate E s cert = dbPut E s (certKey (Certificate_Block cert)) (Certificate_Marshal cert)"

definition SaveData :: "('db, 'z) Env_scheme \<Rightarrow> 'db \<Rightarrow> bytes \<Rightarrow> Data \<Rightarrow> storeErr + 'db" where
  "SaveData E s hash data = dbPut E s (dataKey hash) (Data_Marshal data)"

definition GetData :: "('db, 'z) Env_scheme \<Rightarrow> 'db \<Rightarrow> bytes \<Rightarrow> storeErr + Data" where
  "GetData E s hash = rbind (dbGet E s (dataKey hash)) (\<lambda>buf. decoded (Data_Unmarshal Data_zero buf))"

definition SetTag :: "('db, 'z) Env_scheme \<Rightarrow> 'db \<Rightarrow> Tag \<Rightarrow> bytes \<Rightarrow> storeErr + 'db" where
  "SetTag E s tag hash = dbPut E s tag hash"

definition GetTag :: "('db, 'z) Env_scheme \<Rightarrow> 'db \<Rightarrow> Tag \<Rightarrow> storeErr + bytes" where
  "GetTag E s tag = dbGet E s tag"

definition GetTagHeader :: "('db, 'z) Env_scheme \<Rightarrow> 'db \<Rightarrow> Tag \<Rightarrow> storeErr + Header" where
  "GetTagHeader E s tag = rbind (GetTag E s tag) (GetHeader E s)"

definition GetTagCert :: "('db, 'z) Env_scheme \<Rightarrow> 'db \<Rightarrow> Tag \<Rightarrow> storeErr + Certificate" where
  "GetTagCert E s tag = rbind (GetTag E s tag) (GetCertificate E s)"

definition SaveView :: "('db, 'z) Env_scheme \<Rightarrow> 'db \<Rightarrow> uint64 \<Rightarrow> storeErr + 'db" where
  "SaveView E s v = dbPut E s [viewBucket] (EncodeUint64 v)"

text \<open>A stored value of fewer than eight bytes makes \<^verbatim>\<open>DecodeUint64\<close> panic.\<close>

definition GetView :: "('db, 'z) Env_scheme \<Rightarrow> 'db \<Rightarrow> (storeErr + uint64) result" where
  "GetView E s = (case dbGet E s [viewBucket] of
     Inl e \<Rightarrow> Inr (Inl e) | Inr buf \<Rightarrow> rbind (DecodeUint64 buf) (\<lambda>v. Inr (Inr v)))"

definition SaveVoted :: "('db, 'z) Env_scheme \<Rightarrow> 'db \<Rightarrow> uint64 \<Rightarrow> storeErr + 'db" where
  "SaveVoted E s v = dbPut E s [votedBucket] (EncodeUint64 v)"

definition GetVoted :: "('db, 'z) Env_scheme \<Rightarrow> 'db \<Rightarrow> (storeErr + uint64) result" where
  "GetVoted E s = (case dbGet E s [votedBucket] of
     Inl e \<Rightarrow> Inr (Inl e) | Inr buf \<Rightarrow> rbind (DecodeUint64 buf) (\<lambda>v. Inr (Inr v)))"

text \<open>
  \<^verbatim>\<open>SaveBlock\<close>: header, certificate, data, in this order; a nil part panics when its
  \<^verbatim>\<open>Marshal\<close> reads a field.
\<close>

definition SaveBlock :: "('db, 'z) Env_scheme \<Rightarrow> 'db \<Rightarrow> Block \<Rightarrow> (storeErr + 'db) result" where
  "SaveBlock E s block =
     rbind (deref (Block_Header block)) (\<lambda>header.
     ebind (Inr (SaveHeader E s header)) (\<lambda>s1.
     rbind (deref (Block_Cert block)) (\<lambda>cert.
     ebind (Inr (SaveCertificate E s1 cert)) (\<lambda>s2.
     rbind (deref (Block_Data block)) (\<lambda>data.
     Inr (SaveData E s2 (Header_Hash (blake2s E) header) data))))))"

definition GetBlock :: "('db, 'z) Env_scheme \<Rightarrow> 'db \<Rightarrow> bytes \<Rightarrow> storeErr + Block" where
  "GetBlock E s hash =
     rbind (GetHeader E s hash) (\<lambda>header.
     rbind (GetCertificate E s hash) (\<lambda>cert.
     rbind (GetData E s hash) (\<lambda>data.
     Inr \<lparr>Block_Header = Some header, Block_Data = Some data, Block_Cert = Some cert\<rparr>)))"


section \<open>What a client sees of a database\<close>

record absStore =
  a_headers :: "bytes \<Rightarrow> Header option"
  a_certs :: "bytes \<Rightarrow> Certificate option"
  a_data :: "bytes \<Rightarrow> Data option"
  a_tags :: "Tag \<Rightarrow> bytes option"
  a_view :: "uint64 option"
  a_voted :: "uint64 option"

fun ok :: "'e + 'a \<Rightarrow> 'a option" where
  "ok (Inl e) = None"
| "ok (Inr x) = Some x"

definition okNum :: "(storeErr + uint64) result \<Rightarrow> uint64 option" where
  "okNum r = (case r of Inr (Inr v) \<Rightarrow> Some v | _ \<Rightarrow> None)"

definition storeTags :: "Tag list" where
  "storeTags = [PrepareTag, LockedTag, DecideTag, ExecTag]"

definition absOf :: "('db, 'z) Env_scheme \<Rightarrow> 'db \<Rightarrow> absStore" where
  "absOf E s =
     \<lparr>a_headers = (\<lambda>h. ok (GetHeader E s h)),
      a_certs = (\<lambda>h. ok (GetCertificate E s h)),
      a_data = (\<lambda>h. ok (GetData E s h)),
      a_tags = (\<lambda>t. if t \<in> set storeTags then ok (GetTag E s t) else None),
      a_view = okNum (GetView E s),
      a_voted = okNum (GetVoted E s)\<rparr>"

lemma ok_Some_iff [simp]: "ok r = Some x \<longleftrightarrow> r = Inr x"
  by (cases r) simp_all

lemma GetHeader_abs: "GetHeader E s h = Inr x \<longleftrightarrow> a_headers (absOf E s) h = Some x"
  by (simp add: absOf_def)

lemma GetCertificate_abs: "GetCertificate E s h = Inr x \<longleftrightarrow> a_certs (absOf E s) h = Some x"
  by (simp add: absOf_def)

text \<open>The part of a database that blocks are read from.\<close>

definition blocksOf :: "('db, 'z) Env_scheme \<Rightarrow> 'db \<Rightarrow> _" where
  "blocksOf E s = (a_headers (absOf E s), a_certs (absOf E s), a_data (absOf E s))"

lemma GetBlock_Inr_iff:
  "GetBlock E s k = Inr b \<longleftrightarrow> (\<exists>h c d. a_headers (absOf E s) k = Some h \<and> a_certs (absOf E s) k = Some c \<and>
     a_data (absOf E s) k = Some d \<and> b = \<lparr>Block_Header = Some h, Block_Data = Some d, Block_Cert = Some c\<rparr>)"
  by (auto simp: GetBlock_def rbind_Inr_iff absOf_def)

lemma GetBlock_cong: "blocksOf E s = blocksOf E s' \<Longrightarrow> GetBlock E s k = Inr b \<Longrightarrow> GetBlock E s' k = Inr b"
  by (simp add: GetBlock_Inr_iff blocksOf_def)

lemma GetTagHeader_Inr_iff:
  "GetTagHeader E s t = Inr x \<longleftrightarrow> (\<exists>h. GetTag E s t = Inr h \<and> GetHeader E s h = Inr x)"
  by (simp add: GetTagHeader_def rbind_Inr_iff)

lemma GetTagCert_Inr_iff:
  "GetTagCert E s t = Inr x \<longleftrightarrow> (\<exists>h. GetTag E s t = Inr h \<and> GetCertificate E s h = Inr x)"
  by (simp add: GetTagCert_def rbind_Inr_iff)

text \<open>The encodings the store writes are the bytes the messages produce.\<close>

lemma Certificate_Marshal_written [simp]:
  "Certificate_Marshal c = Certificate_MarshalToSizedBuffer c"
  by (simp add: Certificate_Marshal_def Certificate_codec.size_exact)

lemma Data_Marshal_written [simp]: "Data_Marshal d = Data_MarshalToSizedBuffer d"
  by (simp add: Data_Marshal_def Data_codec.size_exact)

text \<open>Unfolds every read of a database, and the keys it reads at.\<close>

lemmas store_reads =
  absOf_def GetHeader_def GetCertificate_def GetData_def GetTag_def GetView_def GetVoted_def
  key_defs bucket_defs storeTags_def tag_defs okNum_def fun_eq_iff

section \<open>The database contract and what the store makes of it\<close>

text \<open>
  LevelDB as documented: after a successful \<^verbatim>\<open>Put\<close> the key reads as the value written
  and every other key as before. A \<^verbatim>\<open>Put\<close> may fail.
\<close>

locale leveldb =
  fixes E :: "('db, 'z) Env_scheme"
  assumes get_put: "ldb_Put E s k v = Inr s' \<Longrightarrow> ldb_Get E s' k = Inr v"
    and get_put_other: "ldb_Put E s k v = Inr s' \<Longrightarrow> k' \<noteq> k \<Longrightarrow> ldb_Get E s' k' = ldb_Get E s k'"
begin

lemma dbGet_dbPut: "dbPut E s k v = Inr s' \<Longrightarrow> dbGet E s' k' = (if k' = k then Inr v else dbGet E s k')"
  by (cases "k' = k") (auto simp: dbPut_def dbGet_def get_put get_put_other split: sum.splits)

lemma SaveHeader_abs:
  assumes "SaveHeader E s h = Inr s'" and "Header_Size h < 2 ^ 63"
  shows "absOf E s' = (absOf E s)\<lparr>a_headers := (a_headers (absOf E s))(Header_Hash (blake2s E) h := Some h)\<rparr>"
proof -
  have read: "Header_Unmarshal Header_zero (Header_Marshal h) = Inr h"
    using assms(2) by (simp add: Header_Unmarshal_def Header_codec.read_back)
  have get: "dbGet E s' k =
      (if k = headerKey (Header_Hash (blake2s E) h) then Inr (Header_Marshal h) else dbGet E s k)" for k
    using assms(1) unfolding SaveHeader_def by (rule dbGet_dbPut)
  show ?thesis
    using read
    by (auto simp: store_reads get)
qed

lemma SaveCertificate_abs:
  assumes "SaveCertificate E s c = Inr s'" and "Certificate_Size c < 2 ^ 63" and "Certificate_wf c"
  shows "absOf E s' = (absOf E s)\<lparr>a_certs := (a_certs (absOf E s))(Certificate_Block c := Some c)\<rparr>"
proof -
  have read: "Certificate_Unmarshal Certificate_zero (Certificate_Marshal c) = Inr c"
    using assms(2,3) by (simp add: Certificate_Unmarshal_def Certificate_codec.read_back)
  have get: "dbGet E s' k =
      (if k = certKey (Certificate_Block c) then Inr (Certificate_Marshal c) else dbGet E s k)" for k
    using assms(1) unfolding SaveCertificate_def by (rule dbGet_dbPut)
  show ?thesis
    using read
    by (auto simp: store_reads get)
qed

lemma SaveData_abs:
  assumes "SaveData E s hash d = Inr s'" and "Data_Size d < 2 ^ 63"
  shows "absOf E s' = (absOf E s)\<lparr>a_data := (a_data (absOf E s))(hash := Some d)\<rparr>"
proof -
  have read: "Data_Unmarshal Data_zero (Data_Marshal d) = Inr d"
    using assms(2) by (simp add: Data_Unmarshal_def Data_codec.read_back)
  have get: "dbGet E s' k = (if k = dataKey hash then Inr (Data_Marshal d) else dbGet E s k)" for k
    using assms(1) unfolding SaveData_def by (rule dbGet_dbPut)
  show ?thesis
    using read
    by (auto simp: store_reads get)
qed

lemma SetTag_abs:
  assumes "SetTag E s t hash = Inr s'" and "t \<in> set storeTags"
  shows "absOf E s' = (absOf E s)\<lparr>a_tags := (a_tags (absOf E s))(t := Some hash)\<rparr>"
proof -
  have get: "dbGet E s' k = (if k = t then Inr hash else dbGet E s k)" for k
    using assms(1) unfolding SetTag_def by (rule dbGet_dbPut)
  show ?thesis
    using assms(2)
    by (auto simp: store_reads get)
qed

lemma SaveView_abs:
  assumes "SaveView E s v = Inr s'"
  shows "absOf E s' = (absOf E s)\<lparr>a_view := Some v\<rparr>"
proof -
  have get: "dbGet E s' k = (if k = [viewBucket] then Inr (EncodeUint64 v) else dbGet E s k)" for k
    using assms unfolding SaveView_def by (rule dbGet_dbPut)
  show ?thesis
    using DecodeUint64_EncodeUint64 [of v "[]"]
    by (auto simp: store_reads get)
qed

lemma SaveVoted_abs:
  assumes "SaveVoted E s v = Inr s'"
  shows "absOf E s' = (absOf E s)\<lparr>a_voted := Some v\<rparr>"
proof -
  have get: "dbGet E s' k = (if k = [votedBucket] then Inr (EncodeUint64 v) else dbGet E s k)" for k
    using assms unfolding SaveVoted_def by (rule dbGet_dbPut)
  show ?thesis
    using DecodeUint64_EncodeUint64 [of v "[]"]
    by (auto simp: store_reads get)
qed

text \<open>Whatever their size, data and certificates change nothing else.\<close>

lemma SaveData_frame:
  assumes "SaveData E s hash d = Inr s'"
  shows "absOf E s' = (absOf E s)\<lparr>a_data := a_data (absOf E s')\<rparr>"
proof -
  have get: "dbGet E s' k = (if k = dataKey hash then Inr (Data_Marshal d) else dbGet E s k)" for k
    using assms unfolding SaveData_def by (rule dbGet_dbPut)
  show ?thesis by (auto simp: store_reads get)
qed

lemma SaveCertificate_frame:
  assumes "SaveCertificate E s c = Inr s'"
  shows "absOf E s' = (absOf E s)\<lparr>a_certs := a_certs (absOf E s')\<rparr>"
proof -
  have get: "dbGet E s' k =
      (if k = certKey (Certificate_Block c) then Inr (Certificate_Marshal c) else dbGet E s k)" for k
    using assms unfolding SaveCertificate_def by (rule dbGet_dbPut)
  show ?thesis by (auto simp: store_reads get)
qed

lemma GetBlock_SaveBlock:
  assumes "SaveBlock E s b = Inr (Inr s')"
    and "Block_Header b = Some h" "Block_Cert b = Some cert" "Block_Data b = Some data"
    and "Header_Size h < 2 ^ 63" "Certificate_Size cert < 2 ^ 63" "Certificate_wf cert" "Data_Size data < 2 ^ 63"
    and "Certificate_Block cert = Header_Hash (blake2s E) h"
  shows "GetBlock E s' (Header_Hash (blake2s E) h) = Inr b"
proof -
  obtain s1 s2 where s1: "SaveHeader E s h = Inr s1" and s2: "SaveCertificate E s1 cert = Inr s2"
    and s': "SaveData E s2 (Header_Hash (blake2s E) h) data = Inr s'"
    using assms(1-4) by (auto simp: SaveBlock_def ebind_Inr_Inr_iff)
  note abs = SaveData_abs [OF s' assms(8)] SaveCertificate_abs [OF s2 assms(6,7)] SaveHeader_abs [OF s1 assms(5)]
  have "a_headers (absOf E s') (Header_Hash (blake2s E) h) = Some h"
    "a_certs (absOf E s') (Header_Hash (blake2s E) h) = Some cert"
    "a_data (absOf E s') (Header_Hash (blake2s E) h) = Some data"
    using assms(9) by (simp_all add: abs)
  then show ?thesis using assms(2-4) by (simp add: GetBlock_def absOf_def)
qed

lemmas save_abs =
  SaveHeader_abs SaveCertificate_abs SaveData_abs SetTag_abs SaveView_abs SaveVoted_abs

end

text \<open>
  An instance of the contract: a database in memory whose writes never fail, for every hash
  function. \<open>memDB\<close> is the empty database.
\<close>

definition memEnv :: "hash \<Rightarrow> (bytes \<Rightarrow> bytes option) Env" where
  "memEnv H =
     \<lparr>ldb_Get = (\<lambda>s k. case s k of None \<Rightarrow> Inl ''leveldb: not found'' | Some v \<Rightarrow> Inr v),
      ldb_Put = (\<lambda>s k v. Inr (s(k := Some v))),
      blake2s = H\<rparr>"

definition memDB :: "bytes \<Rightarrow> bytes option" where
  "memDB = (\<lambda>_. None)"

interpretation memdb: leveldb "memEnv H" for H
  by unfold_locales (auto simp: memEnv_def)


section \<open>Iterating over a chain\<close>

record 'db ChainIterator =
  ci_store :: 'db
  ci_err :: "storeErr option"
  ci_header :: "Header option"
  ci_certificate :: "Certificate option"
  ci_data :: "Data option"

fun errOf :: "'e + 'a \<Rightarrow> 'e option" where
  "errOf (Inl e) = Some e"
| "errOf (Inr x) = None"

definition NewChainIterator :: "'db \<Rightarrow> 'db ChainIterator" where
  "NewChainIterator s =
     \<lparr>ci_store = s, ci_err = None, ci_header = None, ci_certificate = None, ci_data = None\<rparr>"

definition NewChainIteratorFrom :: "'db \<Rightarrow> Header option \<Rightarrow> 'db ChainIterator" where
  "NewChainIteratorFrom s from = (NewChainIterator s)\<lparr>ci_header := from\<rparr>"

definition NewChainIteratorFromLatest :: "('db, 'z) Env_scheme \<Rightarrow> 'db \<Rightarrow> storeErr + 'db ChainIterator" where
  "NewChainIteratorFromLatest E s =
     rbind (GetTagHeader E s PrepareTag) (\<lambda>h. Inr (NewChainIteratorFrom s (Some h)))"

definition ci_Valid :: "'db ChainIterator \<Rightarrow> bool" where
  "ci_Valid ci \<longleftrightarrow> ci_err ci = None"

definition ci_Err :: "'db ChainIterator \<Rightarrow> storeErr option" where
  "ci_Err ci = ci_err ci"

definition ci_Header :: "'db ChainIterator \<Rightarrow> Header option" where
  "ci_Header ci = ci_header ci"

definition ci_Next :: "('db, 'z) Env_scheme \<Rightarrow> 'db ChainIterator \<Rightarrow> 'db ChainIterator" where
  "ci_Next E ci =
     (let r = (case ci_header ci of
                 None \<Rightarrow> GetTagHeader E (ci_store ci) DecideTag
               | Some h \<Rightarrow> GetHeader E (ci_store ci) (Header_Parent h))
      in ci\<lparr>ci_certificate := None, ci_data := None, ci_header := ok r, ci_err := errOf r\<rparr>)"

text \<open>Reading the certificate or the data of no header panics in \<^verbatim>\<open>Hash\<close>.\<close>

definition ci_Certificate ::
  "('db, 'z) Env_scheme \<Rightarrow> 'db ChainIterator \<Rightarrow> (Certificate option \<times> 'db ChainIterator) result" where
  "ci_Certificate E ci =
     (case ci_certificate ci of
        Some c \<Rightarrow> Inr (Some c, ci)
      | None \<Rightarrow> rbind (deref (ci_header ci)) (\<lambda>h.
          let r = GetCertificate E (ci_store ci) (Header_Hash (blake2s E) h)
          in Inr (ok r, ci\<lparr>ci_certificate := ok r, ci_err := errOf r\<rparr>)))"

definition ci_Data ::
  "('db, 'z) Env_scheme \<Rightarrow> 'db ChainIterator \<Rightarrow> (Data option \<times> 'db ChainIterator) result" where
  "ci_Data E ci =
     (case ci_data ci of
        Some d \<Rightarrow> Inr (Some d, ci)
      | None \<Rightarrow> rbind (deref (ci_header ci)) (\<lambda>h.
          let r = GetData E (ci_store ci) (Header_Hash (blake2s E) h)
          in Inr (ok r, ci\<lparr>ci_data := ok r, ci_err := errOf r\<rparr>)))"

end
