(* ===== verification/Genesis.thy ===== *)
theory Genesis
  imports Store
begin

text \<open>
  \<^verbatim>\<open>ImportGenesis\<close> of \<^verbatim>\<open>utils.go\<close>: a store that does not know the genesis block gets
  the block, the view after it, its view as the last voted one, and all three tags.
\<close>

definition ImportGenesis :: "('db, 'z) Env_scheme \<Rightarrow> 'db \<Rightarrow> Block \<Rightarrow> (storeErr + 'db) result" where
  "ImportGenesis E s genesis =
     rbind (deref (Block_Header genesis)) (\<lambda>header.
     let hash = Header_Hash (blake2s E) header
     in case GetHeader E s hash of
          Inr exist \<Rightarrow> Inr (Inr s)
        | Inl err \<Rightarrow>
            ebind (Inr (SaveHeader E s header)) (\<lambda>s.
            rbind (deref (Block_Cert genesis)) (\<lambda>cert.
            ebind (Inr (SaveCertificate E s cert)) (\<lambda>s.
            rbind (deref (Block_Data genesis)) (\<lambda>data.
            ebind (Inr (SaveData E s hash data)) (\<lambda>s.
            ebind (Inr (SaveView E s (Header_View header + 1))) (\<lambda>s.
            ebind (Inr (SaveVoted E s (Header_View header))) (\<lambda>s.
            ebind (Inr (SetTag E s PrepareTag hash)) (\<lambda>s.
            ebind (Inr (SetTag E s LockedTag hash)) (\<lambda>s.
            ebind (Inr (SetTag E s DecideTag hash)) (\<lambda>s. Inr (Inr s))))))))))))"

end
