(* ===== verification/Consensus.thy ===== *)
theory Consensus
  imports Collectors Progress Genesis
begin

text \<open>
  \<^verbatim>\<open>consensus.go\<close>: the replica's state and every method of \<^verbatim>\<open>consensus\<close>, in an order in
  which each is defined before it is used. A method that mutates its receiver returns the
  new state, or the crash that ended it: a Go panic, or \<^verbatim>\<open>logger.Fatal\<close> after a failed
  write. Logging has no effect on the state; the fields it reads are read (a nil header or
  certificate panics there). The signer, the verifier, the database and the hash function
  are fields of the environment \<open>E\<close>.

  The methods are mutually recursive in the source: \<^verbatim>\<open>sendMsg\<close> steps a replica's own
  messages at once. The recursion ends because a vote and a new-view message make no replica
  send anything: their handlers only call \<^verbatim>\<open>nextRound(false)\<close>. The model ties the knot
  accordingly: \<open>nextRoundWith\<close> takes the call of \<^verbatim>\<open>sendNewView\<close> as a parameter, and
  \<open>stepLeaf\<close> handles the messages a handler may send. Below, equations restate each method
  in terms of the full \<open>nextRound\<close> and \<open>Step\<close>, as the source has it.
\<close>

record 'db CEnv = "'db Env" +
  c_signer :: "bytes \<Rightarrow> bytes \<Rightarrow> bytes result"
  c_verifier :: Verifier

record 'db consensus =
  store :: 'db
  ticks :: uint64
  timeout :: uint64
  cid :: uint64
  replicas :: "uint64 list"
  votes :: Votes
  timeouts :: Timeouts
  view :: uint64
  voted :: uint64
  prepare :: Header
  locked :: Header
  commit :: Header
  prepareCert :: Certificate
  timeoutCert :: "TimeoutCertificate option"
  progress :: Progress
  waitingData :: bool

type_synonym ('db, 'z) cenv = "('db, 'z) CEnv_scheme"

abbreviation hashOf :: "('db, 'z) cenv \<Rightarrow> Header \<Rightarrow> bytes" where
  "hashOf E h \<equiv> Header_Hash (blake2s E) h"

section \<open>Construction\<close>

definition majorityOf :: "'a list \<Rightarrow> nat" where
  "majorityOf rs = 2 * length rs div 3 + 1"

definition newConsensus :: "('db, 'z) cenv \<Rightarrow> 'db \<Rightarrow> uint64 \<Rightarrow> uint64 list \<Rightarrow> 'db consensus result" where
  "newConsensus E s i rs =
     rbind (GetView E s) (\<lambda>r. rbind (orFatal r ''failed to load view'') (\<lambda>v.
     rbind (GetVoted E s) (\<lambda>r. rbind (orFatal r ''failed to load voted view'') (\<lambda>vd.
     rbind (orFatal (GetTagHeader E s PrepareTag) ''failed to load prepare header'') (\<lambda>p.
     rbind (orFatal (GetTagHeader E s LockedTag) ''failed to load locked header'') (\<lambda>lk.
     rbind (orFatal (GetTagHeader E s DecideTag) ''failed to load commit header'') (\<lambda>cm.
     rbind (orFatal (GetTagCert E s PrepareTag) ''failed to load prepare certificate'') (\<lambda>pc.
     Inr \<lparr>store = s, ticks = 0, timeout = 0, cid = i, replicas = rs,
          votes = NewVotes (majorityOf rs), timeouts = NewTimeouts (majorityOf rs),
          view = v, voted = vd, prepare = p, locked = lk, commit = cm, prepareCert = pc,
          timeoutCert = None, progress = Progress_zero, waitingData = False\<rparr>))))))))"

section \<open>Leaders and timeouts\<close>

definition getLeader :: "'db consensus \<Rightarrow> uint64 \<Rightarrow> uint64 result" where
  "getLeader c v =
     (if length (replicas c) = 0 then Inl DivideByZero
      else Inr (replicas c ! (unat v mod length (replicas c))))"

text \<open>
  \<^verbatim>\<open>int(1 << (c.view - c.prepare.View))\<close>: the shift distance is an unsigned difference,
  and a distance of 64 or more shifts the bit out.
\<close>

definition newTimeout :: "'db consensus \<Rightarrow> uint64" where
  "newTimeout c = push_bit (unat (view c - Header_View (prepare c))) 1"

definition resetTimeout :: "'db consensus \<Rightarrow> 'db consensus" where
  "resetTimeout c = c\<lparr>ticks := 0, timeout := newTimeout c\<rparr>"

section \<open>Entering a view\<close>

definition enterView :: "'db consensus \<Rightarrow> 'db consensus" where
  "enterView c =
     (let c = resetTimeout c;
          c = c\<lparr>waitingData := False, votes := Votes_Reset (votes c)\<rparr>
      in case timeoutCert c of
           None \<Rightarrow> c
         | Some tc \<Rightarrow> if TimeoutCertificate_View tc < view c - 1 then c\<lparr>timeoutCert := None\<rparr> else c)"

definition leaderTimeouts :: "'db consensus \<Rightarrow> 'db consensus result" where
  "leaderTimeouts c =
     rbind (getLeader c (view c - 1)) (\<lambda>l.
     let c = (if cid c = l then c\<lparr>timeouts := Timeouts_Reset (timeouts c)\<rparr> else c)
     in rbind (getLeader c (view c + 1)) (\<lambda>l.
        if cid c = l then
          rbind (Timeouts_Start (Timeouts_Reset (timeouts c)) (view c)) (\<lambda>t. Inr (c\<lparr>timeouts := t\<rparr>))
        else Inr c))"

definition awaitData :: "'db consensus \<Rightarrow> 'db consensus" where
  "awaitData c = c\<lparr>waitingData := True, progress := (progress c)\<lparr>Progress_WaitingData := True\<rparr>\<rparr>"

definition nextRoundWith ::
  "('db consensus \<Rightarrow> 'db consensus result) \<Rightarrow> bool \<Rightarrow> 'db consensus \<Rightarrow> 'db consensus result" where
  "nextRoundWith sendNV timedout c =
     rbind (leaderTimeouts (enterView c)) (\<lambda>c.
     if timedout \<and> view c - 1 > voted c then sendNV c
     else rbind (getLeader c (view c)) (\<lambda>l. if cid c = l then Inr (awaitData c) else Inr c))"

text \<open>\<^verbatim>\<open>nextRound(false)\<close> never sends.\<close>

definition nextRoundFalse :: "'db consensus \<Rightarrow> 'db consensus result" where
  "nextRoundFalse c = nextRoundWith Inr False c"

section \<open>Certificates, locks and commits\<close>

definition updatePrepare ::
  "('db, 'z) cenv \<Rightarrow> 'db consensus \<Rightarrow> Header \<Rightarrow> Certificate \<Rightarrow> 'db consensus result" where
  "updatePrepare E c header cert =
     (if Header_View header > Header_View (prepare c) then
        rbind (orFatal (SetTag E (store c) PrepareTag (hashOf E header)) ''failed to set prepare tag'') (\<lambda>s.
        Inr (c\<lparr>prepare := header, prepareCert := cert, store := s,
               progress := AddHeader (progress c) header False\<rparr>))
      else Inr c)"

definition updateLocked :: "('db, 'z) cenv \<Rightarrow> 'db consensus \<Rightarrow> Header \<Rightarrow> 'db consensus result" where
  "updateLocked E c gparent =
     (if Header_View gparent > Header_View (locked c) then
        rbind (orFatal (SetTag E (store c) LockedTag (hashOf E gparent)) ''cannot set locked tag'') (\<lambda>s.
        Inr (c\<lparr>locked := gparent, store := s\<rparr>))
      else Inr c)"

definition updateCommit ::
  "('db, 'z) cenv \<Rightarrow> 'db consensus \<Rightarrow> Header \<Rightarrow> Header \<Rightarrow> Header \<Rightarrow> 'db consensus result" where
  "updateCommit E c parent gparent ggparent =
     (if Header_View parent - Header_View gparent = 1 \<and> Header_View gparent - Header_View ggparent = 1 \<and>
         Header_View ggparent > Header_View (commit c) then
        rbind (orFatal (SetTag E (store c) DecideTag (hashOf E ggparent)) ''cannot set decided tag'') (\<lambda>s.
        Inr (c\<lparr>commit := ggparent, store := s, progress := AddHeader (progress c) ggparent True\<rparr>))
      else Inr c)"

definition update :: "('db, 'z) cenv \<Rightarrow> 'db consensus \<Rightarrow> Header \<Rightarrow> 'db consensus result" where
  "update E c parent =
     (case GetHeader E (store c) (Header_Parent parent) of
        Inl err \<Rightarrow> Inr c
      | Inr gparent \<Rightarrow>
          (case GetHeader E (store c) (Header_Parent gparent) of
             Inl err \<Rightarrow> Inr c
           | Inr ggparent \<Rightarrow>
               rbind (updateLocked E c gparent) (\<lambda>c. updateCommit E c parent gparent ggparent)))"

definition jumpToView :: "('db, 'z) cenv \<Rightarrow> 'db consensus \<Rightarrow> uint64 \<Rightarrow> 'db consensus result" where
  "jumpToView E c v =
     rbind (orFatal (SaveView E (store c) v) ''failed to store view'') (\<lambda>s.
     nextRoundFalse (c\<lparr>view := v, store := s\<rparr>))"

definition syncView ::
  "('db, 'z) cenv \<Rightarrow> 'db consensus \<Rightarrow> Header \<Rightarrow> TimeoutCertificate option \<Rightarrow> 'db consensus result" where
  "syncView E c header tcert =
     (case tcert of
        None \<Rightarrow> if Header_View header \<ge> view c then jumpToView E c (Header_View header + 1) else Inr c
      | Some tc \<Rightarrow> if TimeoutCertificate_View tc \<ge> view c then jumpToView E c (TimeoutCertificate_View tc + 1)
                   else Inr c)"

definition safeNode :: "('db, 'z) cenv \<Rightarrow> 'db consensus \<Rightarrow> Header \<Rightarrow> bool" where
  "safeNode E c header =
     (case GetHeader E (store c) (Header_Parent header) of
        Inl err \<Rightarrow> False
      | Inr parent \<Rightarrow>
          if Header_Parent header = hashOf E (locked c) then True
          else if Header_Parent header = hashOf E (prepare c) then True
          else Header_View parent > Header_View (locked c))"

section \<open>Handlers that send nothing\<close>

text \<open>Verifying with a nil signature panics in the verifier.\<close>

definition verifyAggregated :: "('db, 'z) cenv \<Rightarrow> bytes \<Rightarrow> AggregatedSignature option \<Rightarrow> bool result" where
  "verifyAggregated E msg asig = rbind (deref asig) (\<lambda>a. Inr (v_VerifyAggregated (c_verifier E) msg a))"

definition onVote :: "('db, 'z) cenv \<Rightarrow> 'db consensus \<Rightarrow> Vote \<Rightarrow> 'db consensus result" where
  "onVote E c vote =
     rbind (getLeader c (Vote_View vote + 1)) (\<lambda>l.
     if cid c \<noteq> l then Inr c
     else rbind (Votes_Collect (c_verifier E) (votes c) vote) (\<lambda>(quorum, vs).
       let c = c\<lparr>votes := vs\<rparr>
       in if \<not> quorum then Inr c
          else rbind (deref (vt_Cert vs)) (\<lambda>cert.
            rbind (orFatal (SaveCertificate E (store c) cert) ''cannot save new certificate'') (\<lambda>s.
            rbind (deref (vt_Header vs)) (\<lambda>header.
            rbind (updatePrepare E (c\<lparr>store := s\<rparr>) header cert) (\<lambda>c.
            rbind (syncView E c header None) nextRoundFalse))))))"

definition onNewView :: "('db, 'z) cenv \<Rightarrow> 'db consensus \<Rightarrow> NewView \<Rightarrow> 'db consensus result" where
  "onNewView E c msg =
     rbind (getLeader c (NewView_View msg + 1)) (\<lambda>l.
     if cid c \<noteq> l then Inr c
     else rbind (deref (NewView_Cert msg)) (\<lambda>cert.
       case GetHeader E (store c) (Certificate_Block cert) of
         Inl err \<Rightarrow> Inr c
       | Inr header \<Rightarrow>
           rbind (updatePrepare E c header cert) (\<lambda>c.
           rbind (Timeouts_Collect (blake2s E) (c_verifier E) (timeouts c) msg) (\<lambda>(quorum, ts).
           let c = c\<lparr>timeouts := ts\<rparr>
           in if \<not> quorum then Inr c
              else
                let oldView = view c; c = c\<lparr>timeoutCert := t_Cert ts\<rparr>
                in rbind (syncView E c (prepare c) (t_Cert ts)) (\<lambda>c.
                   if oldView = NewView_View msg then nextRoundFalse c else Inr (awaitData c))))))"

definition syncBlock :: "('db, 'z) cenv \<Rightarrow> 'db consensus \<Rightarrow> Block \<Rightarrow> (bool \<times> 'db consensus) result" where
  "syncBlock E c block =
     (case (Block_Header block, Block_Cert block, Block_Data block) of
        (Some header, Some cert, Some data) \<Rightarrow>
          if Header_View header \<le> Header_View (commit c) then Inr (True, c)
          else rbind (verifyAggregated E (hashOf E header) (Certificate_Sig cert)) (\<lambda>valid.
            if \<not> valid then Inr (False, c)
            else rbind (SaveBlock E (store c) block) (\<lambda>r.
              rbind (orFatal r ''cannot save block'') (\<lambda>s.
              rbind (updatePrepare E (c\<lparr>store := s\<rparr>) header cert) (\<lambda>c.
              rbind (update E c header) (\<lambda>c. Inr (True, c))))))
      | _ \<Rightarrow> Inr (False, c))"

fun syncBlocks :: "('db, 'z) cenv \<Rightarrow> 'db consensus \<Rightarrow> Block list \<Rightarrow> 'db consensus result" where
  "syncBlocks E c [] = Inr c"
| "syncBlocks E c (block # blocks) =
     rbind (syncBlock E c block) (\<lambda>(valid, c). if \<not> valid then Inr c else syncBlocks E c blocks)"

definition onSync :: "('db, 'z) cenv \<Rightarrow> 'db consensus \<Rightarrow> Sync \<Rightarrow> 'db consensus result" where
  "onSync E c sync = syncBlocks E c (Sync_Blocks sync)"

section \<open>Sending\<close>

text \<open>
  \<^verbatim>\<open>sendMsg\<close> queues the message and steps it when the replica is a recipient; without
  recipients it is a broadcast, which includes the sender.
\<close>

fun stepOwn :: "('db consensus \<Rightarrow> 'db consensus result) \<Rightarrow> uint64 list \<Rightarrow> 'db consensus \<Rightarrow> 'db consensus result" where
  "stepOwn step [] c = Inr c"
| "stepOwn step (i # is) c = rbind (if cid c = i then step c else Inr c) (stepOwn step is)"

definition sendMsgWith ::
  "(Message \<Rightarrow> 'db consensus \<Rightarrow> 'db consensus result) \<Rightarrow> Message \<Rightarrow> uint64 list option \<Rightarrow> 'db consensus \<Rightarrow> 'db consensus result" where
  "sendMsgWith step msg ids c =
     (let c = c\<lparr>progress := AddMessage (progress c) msg ids\<rparr>
      in case ids of None \<Rightarrow> step msg c | Some is \<Rightarrow> stepOwn (step msg) is c)"

text \<open>A nil payload of the \<^verbatim>\<open>oneof\<close> panics in its handler.\<close>

definition dispatch ::
  "(Proposal \<Rightarrow> 'db consensus \<Rightarrow> 'db consensus result) \<Rightarrow> ('db, 'z) cenv \<Rightarrow> Message \<Rightarrow> 'db consensus \<Rightarrow> 'db consensus result" where
  "dispatch onProp E msg c =
     (case Message_Type msg of
        None \<Rightarrow> Inr c
      | Some (Message_Proposal p) \<Rightarrow> rbind (deref p) (\<lambda>m. onProp m c)
      | Some (Message_Vote p) \<Rightarrow> rbind (deref p) (onVote E c)
      | Some (Message_Newview p) \<Rightarrow> rbind (deref p) (onNewView E c)
      | Some (Message_Sync p) \<Rightarrow> rbind (deref p) (onSync E c))"

text \<open>The messages a handler sends are votes and new-views, so no proposal reaches this step.\<close>

definition stepLeaf :: "('db, 'z) cenv \<Rightarrow> Message \<Rightarrow> 'db consensus \<Rightarrow> 'db consensus result" where
  "stepLeaf E = dispatch (\<lambda>_. Inr) E"

definition sendNewView :: "('db, 'z) cenv \<Rightarrow> 'db consensus \<Rightarrow> 'db consensus result" where
  "sendNewView E c =
     rbind (getLeader c (view c)) (\<lambda>leader.
     rbind (c_signer E [] (HashSum (blake2s E) (EncodeUint64 (view c - 1)))) (\<lambda>sig.
     let nview = \<lparr>NewView_View = view c - 1, NewView_Voter = cid c, NewView_Sig = sig,
                  NewView_Cert = Some (prepareCert c)\<rparr>
     in rbind (orFatal (SaveVoted E (store c) (view c - 1)) ''cannot save voted'') (\<lambda>s.
        sendMsgWith (stepLeaf E) (NewViewMsg nview) (Some [leader]) (c\<lparr>voted := view c - 1, store := s\<rparr>))))"

definition sendVote :: "('db, 'z) cenv \<Rightarrow> 'db consensus \<Rightarrow> Header \<Rightarrow> 'db consensus result" where
  "sendVote E c header =
     rbind (orFatal (SaveVoted E (store c) (Header_View header)) ''cannot save voted'') (\<lambda>s.
     let c = c\<lparr>voted := Header_View header, store := s, votes := Votes_Start (blake2s E) (votes c) header\<rparr>
     in rbind (c_signer E [] (hashOf E header)) (\<lambda>sig.
        let vote = \<lparr>Vote_Block = hashOf E header, Vote_View = Header_View header, Vote_Voter = cid c, Vote_Sig = sig\<rparr>
        in rbind (getLeader c (Vote_View vote + 1)) (\<lambda>leader.
           sendMsgWith (stepLeaf E) (NewVoteMsg vote) (Some [leader]) c)))"

definition nextRound :: "('db, 'z) cenv \<Rightarrow> bool \<Rightarrow> 'db consensus \<Rightarrow> 'db consensus result" where
  "nextRound E timedout c = nextRoundWith (sendNewView E) timedout c"

section \<open>Proposals\<close>

definition persistProposal :: "('db, 'z) cenv \<Rightarrow> 'db consensus \<Rightarrow> Proposal \<Rightarrow> 'db consensus result" where
  "persistProposal E c msg =
     rbind (deref (Proposal_Header msg)) (\<lambda>header.
     rbind (orFatal (SaveHeader E (store c) header) ''cannot save a header'') (\<lambda>s.
     rbind (deref (Proposal_Data msg)) (\<lambda>data.
     rbind (orFatal (SaveData E s (hashOf E header) data) ''cannot save a block data'') (\<lambda>s.
     rbind (deref (Proposal_ParentCert msg)) (\<lambda>cert.
     rbind (orFatal (SaveCertificate E s cert) ''cannot save a certificate'') (\<lambda>s.
     Inr (c\<lparr>store := s\<rparr>)))))))"

text \<open>The checks a proposal passes before it changes anything but \<^verbatim>\<open>NotFound\<close>.\<close>

datatype proposalCheck = Rejected | Missing | Accepted Header

definition checkProposal ::
  "('db, 'z) cenv \<Rightarrow> 'db consensus \<Rightarrow> Header \<Rightarrow> Certificate \<Rightarrow> TimeoutCertificate option \<Rightarrow> bytes \<Rightarrow> proposalCheck result" where
  "checkProposal E c header cert tcert sig =
     (if Header_Parent header \<noteq> Certificate_Block cert then Inr Rejected
      else rbind (verifyAggregated E (Header_Parent header) (Certificate_Sig cert)) (\<lambda>valid.
        if \<not> valid then Inr Rejected
        else case GetHeader E (store c) (Header_Parent header) of
          Inl err \<Rightarrow> Inr Missing
        | Inr parent \<Rightarrow>
            rbind (case tcert of
                     None \<Rightarrow> Inr True
                   | Some tc \<Rightarrow> verifyAggregated E (HashSum (blake2s E) (EncodeUint64 (Header_View header - 1)))
                                  (TimeoutCertificate_Sig tc)) (\<lambda>valid.
            if \<not> valid then Inr Rejected
            else rbind (getLeader c (Header_View header)) (\<lambda>leader.
              if \<not> v_Verify (c_verifier E) leader (hashOf E header) sig then Inr Rejected
              else Inr (Accepted parent)))))"

definition onProposal :: "('db, 'z) cenv \<Rightarrow> 'db consensus \<Rightarrow> Proposal \<Rightarrow> 'db consensus result" where
  "onProposal E c msg =
     rbind (deref (Proposal_Header msg)) (\<lambda>header.
     case Proposal_ParentCert msg of
       None \<Rightarrow> Inr c
     | Some cert \<Rightarrow>
         rbind (checkProposal E c header cert (Proposal_Timeout msg) (Proposal_Sig msg)) (\<lambda>check.
         case check of
           Rejected \<Rightarrow> Inr c
         | Missing \<Rightarrow>
             Inr (c\<lparr>progress := AddNotFound (progress c) (Header_ParentView header) (Header_Parent header)\<rparr>)
         | Accepted parent \<Rightarrow>
             rbind (updatePrepare E c parent cert) (\<lambda>c.
             rbind (syncView E c parent (Proposal_Timeout msg)) (\<lambda>c.
             rbind (update E c parent) (\<lambda>c.
             if Header_View header \<noteq> view c then Inr c
             else rbind (persistProposal E c msg) (\<lambda>c.
               if Header_View header > voted c \<and> safeNode E c header then sendVote E c header
               else Inr c))))))"

section \<open>The module's interface\<close>

definition Step :: "('db, 'z) cenv \<Rightarrow> Message \<Rightarrow> 'db consensus \<Rightarrow> 'db consensus result" where
  "Step E msg c = dispatch (\<lambda>m c. onProposal E c m) E msg c"

definition sendMsg :: "('db, 'z) cenv \<Rightarrow> Message \<Rightarrow> uint64 list option \<Rightarrow> 'db consensus \<Rightarrow> 'db consensus result" where
  "sendMsg E = sendMsgWith (Step E)"

definition Start :: "('db, 'z) cenv \<Rightarrow> 'db consensus \<Rightarrow> 'db consensus result" where
  "Start E c = nextRound E False c"

definition onTimeout :: "('db, 'z) cenv \<Rightarrow> 'db consensus \<Rightarrow> 'db consensus result" where
  "onTimeout E c =
     rbind (orFatal (SaveView E (store c) (view c + 1)) ''cannot update view'') (\<lambda>s.
     nextRound E True (c\<lparr>view := view c + 1, store := s\<rparr>))"

definition Tick :: "('db, 'z) cenv \<Rightarrow> 'db consensus \<Rightarrow> 'db consensus result" where
  "Tick E c =
     (let c = c\<lparr>ticks := ticks c + 1\<rparr>
      in if ticks c = timeout c then onTimeout E c else Inr c)"

definition Send ::
  "('db, 'z) cenv \<Rightarrow> bytes \<Rightarrow> bytes \<Rightarrow> Data option \<Rightarrow> 'db consensus \<Rightarrow> 'db consensus result" where
  "Send E state root data c =
     (if waitingData c then
        let c = c\<lparr>waitingData := False\<rparr>;
            header = \<lparr>Header_View = view c, Header_Parent = hashOf E (prepare c),
                      Header_ParentView = Header_View (prepare c),
                      Header_DataRoot = root, Header_StateRoot = state\<rparr>
        in rbind (c_signer E [] (hashOf E header)) (\<lambda>sig.
           let proposal = \<lparr>Proposal_Header = Some header, Proposal_Data = data, Proposal_Sig = sig,
                           Proposal_ParentCert = Some (prepareCert c), Proposal_Timeout = timeoutCert c\<rparr>
           in sendMsg E (NewProposalMsg proposal) None c)
      else Inr c)"

end
