(* ===== verification/Actions.thy ===== *)
theory Actions
  imports Consensus
begin

text \<open>
  The replica as a transition system of atomic actions. Every method of \<^verbatim>\<open>consensus\<close> that
  returns is shown to be a sequence of actions of the relation \<open>act\<close>: moving the clock,
  resetting, starting and feeding the collectors, raising the certified, the locked and the
  committed block, entering a view, voting, sending a new-view message, proposing, and
  storing. The rules carry the guards the code has checked when it acts. A property of the
  replica is then one lemma per rule instead of one per method.
\<close>

section \<open>The knot of the mutual recursion\<close>

lemma nextRoundWith_False: "nextRoundWith f False = nextRoundWith g False"
  by (simp add: fun_eq_iff nextRoundWith_def)

lemma nextRoundFalse_eq: "nextRoundFalse c = nextRound E False c"
  by (simp add: nextRoundFalse_def nextRound_def nextRoundWith_False [of Inr "sendNewView E"])

text \<open>A handler's own messages are handled as \<^verbatim>\<open>Step\<close> handles them.\<close>

lemma stepLeaf_Step:
  shows "stepLeaf E (NewVoteMsg v) = Step E (NewVoteMsg v)"
    and "stepLeaf E (NewViewMsg n) = Step E (NewViewMsg n)"
  by (simp_all add: fun_eq_iff stepLeaf_def Step_def dispatch_def msg_defs)

lemma sendMsg_leaf:
  shows "sendMsgWith (stepLeaf E) (NewVoteMsg v) = sendMsg E (NewVoteMsg v)"
    and "sendMsgWith (stepLeaf E) (NewViewMsg n) = sendMsg E (NewViewMsg n)"
  by (intro ext, simp add: sendMsg_def sendMsgWith_def stepLeaf_Step Let_def split: option.split)+

section \<open>Actions\<close>

text \<open>
  The lock has caught up with the chain below \<open>parent\<close>: it is at least the grandparent when
  the chain below is known. A header \<open>h\<close> that was stored last is not part of that chain, so
  the facts are about keys other than its hash.
\<close>

definition lockCaughtUp :: "('db, 'z) cenv \<Rightarrow> 'db consensus \<Rightarrow> Header \<Rightarrow> Header \<Rightarrow> bool" where
  "lockCaughtUp E c h parent \<longleftrightarrow>
     (\<forall>gparent ggparent.
        Header_Parent parent \<noteq> hashOf E h \<longrightarrow> GetHeader E (store c) (Header_Parent parent) = Inr gparent \<longrightarrow>
        Header_Parent gparent \<noteq> hashOf E h \<longrightarrow> GetHeader E (store c) (Header_Parent gparent) = Inr ggparent \<longrightarrow>
        Header_View gparent \<le> Header_View (locked c))"

definition certifiedBy :: "('db, 'z) cenv \<Rightarrow> bytes \<Rightarrow> AggregatedSignature option \<Rightarrow> bool" where
  "certifiedBy E hash asig \<longleftrightarrow> (\<exists>a. asig = Some a \<and> v_VerifyAggregated (c_verifier E) hash a)"

text \<open>
  The state of a replica at the moment it votes for \<open>h\<close>: it has not committed itself to
  the view, which is the view it is in; the proposal is signed by the view's leader; the
  certificate for the parent was accepted; the header is safe with respect to the lock; and
  the lock has caught up with the chain below the parent.
\<close>

definition voteChecked :: "('db, 'z) cenv \<Rightarrow> 'db consensus \<Rightarrow> Header \<Rightarrow> bool" where
  "voteChecked E d h \<longleftrightarrow>
     voted d < Header_View h \<and> Header_View h = view d \<and>
     GetHeader E (store d) (hashOf E h) = Inr h \<and> safeNode E d h \<and>
     (\<exists>leader sig. getLeader d (Header_View h) = Inr leader \<and> v_Verify (c_verifier E) leader (hashOf E h) sig) \<and>
     (\<exists>asig. certifiedBy E (Header_Parent h) asig) \<and>
     (\<exists>parent. (Header_Parent h \<noteq> hashOf E h \<longrightarrow> GetHeader E (store d) (Header_Parent h) = Inr parent) \<and>
        lockCaughtUp E d h parent)"

lemma voteChecked_view: "voteChecked E d h \<Longrightarrow> voted d < Header_View h \<and> Header_View h = view d"
  by (auto simp: voteChecked_def)

inductive move ::
  "('db consensus \<Rightarrow> Header \<Rightarrow> bool) \<Rightarrow> ('db, 'z) cenv \<Rightarrow> 'db consensus \<Rightarrow> 'db consensus \<Rightarrow> bool" for P E where
  clock: "move P E c (c\<lparr>ticks := t, timeout := u, waitingData := w\<rparr>)"
| signal: "Messages p = Messages (progress c) \<Longrightarrow> Events p = Events (progress c) \<Longrightarrow>
    NotFound p = NotFound (progress c) @ refs \<Longrightarrow>
    move P E c (c\<lparr>progress := p\<rparr>)"
| votes_reset: "move P E c (c\<lparr>votes := Votes_Reset (votes c)\<rparr>)"
| votes_collect: "Votes_Collect (c_verifier E) (votes c) v = Inr (b, vs) \<Longrightarrow> move P E c (c\<lparr>votes := vs\<rparr>)"
| timeouts_reset: "move P E c (c\<lparr>timeouts := Timeouts_Reset (timeouts c)\<rparr>)"
| timeouts_start: "Timeouts_Start (Timeouts_Reset (timeouts c)) v = Inr t \<Longrightarrow> move P E c (c\<lparr>timeouts := t\<rparr>)"
| timeouts_collect: "Timeouts_Collect (blake2s E) (c_verifier E) (timeouts c) n = Inr (b, t) \<Longrightarrow>
    move P E c (c\<lparr>timeouts := t\<rparr>)"
| timeoutCert: "tc = None \<or> tc = t_Cert (timeouts c) \<Longrightarrow> move P E c (c\<lparr>timeoutCert := tc\<rparr>)"
| raise_prepare: "Header_View (prepare c) < Header_View h \<Longrightarrow>
    GetHeader E (store c) k = Inr h \<or> vt_Header (votes c) = Some h \<Longrightarrow>
    SetTag E (store c) PrepareTag (hashOf E h) = Inr s \<Longrightarrow>
    move P E c (c\<lparr>prepare := h, prepareCert := cert, store := s, progress := AddHeader (progress c) h False\<rparr>)"
| raise_locked: "Header_View (locked c) < Header_View h \<Longrightarrow>
    GetHeader E (store c) k = Inr p \<Longrightarrow> certifiedBy E k asig \<Longrightarrow> Header_View p \<le> Header_View (prepare c) \<Longrightarrow>
    GetHeader E (store c) (Header_Parent p) = Inr h \<Longrightarrow>
    SetTag E (store c) LockedTag (hashOf E h) = Inr s \<Longrightarrow>
    move P E c (c\<lparr>locked := h, store := s\<rparr>)"
| raise_commit: "Header_View (commit c) < Header_View h \<Longrightarrow>
    GetHeader E (store c) k = Inr p \<Longrightarrow> certifiedBy E k asig \<Longrightarrow>
    GetHeader E (store c) (Header_Parent p) = Inr g \<Longrightarrow> GetHeader E (store c) (Header_Parent g) = Inr h \<Longrightarrow>
    Header_View p - Header_View g = 1 \<Longrightarrow> Header_View g - Header_View h = 1 \<Longrightarrow>
    SetTag E (store c) DecideTag (hashOf E h) = Inr s \<Longrightarrow>
    move P E c (c\<lparr>commit := h, store := s, progress := AddHeader (progress c) h True\<rparr>)"
| enter_view: "view c \<le> v \<Longrightarrow> SaveView E (store c) (v + 1) = Inr s \<Longrightarrow>
    move P E c (c\<lparr>view := v + 1, store := s, votes := Votes_Reset (votes c)\<rparr>)"
| save_header: "Header_Size h < 2 ^ 63 \<Longrightarrow> P c h \<Longrightarrow> SaveHeader E (store c) h = Inr s \<Longrightarrow> move P E c (c\<lparr>store := s\<rparr>)"
| save_data: "SaveData E (store c) k d = Inr s \<Longrightarrow> move P E c (c\<lparr>store := s\<rparr>)"
| save_cert: "SaveCertificate E (store c) cert = Inr s \<Longrightarrow> move P E c (c\<lparr>store := s\<rparr>)"
| vote: "voteChecked E c h \<Longrightarrow>
    SaveVoted E (store c) (Header_View h) = Inr s \<Longrightarrow> c_signer E [] (hashOf E h) = Inr sig \<Longrightarrow>
    leader \<in> set (replicas c) \<Longrightarrow>
    move P E c (c\<lparr>voted := Header_View h, store := s, votes := Votes_Start (blake2s E) (votes c) h,
      progress := AddMessage (progress c)
        (NewVoteMsg \<lparr>Vote_Block = hashOf E h, Vote_View = Header_View h, Vote_Voter = cid c, Vote_Sig = sig\<rparr>)
        (Some [leader])\<rparr>)"
| new_view: "voted c < view c - 1 \<Longrightarrow> SaveVoted E (store c) (view c - 1) = Inr s \<Longrightarrow>
    c_signer E [] (HashSum (blake2s E) (EncodeUint64 (view c - 1))) = Inr sig \<Longrightarrow> leader \<in> set (replicas c) \<Longrightarrow>
    move P E c (c\<lparr>voted := view c - 1, store := s,
      progress := AddMessage (progress c)
        (NewViewMsg \<lparr>NewView_View = view c - 1, NewView_Voter = cid c, NewView_Sig = sig,
           NewView_Cert = Some (prepareCert c)\<rparr>) (Some [leader])\<rparr>)"
| propose: "Proposal_Header p = Some h \<Longrightarrow> Header_View h = view c \<Longrightarrow> Header_Parent h = hashOf E (prepare c) \<Longrightarrow>
    move P E c (c\<lparr>progress := AddMessage (progress c) (NewProposalMsg p) None\<rparr>)"

abbreviation moves ::
  "('db consensus \<Rightarrow> Header \<Rightarrow> bool) \<Rightarrow> ('db, 'z) cenv \<Rightarrow> 'db consensus \<Rightarrow> 'db consensus \<Rightarrow> bool" where
  "moves P E \<equiv> (move P E)\<^sup>*\<^sup>*"

abbreviation act :: "('db, 'z) cenv \<Rightarrow> 'db consensus \<Rightarrow> 'db consensus \<Rightarrow> bool" where
  "act \<equiv> move (\<lambda>_ _. True)"

abbreviation acts :: "('db, 'z) cenv \<Rightarrow> 'db consensus \<Rightarrow> 'db consensus \<Rightarrow> bool" where
  "acts E \<equiv> (act E)\<^sup>*\<^sup>*"

lemma move_act: "move P E c c' \<Longrightarrow> act E c c'"
  by (induction rule: move.induct) (rule move.intros; (assumption | rule TrueI))+

lemma acts_trans [trans]: "moves P E a b \<Longrightarrow> moves P E b c \<Longrightarrow> moves P E a c"
  by (rule rtranclp_trans)

text \<open>The configuration never changes.\<close>

lemma act_config: "move P E c c' \<Longrightarrow> cid c' = cid c \<and> replicas c' = replicas c"
  by (induction rule: move.induct) simp_all

lemma acts_config: "moves P E c c' \<Longrightarrow> cid c' = cid c \<and> replicas c' = replicas c"
  by (induction rule: rtranclp_induct) (simp_all add: act_config)

lemma getLeader_member: "getLeader c v = Inr l \<Longrightarrow> l \<in> set (replicas c)"
  by (auto simp: getLeader_def split: if_splits)

lemma getLeader_acts: "moves P E c c' \<Longrightarrow> getLeader c' v = getLeader c v"
  by (simp add: getLeader_def acts_config)

section \<open>The building blocks of the handlers\<close>

lemma enterView_acts: "moves P E c (enterView c)"
proof -
  let ?c1 = "c\<lparr>ticks := 0, timeout := newTimeout c, waitingData := False\<rparr>"
  let ?c2 = "?c1\<lparr>votes := Votes_Reset (votes ?c1)\<rparr>"
  have two: "moves P E c ?c2"
    by (rule rtranclp_trans [OF r_into_rtranclp r_into_rtranclp]) (rule move.clock, rule move.votes_reset)
  have "move P E ?c2 (?c2\<lparr>timeoutCert := None\<rparr>)" by (rule move.timeoutCert) simp
  with two have three: "moves P E c (?c2\<lparr>timeoutCert := None\<rparr>)" by (rule rtranclp.rtrancl_into_rtrancl)
  have "enterView c = ?c2 \<or> enterView c = ?c2\<lparr>timeoutCert := None\<rparr>"
    by (simp add: enterView_def resetTimeout_def Let_def split: option.split)
  with two three show ?thesis by (elim disjE) (simp_all only:)
qed

lemma Votes_Reset_idem [simp]: "Votes_Reset (Votes_Reset v) = Votes_Reset v"
  by (simp add: Votes_Reset_def)

lemma enterView_votes [simp]: "enterView (c\<lparr>votes := Votes_Reset (votes c)\<rparr>) = enterView c"
  by (simp add: enterView_def resetTimeout_def newTimeout_def Let_def split: option.split)

text \<open>Since entering a view drops the collected votes, they may be dropped with the view change.\<close>

lemma nextRoundWith_votes [simp]: "nextRoundWith f td (c\<lparr>votes := Votes_Reset (votes c)\<rparr>) = nextRoundWith f td c"
  by (simp add: nextRoundWith_def)

lemma nextRound_new_view:
  "nextRoundWith f td (c\<lparr>view := v, store := s\<rparr>) =
    nextRoundWith f td (c\<lparr>view := v, store := s, votes := Votes_Reset (votes c)\<rparr>)"
  using nextRoundWith_votes [of f td "c\<lparr>view := v, store := s\<rparr>"] by simp

lemma leaderTimeouts_acts:
  assumes "leaderTimeouts c = Inr c'"
  shows "moves P E c c'"
proof -
  obtain l l2 c1 where c1: "c1 = (if cid c = l then c\<lparr>timeouts := Timeouts_Reset (timeouts c)\<rparr> else c)"
    and c': "(if cid c1 = l2 then rbind (Timeouts_Start (Timeouts_Reset (timeouts c1)) (view c1))
        (\<lambda>t. Inr (c1\<lparr>timeouts := t\<rparr>)) else Inr c1) = Inr c'"
    using assms by (auto simp: leaderTimeouts_def Let_def rbind_Inr_iff)
  have "moves P E c c1" using c1 by (auto intro: move.timeouts_reset)
  also have "moves P E c1 c'"
    using c' by (auto simp: rbind_Inr_iff split: if_splits intro: move.timeouts_start)
  finally show ?thesis .
qed

lemma awaitData_acts: "moves P E c (awaitData c)"
proof -
  let ?c1 = "c\<lparr>progress := (progress c)\<lparr>Progress_WaitingData := True\<rparr>\<rparr>"
  have one: "move P E c ?c1" by (rule move.signal) simp_all
  have "move P E ?c1 (?c1\<lparr>ticks := ticks c, timeout := timeout c, waitingData := True\<rparr>)"
    by (rule move.clock)
  moreover have "?c1\<lparr>ticks := ticks c, timeout := timeout c, waitingData := True\<rparr> = awaitData c"
    by (simp add: awaitData_def)
  ultimately have "move P E ?c1 (awaitData c)" by (simp only:)
  with one show ?thesis by (meson converse_rtranclp_into_rtranclp r_into_rtranclp)
qed

lemma nextRoundWith_acts:
  assumes "nextRoundWith f td c = Inr c'"
    and "\<And>d d'. td \<Longrightarrow> voted d < view d - 1 \<Longrightarrow> f d = Inr d' \<Longrightarrow> moves P E d d'"
  shows "moves P E c c'"
proof -
  obtain c1 where c1: "leaderTimeouts (enterView c) = Inr c1"
    and c': "(if td \<and> view c1 - 1 > voted c1 then f c1
      else rbind (getLeader c1 (view c1)) (\<lambda>l. if cid c1 = l then Inr (awaitData c1) else Inr c1)) = Inr c'"
    using assms(1) by (auto simp: nextRoundWith_def)
  have "moves P E c c1"
    using enterView_acts leaderTimeouts_acts [OF c1] by (rule acts_trans)
  also have "moves P E c1 c'"
    using c' assms(2) by (auto simp: rbind_Inr_iff intro: awaitData_acts split: if_splits)
  finally show ?thesis .
qed

lemma nextRoundFalse_acts: "nextRoundFalse c = Inr c' \<Longrightarrow> moves P E c c'"
  unfolding nextRoundFalse_def by (erule nextRoundWith_acts) simp

lemma updatePrepare_acts:
  assumes "updatePrepare E c h cert = Inr c'"
    and "GetHeader E (store c) k = Inr h \<or> vt_Header (votes c) = Some h"
  shows "moves P E c c'"
  using assms
  by (auto simp: updatePrepare_def rbind_Inr_iff split: if_splits intro: move.raise_prepare)

lemma jumpToView_acts:
  assumes "jumpToView E c (v + 1) = Inr c'" and "view c \<le> v"
  shows "moves P E c c'"
proof -
  obtain s where s: "SaveView E (store c) (v + 1) = Inr s"
    and c': "nextRoundFalse (c\<lparr>view := v + 1, store := s, votes := Votes_Reset (votes c)\<rparr>) = Inr c'"
    using assms(1) by (auto simp: jumpToView_def nextRoundFalse_def nextRound_new_view [symmetric] elim!: rbind_InrE)
  have "move P E c (c\<lparr>view := v + 1, store := s, votes := Votes_Reset (votes c)\<rparr>)" by (rule move.enter_view [OF assms(2) s])
  then show ?thesis
    using nextRoundFalse_acts [OF c'] by (rule converse_rtranclp_into_rtranclp)
qed

lemma syncView_acts: "syncView E c h tc = Inr c' \<Longrightarrow> moves P E c c'"
  by (auto simp: syncView_def split: option.splits if_splits intro: jumpToView_acts)


section \<open>What a view change leaves alone\<close>

text \<open>The fields a round that did not time out never writes.\<close>

definition durable :: "'db consensus \<Rightarrow> _" where
  "durable c = (store c, view c, voted c, prepare c, locked c, commit c, prepareCert c, cid c, replicas c)"

lemma durable_enterView [simp]: "durable (enterView c) = durable c"
  by (simp add: durable_def enterView_def resetTimeout_def Let_def split: option.split)

lemma durable_awaitData [simp]: "durable (awaitData c) = durable c"
  by (simp add: durable_def awaitData_def)

lemma durable_leaderTimeouts:
  assumes "leaderTimeouts c = Inr c'"
  shows "durable c' = durable c"
proof -
  obtain l l2 c1 where c1: "c1 = (if cid c = l then c\<lparr>timeouts := Timeouts_Reset (timeouts c)\<rparr> else c)"
    and c': "(if cid c1 = l2 then rbind (Timeouts_Start (Timeouts_Reset (timeouts c1)) (view c1))
        (\<lambda>t. Inr (c1\<lparr>timeouts := t\<rparr>)) else Inr c1) = Inr c'"
    using assms by (auto simp: leaderTimeouts_def Let_def rbind_Inr_iff)
  have "durable c1 = durable c" by (simp add: c1 durable_def)
  moreover have "durable c' = durable c1"
    using c' by (auto simp: rbind_Inr_iff durable_def split: if_splits)
  ultimately show ?thesis by simp
qed

lemma durable_nextRoundFalse: "nextRoundFalse c = Inr c' \<Longrightarrow> durable c' = durable c"
  unfolding nextRoundFalse_def nextRoundWith_def
  by (auto simp: rbind_Inr_iff dest!: durable_leaderTimeouts split: if_splits)

section \<open>The environment of a replica\<close>

text \<open>
  Messages that fit in memory: a header in one is shorter than \<open>2 ^ 63\<close> bytes, as every
  Go slice is.
\<close>

definition smallBlock :: "Block \<Rightarrow> bool" where
  "smallBlock b \<longleftrightarrow> (\<forall>h. Block_Header b = Some h \<longrightarrow> Header_Size h < 2 ^ 63)"

definition smallProposal :: "Proposal \<Rightarrow> bool" where
  "smallProposal p \<longleftrightarrow> (\<forall>h. Proposal_Header p = Some h \<longrightarrow> Header_Size h < 2 ^ 63)"

definition smallMessage :: "Message \<Rightarrow> bool" where
  "smallMessage m \<longleftrightarrow>
     (case Message_Type m of
        Some (Message_Proposal (Some p)) \<Rightarrow> smallProposal p
      | Some (Message_Sync (Some s)) \<Rightarrow> list_all smallBlock (Sync_Blocks s)
      | _ \<Rightarrow> True)"

text \<open>
  The same with a condition \<open>P\<close> on the headers the replica stores and the states it stores them
  in. A proposal's header is stored only when its parent is known; a synchronized block may
  come before its parent.
\<close>

definition admits :: "('db consensus \<Rightarrow> Header \<Rightarrow> bool) \<Rightarrow> ('db, 'z) cenv \<Rightarrow> Header \<Rightarrow> bool" where
  "admits P E h \<longleftrightarrow> (\<forall>c parent. GetHeader E (store c) (Header_Parent h) = Inr parent \<longrightarrow> P c h)"

fun syncOk :: "('db consensus \<Rightarrow> Header \<Rightarrow> bool) \<Rightarrow> ('db, 'z) cenv \<Rightarrow> 'db consensus \<Rightarrow> Block list \<Rightarrow> bool" where
  "syncOk P E c [] \<longleftrightarrow> True"
| "syncOk P E c (b # bs) \<longleftrightarrow> smallBlock b \<and> pred_option (P c) (Block_Header b) \<and>
     (case syncBlock E c b of Inr (valid, c') \<Rightarrow> syncOk P E c' bs | Inl _ \<Rightarrow> True)"

definition messageOk :: "('db consensus \<Rightarrow> Header \<Rightarrow> bool) \<Rightarrow> ('db, 'z) cenv \<Rightarrow> 'db consensus \<Rightarrow> Message \<Rightarrow> bool" where
  "messageOk P E c m \<longleftrightarrow>
     (case Message_Type m of
        Some (Message_Proposal (Some p)) \<Rightarrow> smallProposal p \<and> pred_option (admits P E) (Proposal_Header p)
      | Some (Message_Sync (Some s)) \<Rightarrow> syncOk P E c (Sync_Blocks s)
      | _ \<Rightarrow> True)"

lemma syncOk_True: "list_all smallBlock bs \<Longrightarrow> syncOk (\<lambda>_ _. True) E c bs"
  by (induction bs arbitrary: c) (simp_all add: option.pred_True split: sum.split)

lemma smallMessage_ok: "smallMessage m \<Longrightarrow> messageOk (\<lambda>_ _. True) E c m"
  by (auto simp: messageOk_def smallMessage_def admits_def syncOk_True pred_option_def split: option.splits Message_Type.splits)

lemma Header_Size_small:
  assumes "length (Header_Parent h) \<le> 32" and "length (Header_DataRoot h) + length (Header_StateRoot h) < 2 ^ 62"
  shows "Header_Size h < 2 ^ 63"
proof -
  show ?thesis
    using assms size_bounds(1) [of "Header_View h"] size_bounds(1) [of "Header_ParentView h"]
      size_bounds(3) [of "Header_Parent h"] size_bounds(3) [of "Header_DataRoot h"] size_bounds(3) [of "Header_StateRoot h"]
    by (simp add: Header_Size_def)
qed

text \<open>The header a leader proposes.\<close>

abbreviation proposed :: "('db, 'z) cenv \<Rightarrow> 'db consensus \<Rightarrow> bytes \<Rightarrow> bytes \<Rightarrow> Header" where
  "proposed E c state root \<equiv> \<lparr>Header_View = view c, Header_Parent = hashOf E (prepare c),
    Header_ParentView = Header_View (prepare c), Header_DataRoot = root, Header_StateRoot = state\<rparr>"

text \<open>
  What the methods rely on: the database contract, and that the digest has 32 bytes.
\<close>

locale replica = leveldb E for E :: "('db, 'z) CEnv_scheme" +
  assumes hash_len: "length (blake2s E x) = 32"
begin

lemma GetHeader_dbPut: "dbPut E s k v = Inr s' \<Longrightarrow> k \<noteq> headerKey h \<Longrightarrow> GetHeader E s' h = GetHeader E s h"
  by (simp add: GetHeader_def dbGet_dbPut)

lemma GetHeader_SetTag: "SetTag E s t x = Inr s' \<Longrightarrow> t \<in> set storeTags \<Longrightarrow> GetHeader E s' h = GetHeader E s h"
  by (auto simp: SetTag_def storeTags_def tag_defs key_defs bucket_defs intro: GetHeader_dbPut)

lemma GetHeader_SaveView: "SaveView E s x = Inr s' \<Longrightarrow> GetHeader E s' h = GetHeader E s h"
  unfolding SaveView_def by (erule GetHeader_dbPut) (simp add: key_defs bucket_defs)

lemma GetHeader_SaveVoted: "SaveVoted E s x = Inr s' \<Longrightarrow> GetHeader E s' h = GetHeader E s h"
  unfolding SaveVoted_def by (erule GetHeader_dbPut) (simp add: key_defs bucket_defs)

lemma GetHeader_SaveData: "SaveData E s k d = Inr s' \<Longrightarrow> GetHeader E s' h = GetHeader E s h"
  unfolding SaveData_def by (erule GetHeader_dbPut) (simp add: key_defs bucket_defs)

lemma GetHeader_SaveCertificate: "SaveCertificate E s c = Inr s' \<Longrightarrow> GetHeader E s' h = GetHeader E s h"
  unfolding SaveCertificate_def by (erule GetHeader_dbPut) (simp add: key_defs bucket_defs)

lemma GetHeader_SaveHeader:
  assumes "SaveHeader E s x = Inr s'"
  shows "h \<noteq> hashOf E x \<Longrightarrow> GetHeader E s' h = GetHeader E s h"
    and "Header_Size x < 2 ^ 63 \<Longrightarrow> GetHeader E s' (hashOf E x) = Inr x"
proof -
  show "h \<noteq> hashOf E x \<Longrightarrow> GetHeader E s' h = GetHeader E s h"
    using assms unfolding SaveHeader_def by (elim GetHeader_dbPut) (simp add: key_defs)
  show "Header_Size x < 2 ^ 63 \<Longrightarrow> GetHeader E s' (hashOf E x) = Inr x"
    using SaveHeader_abs [OF assms] GetHeader_abs [of E s' "hashOf E x" x] by simp
qed

lemmas GetHeader_frame =
  GetHeader_SetTag GetHeader_SaveView GetHeader_SaveVoted GetHeader_SaveData GetHeader_SaveCertificate

lemma tags_known [simp]:
  "PrepareTag \<in> set storeTags" "LockedTag \<in> set storeTags" "DecideTag \<in> set storeTags"
  by (simp_all add: storeTags_def)

subsection \<open>Locking and committing\<close>

lemma updateLocked_acts:
  assumes "updateLocked E c g = Inr c'" and "GetHeader E (store c) k = Inr p" "certifiedBy E k asig"
    and "Header_View p \<le> Header_View (prepare c)" and "GetHeader E (store c) (Header_Parent p) = Inr g"
  shows "moves P E c c'" and "Header_View g \<le> Header_View (locked c')"
    and "GetHeader E (store c') h = GetHeader E (store c) h"
  using assms
  by (auto simp: updateLocked_def rbind_Inr_iff split: if_splits intro: move.raise_locked
      dest: GetHeader_SetTag [where h = h])

lemma updateCommit_acts:
  assumes "updateCommit E c p g gg = Inr c'"
    and "GetHeader E (store c) k = Inr p" "certifiedBy E k asig"
    and "GetHeader E (store c) (Header_Parent p) = Inr g" and "GetHeader E (store c) (Header_Parent g) = Inr gg"
  shows "moves P E c c'" and "locked c' = locked c"
    and "GetHeader E (store c') h = GetHeader E (store c) h"
  using assms
  by (auto simp: updateCommit_def rbind_Inr_iff split: if_splits intro: move.raise_commit
      dest: GetHeader_SetTag [where h = h])

lemma update_acts:
  assumes "update E c p = Inr c'" and k: "GetHeader E (store c) k = Inr p" "certifiedBy E k asig"
    "Header_View p \<le> Header_View (prepare c)"
  shows "moves P E c c'" and "GetHeader E (store c') h = GetHeader E (store c) h"
    and "lockCaughtUp E c' x p"
proof -
  have "moves P E c c' \<and> GetHeader E (store c') h = GetHeader E (store c) h \<and> lockCaughtUp E c' x p" for h
  proof (cases "\<exists>g gg. GetHeader E (store c) (Header_Parent p) = Inr g \<and> GetHeader E (store c) (Header_Parent g) = Inr gg")
    case False
    then have "c' = c" using assms(1) by (auto simp: update_def split: sum.splits)
    with False show ?thesis by (auto simp: lockCaughtUp_def)
  next
    case True
    then obtain g gg where g: "GetHeader E (store c) (Header_Parent p) = Inr g"
      and gg: "GetHeader E (store c) (Header_Parent g) = Inr gg" by blast
    then obtain c1 where c1: "updateLocked E c g = Inr c1" and c': "updateCommit E c1 p g gg = Inr c'"
      using assms(1) by (auto simp: update_def)
    note l = updateLocked_acts [OF c1 k g]
    have "GetHeader E (store c1) k = Inr p" "certifiedBy E k asig"
      "GetHeader E (store c1) (Header_Parent p) = Inr g" "GetHeader E (store c1) (Header_Parent g) = Inr gg"
      using k g gg by (simp_all add: l(3))
    note m = updateCommit_acts [OF c' this(1-4)]
    have "moves P E c c'" using l(1) m(1) by (rule acts_trans)
    moreover have "GetHeader E (store c') k = GetHeader E (store c) k" for k by (simp add: l(3) m(3))
    moreover from this have "lockCaughtUp E c' x p"
      using g l(2) m(2) by (auto simp: lockCaughtUp_def)
    ultimately show ?thesis by simp
  qed
  then show "moves P E c c'" and "GetHeader E (store c') h = GetHeader E (store c) h" and "lockCaughtUp E c' x p"
    by simp_all
qed

lemma GetHeader_syncView:
  assumes "syncView E c x tc = Inr c'"
  shows "GetHeader E (store c') h = GetHeader E (store c) h"
  using assms
  by (auto simp: syncView_def jumpToView_def rbind_Inr_iff durable_def
      split: option.splits if_splits dest!: durable_nextRoundFalse GetHeader_SaveView [where h = h])

lemma prepare_syncView: "syncView E c x tc = Inr c' \<Longrightarrow> prepare c' = prepare c"
  by (auto simp: syncView_def jumpToView_def durable_def elim!: rbind_InrE split: option.splits if_splits
      dest!: durable_nextRoundFalse)

lemma GetHeader_updatePrepare:
  assumes "updatePrepare E c x cert = Inr c'"
  shows "GetHeader E (store c') h = GetHeader E (store c) h"
  using assms
  by (auto simp: updatePrepare_def rbind_Inr_iff split: if_splits dest: GetHeader_SetTag [where h = h])

text \<open>Raising a tag leaves the blocks alone.\<close>

lemma blocks_SetTag: "SetTag E s t x = Inr s' \<Longrightarrow> t \<in> set storeTags \<Longrightarrow> blocksOf E s' = blocksOf E s"
  by (simp add: blocksOf_def SetTag_abs)

lemma blocks_updates:
  shows "updatePrepare E c h cert = Inr c' \<Longrightarrow> blocksOf E (store c') = blocksOf E (store c) \<and> Header_View h \<le> Header_View (prepare c')"
    and "update E c h = Inr c' \<Longrightarrow> blocksOf E (store c') = blocksOf E (store c) \<and> prepare c' = prepare c"
  by (auto simp: updatePrepare_def update_def updateLocked_def updateCommit_def elim!: rbind_InrE
      dest!: blocks_SetTag split: if_splits sum.splits)

subsection \<open>Handlers\<close>

lemma onVote_acts:
  assumes "onVote E c v = Inr c'"
  shows "moves P E c c'"
proof (cases "c' = c")
  case False
  then obtain quorum vs where coll: "Votes_Collect (c_verifier E) (votes c) v = Inr (quorum, vs)"
    and rest: "(if \<not> quorum then Inr (c\<lparr>votes := vs\<rparr>)
      else rbind (deref (vt_Cert vs)) (\<lambda>cert.
        rbind (orFatal (SaveCertificate E (store c) cert) ''cannot save new certificate'') (\<lambda>s.
        rbind (deref (vt_Header vs)) (\<lambda>header.
        rbind (updatePrepare E (c\<lparr>votes := vs, store := s\<rparr>) header cert) (\<lambda>c.
        rbind (syncView E c header None) nextRoundFalse))))) = Inr c'"
    using assms unfolding onVote_def
    by (auto simp: Let_def elim!: rbind_InrE split: if_splits)
  have "moves P E c (c\<lparr>votes := vs\<rparr>)" using move.votes_collect [OF coll] by blast
  also have "moves P E (c\<lparr>votes := vs\<rparr>) c'"
  proof (cases quorum)
    case False
    with rest show ?thesis by simp
  next
    case True
    with rest obtain cert s h c2 c3 where
      s: "SaveCertificate E (store c) cert = Inr s" and h: "vt_Header vs = Some h"
      and c2: "updatePrepare E (c\<lparr>votes := vs, store := s\<rparr>) h cert = Inr c2"
      and c3: "syncView E c2 h None = Inr c3" and c': "nextRoundFalse c3 = Inr c'"
      by (auto elim!: rbind_InrE)
    have "moves P E (c\<lparr>votes := vs\<rparr>) (c\<lparr>votes := vs, store := s\<rparr>)"
      using move.save_cert [where P = P, of E "c\<lparr>votes := vs\<rparr>" cert s] s by simp
    also have "moves P E (c\<lparr>votes := vs, store := s\<rparr>) c2" by (rule updatePrepare_acts [OF c2]) (simp add: h)
    also have "moves P E c2 c3" by (rule syncView_acts [OF c3])
    also have "moves P E c3 c'" by (rule nextRoundFalse_acts [OF c'])
    finally show ?thesis .
  qed
  finally show ?thesis .
qed simp

lemma onNewView_acts:
  assumes "onNewView E c n = Inr c'"
  shows "moves P E c c'"
proof (cases "c' = c")
  case False
  then obtain cert h c1 quorum ts where h: "GetHeader E (store c) (Certificate_Block cert) = Inr h"
    and c1: "updatePrepare E c h cert = Inr c1"
    and coll: "Timeouts_Collect (blake2s E) (c_verifier E) (timeouts c1) n = Inr (quorum, ts)"
    and rest: "(if \<not> quorum then Inr (c1\<lparr>timeouts := ts\<rparr>)
      else rbind (syncView E (c1\<lparr>timeouts := ts, timeoutCert := t_Cert ts\<rparr>) (prepare c1) (t_Cert ts)) (\<lambda>d.
        if view c1 = NewView_View n then nextRoundFalse d else Inr (awaitData d))) = Inr c'"
    using assms unfolding onNewView_def
    by (auto simp: Let_def elim!: rbind_InrE split: if_splits sum.splits)
  have "moves P E c c1" using updatePrepare_acts [OF c1] h by blast
  also have "moves P E c1 (c1\<lparr>timeouts := ts\<rparr>)" using move.timeouts_collect [OF coll] by blast
  also have "moves P E (c1\<lparr>timeouts := ts\<rparr>) c'"
  proof (cases quorum)
    case False
    with rest show ?thesis by simp
  next
    case True
    let ?c3 = "c1\<lparr>timeouts := ts, timeoutCert := t_Cert ts\<rparr>"
    obtain d where d: "syncView E ?c3 (prepare c1) (t_Cert ts) = Inr d"
      and c': "(if view c1 = NewView_View n then nextRoundFalse d else Inr (awaitData d)) = Inr c'"
      using rest True by (auto simp: rbind_Inr_iff)
    have "move P E (c1\<lparr>timeouts := ts\<rparr>) (c1\<lparr>timeouts := ts\<rparr>\<lparr>timeoutCert := t_Cert ts\<rparr>)"
      by (rule move.timeoutCert) simp
    then have "moves P E (c1\<lparr>timeouts := ts\<rparr>) ?c3" by simp
    also have "moves P E ?c3 d" by (rule syncView_acts [OF d])
    also have "moves P E d c'"
      using c' by (auto intro: nextRoundFalse_acts awaitData_acts split: if_splits)
    finally show ?thesis .
  qed
  finally show ?thesis .
qed simp

lemma SaveBlock_acts:
  assumes "SaveBlock E (store c) b = Inr (Inr s)" and "Block_Header b = Some h" and "Header_Size h < 2 ^ 63" and "P c h"
  shows "moves P E c (c\<lparr>store := s\<rparr>)" and "GetHeader E s (hashOf E h) = Inr h"
proof -
  obtain cert data s1 s2 where s1: "SaveHeader E (store c) h = Inr s1"
    and s2: "SaveCertificate E s1 cert = Inr s2" and s: "SaveData E s2 (hashOf E h) data = Inr s"
    using assms(1,2) by (auto simp: SaveBlock_def ebind_Inr_Inr_iff rbind_Inr_iff)
  have "move P E c (c\<lparr>store := s1\<rparr>)" by (rule move.save_header [OF assms(3) _ s1]) (rule assms(4))
  moreover have "move P E (c\<lparr>store := s1\<rparr>) (c\<lparr>store := s2\<rparr>)"
    using move.save_cert [where P = P, of E "c\<lparr>store := s1\<rparr>"] s2 by simp
  moreover have "move P E (c\<lparr>store := s2\<rparr>) (c\<lparr>store := s\<rparr>)"
    using move.save_data [where P = P, of E "c\<lparr>store := s2\<rparr>"] s by simp
  ultimately show "moves P E c (c\<lparr>store := s\<rparr>)" by (meson r_into_rtranclp rtranclp_trans)
  show "GetHeader E s (hashOf E h) = Inr h"
    using GetHeader_SaveHeader(2) [OF s1 assms(3)] GetHeader_SaveCertificate [OF s2] GetHeader_SaveData [OF s]
    by simp
qed

lemma syncBlock_acts:
  assumes "syncBlock E c b = Inr (valid, c')" and "smallBlock b" and "pred_option (P c) (Block_Header b)"
  shows "moves P E c c'"
proof (cases "c' = c")
  case False
  then obtain h cert s c1 where h: "Block_Header b = Some h"
    and s: "SaveBlock E (store c) b = Inr (Inr s)"
    and c1: "updatePrepare E (c\<lparr>store := s\<rparr>) h cert = Inr c1" and c': "update E c1 h = Inr c'"
    and cert: "certifiedBy E (hashOf E h) (Certificate_Sig cert)"
    using assms(1) unfolding syncBlock_def
    by (auto simp: rbind_Inr_iff verifyAggregated_def certifiedBy_def split: option.splits if_splits)
  have small: "Header_Size h < 2 ^ 63" using assms(2) h by (simp add: smallBlock_def)
  have "P c h" using assms(3) h by simp
  note saved = SaveBlock_acts [where P = P, OF s h small this]
  note saved(1)
  also have "moves P E (c\<lparr>store := s\<rparr>) c1"
    by (rule updatePrepare_acts [OF c1, where k = "hashOf E h"]) (simp add: saved(2))
  also have "moves P E c1 c'"
    by (rule update_acts(1) [OF c' _ cert]) (use blocks_updates(1) [OF c1] in \<open>simp_all add: GetHeader_updatePrepare [OF c1] saved(2)\<close>)
  finally show ?thesis .
qed simp

lemma syncBlocks_acts:
  "syncBlocks E c bs = Inr c' \<Longrightarrow> syncOk P E c bs \<Longrightarrow> moves P E c c'"
proof (induction bs arbitrary: c)
  case (Cons b bs)
  then obtain valid c1 where c1: "syncBlock E c b = Inr (valid, c1)"
    and c': "(if \<not> valid then Inr c1 else syncBlocks E c1 bs) = Inr c'"
    by (auto simp: rbind_Inr_iff)
  have "moves P E c c1" using syncBlock_acts [where P = P, OF c1] Cons.prems by simp
  also have "moves P E c1 c'" using c' c1 Cons by (auto split: if_splits)
  finally show ?case .
qed simp

subsection \<open>Sending\<close>

lemma stepOwn_acts:
  assumes "\<And>d d'. step d = Inr d' \<Longrightarrow> moves P E d d'"
  shows "stepOwn step is c = Inr c' \<Longrightarrow> moves P E c c'"
proof (induction "is" arbitrary: c)
  case (Cons i "is")
  then obtain c1 where "(if cid c = i then step c else Inr c) = Inr c1" and c': "stepOwn step is c1 = Inr c'"
    by (auto elim!: rbind_InrE)
  then have "moves P E c c1" using assms by (auto split: if_splits)
  also have "moves P E c1 c'" by (rule Cons.IH [OF c'])
  finally show ?case .
qed simp

lemma stepLeaf_vote_acts: "stepLeaf E (NewVoteMsg v) c = Inr c' \<Longrightarrow> moves P E c c'"
  by (simp add: stepLeaf_def dispatch_def msg_defs onVote_acts)

lemma stepLeaf_newView_acts: "stepLeaf E (NewViewMsg n) c = Inr c' \<Longrightarrow> moves P E c c'"
  by (simp add: stepLeaf_def dispatch_def msg_defs onNewView_acts)

lemma sendNewView_acts:
  assumes "sendNewView E c = Inr c'" and "voted c < view c - 1"
  shows "moves P E c c'"
proof -
  obtain leader sig s where leader: "leader \<in> set (replicas c)"
    and sig: "c_signer E [] (HashSum (blake2s E) (EncodeUint64 (view c - 1))) = Inr sig"
    and s: "SaveVoted E (store c) (view c - 1) = Inr s"
    and own: "sendMsgWith (stepLeaf E) (NewViewMsg \<lparr>NewView_View = view c - 1, NewView_Voter = cid c,
        NewView_Sig = sig, NewView_Cert = Some (prepareCert c)\<rparr>) (Some [leader])
        (c\<lparr>voted := view c - 1, store := s\<rparr>) = Inr c'"
    using assms(1) unfolding sendNewView_def by (auto simp: Let_def dest!: getLeader_member elim!: rbind_InrE)
  have "moves P E c (c\<lparr>voted := view c - 1, store := s,
      progress := AddMessage (progress c)
        (NewViewMsg \<lparr>NewView_View = view c - 1, NewView_Voter = cid c, NewView_Sig = sig,
           NewView_Cert = Some (prepareCert c)\<rparr>) (Some [leader])\<rparr>)"
    using move.new_view [OF assms(2) s sig leader] by blast
  also have "moves P E \<dots> c'"
    using own by (auto simp: sendMsgWith_def Let_def elim!: rbind_InrE intro: stepLeaf_newView_acts split: if_splits)
  finally show ?thesis .
qed

lemma nextRound_acts: "nextRound E td c = Inr c' \<Longrightarrow> moves P E c c'"
  unfolding nextRound_def by (erule nextRoundWith_acts) (rule sendNewView_acts)

lemma sendVote_acts:
  assumes "sendVote E c h = Inr c'" and "voteChecked E c h"
  shows "moves P E c c'"
proof -
  let ?vote = "\<lambda>sig. \<lparr>Vote_Block = hashOf E h, Vote_View = Header_View h, Vote_Voter = cid c, Vote_Sig = sig\<rparr>"
  obtain leader sig s where leader: "leader \<in> set (replicas c)" and s: "SaveVoted E (store c) (Header_View h) = Inr s"
    and sig: "c_signer E [] (hashOf E h) = Inr sig"
    and own: "sendMsgWith (stepLeaf E) (NewVoteMsg (?vote sig)) (Some [leader])
        (c\<lparr>voted := Header_View h, store := s, votes := Votes_Start (blake2s E) (votes c) h\<rparr>) = Inr c'"
    using assms(1) unfolding sendVote_def by (auto simp: Let_def dest!: getLeader_member elim!: rbind_InrE)
  have "moves P E c (c\<lparr>voted := Header_View h, store := s, votes := Votes_Start (blake2s E) (votes c) h,
      progress := AddMessage (progress c) (NewVoteMsg (?vote sig)) (Some [leader])\<rparr>)"
    using move.vote [OF assms(2) s sig leader] by blast
  also have "moves P E \<dots> c'"
    using own by (auto simp: sendMsgWith_def Let_def elim!: rbind_InrE intro: stepLeaf_vote_acts split: if_splits)
  finally show ?thesis .
qed

subsection \<open>Proposals\<close>

lemma persistProposal_acts:
  assumes "persistProposal E c p = Inr c'" and "Proposal_Header p = Some h" and "Header_Size h < 2 ^ 63" and "P c h"
  shows "moves P E c c'" and "GetHeader E (store c') (hashOf E h) = Inr h"
    and "k \<noteq> hashOf E h \<Longrightarrow> GetHeader E (store c') k = GetHeader E (store c) k"
    and "voted c' = voted c \<and> view c' = view c \<and> locked c' = locked c"
proof -
  obtain data s1 s2 cert s where s1: "SaveHeader E (store c) h = Inr s1"
    and s2: "SaveData E s1 (hashOf E h) data = Inr s2" and s: "SaveCertificate E s2 cert = Inr s"
    and c': "c' = c\<lparr>store := s\<rparr>"
    using assms(1,2) unfolding persistProposal_def by (auto elim!: rbind_InrE)
  have "move P E c (c\<lparr>store := s1\<rparr>)" by (rule move.save_header [OF assms(3) _ s1]) (rule assms(4))
  moreover have "move P E (c\<lparr>store := s1\<rparr>) (c\<lparr>store := s2\<rparr>)"
    using move.save_data [where P = P, of E "c\<lparr>store := s1\<rparr>"] s2 by simp
  moreover have "move P E (c\<lparr>store := s2\<rparr>) (c\<lparr>store := s\<rparr>)"
    using move.save_cert [where P = P, of E "c\<lparr>store := s2\<rparr>"] s by simp
  ultimately show "moves P E c c'" unfolding c' by (meson r_into_rtranclp rtranclp_trans)
  show "GetHeader E (store c') (hashOf E h) = Inr h"
    using GetHeader_SaveHeader(2) [OF s1 assms(3)] GetHeader_SaveCertificate [OF s] GetHeader_SaveData [OF s2]
    by (simp add: c')
  show "k \<noteq> hashOf E h \<Longrightarrow> GetHeader E (store c') k = GetHeader E (store c) k"
    using GetHeader_SaveHeader(1) [OF s1] GetHeader_SaveCertificate [OF s] GetHeader_SaveData [OF s2]
    by (simp add: c')
  show "voted c' = voted c \<and> view c' = view c \<and> locked c' = locked c" by (simp add: c')
qed

lemma checkProposal_Accepted:
  assumes "checkProposal E c h cert tc sig = Inr (Accepted parent)"
  shows "Header_Parent h = Certificate_Block cert" and "certifiedBy E (Header_Parent h) (Certificate_Sig cert)"
    and "GetHeader E (store c) (Header_Parent h) = Inr parent"
    and "\<exists>leader. getLeader c (Header_View h) = Inr leader \<and> v_Verify (c_verifier E) leader (hashOf E h) sig"
    and "\<And>t. tc = Some t \<Longrightarrow>
      certifiedBy E (HashSum (blake2s E) (EncodeUint64 (Header_View h - 1))) (TimeoutCertificate_Sig t)"
  using assms unfolding checkProposal_def
  by (auto simp: verifyAggregated_def certifiedBy_def elim!: rbind_InrE split: if_splits sum.splits option.splits)

lemma lockCaughtUp_persist:
  assumes "lockCaughtUp E c h p" and "locked d = locked c"
    and "\<And>k. k \<noteq> hashOf E h \<Longrightarrow> GetHeader E (store d) k = GetHeader E (store c) k"
  shows "lockCaughtUp E d h p"
  using assms by (auto simp: lockCaughtUp_def)

lemma onProposal_cases:
  assumes "onProposal E c p = Inr c'" and h: "Proposal_Header p = Some h"
  obtains (rejected) "c' = c"
    | (missing) "c' = c\<lparr>progress := AddNotFound (progress c) (Header_ParentView h) (Header_Parent h)\<rparr>"
    | (accepted) cert parent c1 c2 c3 where
      "checkProposal E c h cert (Proposal_Timeout p) (Proposal_Sig p) = Inr (Accepted parent)"
      "updatePrepare E c parent cert = Inr c1" "syncView E c1 parent (Proposal_Timeout p) = Inr c2"
      "update E c2 parent = Inr c3"
      "(if Header_View h \<noteq> view c3 then Inr c3 else rbind (persistProposal E c3 p) (\<lambda>c.
         if Header_View h > voted c \<and> safeNode E c h then sendVote E c h else Inr c)) = Inr c'"
proof (cases "Proposal_ParentCert p")
  case None
  with assms rejected show ?thesis by (simp add: onProposal_def)
next
  case (Some cert)
  with assms obtain check where check: "checkProposal E c h cert (Proposal_Timeout p) (Proposal_Sig p) = Inr check"
    by (auto simp: onProposal_def elim!: rbind_InrE)
  note eq = assms(1) [unfolded onProposal_def h Some, simplified, unfolded check, simplified]
  show ?thesis
  proof (cases check)
    case Rejected
    with eq rejected show ?thesis by simp
  next
    case Missing
    with eq missing show ?thesis by simp
  next
    case (Accepted parent)
    with eq check accepted show ?thesis by (auto elim!: rbind_InrE)
  qed
qed

lemma persisted_vote_acts:
  assumes "persistProposal E c p = Inr d" and "(if Header_View h > voted d \<and> safeNode E d h then sendVote E d h else Inr d) = Inr c'"
    and h: "Proposal_Header p = Some h" "Header_Size h < 2 ^ 63" "P c h" and view: "Header_View h = view c"
    and par: "GetHeader E (store c) (Header_Parent h) = Inr parent" and lock: "lockCaughtUp E c h parent"
    and "certifiedBy E (Header_Parent h) asig"
    and lead: "getLeader c (Header_View h) = Inr l" "v_Verify (c_verifier E) l (hashOf E h) (Proposal_Sig p)"
  shows "moves P E c c'"
proof -
  note pers = persistProposal_acts [where P = P, OF assms(1) h]
  have lock': "lockCaughtUp E d h parent" using lockCaughtUp_persist [OF lock] pers(3,4) by blast
  have lead': "getLeader d (Header_View h) = Inr l" using lead(1) getLeader_acts [OF pers(1)] by simp
  have "moves P E d c'"
  proof (cases "Header_View h > voted d \<and> safeNode E d h")
    case True
    moreover from this have "voteChecked E d h"
      unfolding voteChecked_def using par pers lock' lead' lead(2) assms(9) view
      by (intro conjI exI [of _ l] exI [of _ parent] exI [of _ "Proposal_Sig p"] exI [of _ asig]) simp_all
    ultimately show ?thesis using assms(2) sendVote_acts by simp
  next
    case False
    then show ?thesis using assms(2) by auto
  qed
  with pers(1) show ?thesis by (rule acts_trans)
qed

lemma onProposal_acts:
  assumes "onProposal E c p = Inr c'" and "smallProposal p" and "pred_option (admits P E) (Proposal_Header p)"
  shows "moves P E c c'"
proof -
  obtain h where h: "Proposal_Header p = Some h" using assms(1) by (auto simp: onProposal_def elim!: rbind_InrE)
  have small: "Header_Size h < 2 ^ 63" and ok: "admits P E h" using assms(2,3) h by (simp_all add: smallProposal_def)
  show ?thesis
    using assms(1) h
  proof (cases rule: onProposal_cases)
    case missing
    then show ?thesis using move.signal [where P = P, of _ c _ E] by (auto simp: AddNotFound_def)
  next
    case (accepted cert parent c1 c2 c3)
    note chk = checkProposal_Accepted [OF accepted(1)]
    have par2: "GetHeader E (store c2) (Header_Parent h) = Inr parent"
      using chk(3) GetHeader_syncView [OF accepted(3)] GetHeader_updatePrepare [OF accepted(2)] by simp
    have "Header_View parent \<le> Header_View (prepare c2)"
      using blocks_updates(1) [OF accepted(2)] prepare_syncView [OF accepted(3)] by simp
    note upd = update_acts [OF accepted(4) par2 chk(2) this]
    have "moves P E c c1" using updatePrepare_acts [OF accepted(2)] chk(3) by blast
    also have "moves P E c1 c2" by (rule syncView_acts [OF accepted(3)])
    also have "moves P E c2 c3" by (rule upd(1))
    finally have c3: "moves P E c c3" .
    show ?thesis
    proof (cases "c' = c3")
      case False
      then obtain d where view: "Header_View h = view c3" and d: "persistProposal E c3 p = Inr d"
        and c': "(if Header_View h > voted d \<and> safeNode E d h then sendVote E d h else Inr d) = Inr c'"
        using accepted(5) by (auto elim!: rbind_InrE split: if_splits)
      have par: "GetHeader E (store c3) (Header_Parent h) = Inr parent" using par2 upd(2) by simp
      then have "P c3 h" using ok by (auto simp: admits_def)
      moreover obtain l where "getLeader c3 (Header_View h) = Inr l" "v_Verify (c_verifier E) l (hashOf E h) (Proposal_Sig p)"
        using chk(4) getLeader_acts [OF c3] by auto
      ultimately have "moves P E c3 c'" using persisted_vote_acts [OF d c' h small _ view par upd(3) chk(2)] by blast
      with c3 show ?thesis by (rule acts_trans)
    qed (simp add: c3)
  qed simp
qed

subsection \<open>The module's interface\<close>

lemma Step_moves:
  assumes "Step E msg c = Inr c'" and "messageOk P E c msg"
  shows "moves P E c c'"
proof (cases "Message_Type msg")
  case None
  then show ?thesis using assms(1) by (simp add: Step_def dispatch_def)
next
  case (Some payload)
  then show ?thesis
    using assms
    by (cases payload)
      (auto simp: Step_def dispatch_def messageOk_def onSync_def elim!: rbind_InrE
        intro: onProposal_acts onVote_acts onNewView_acts syncBlocks_acts)
qed

lemma Step_acts: "Step E msg c = Inr c' \<Longrightarrow> smallMessage msg \<Longrightarrow> acts E c c'"
  by (rule Step_moves [OF _ smallMessage_ok])

lemma Start_acts: "Start E c = Inr c' \<Longrightarrow> moves P E c c'"
  unfolding Start_def by (rule nextRound_acts)

lemma onTimeout_acts:
  assumes "onTimeout E c = Inr c'"
  shows "moves P E c c'"
proof -
  obtain s where s: "SaveView E (store c) (view c + 1) = Inr s"
    and c': "nextRound E True (c\<lparr>view := view c + 1, store := s, votes := Votes_Reset (votes c)\<rparr>) = Inr c'"
    using assms by (auto simp: onTimeout_def nextRound_def nextRound_new_view [symmetric] elim!: rbind_InrE)
  have "move P E c (c\<lparr>view := view c + 1, store := s, votes := Votes_Reset (votes c)\<rparr>)" by (rule move.enter_view [OF order_refl s])
  then show ?thesis using nextRound_acts [OF c'] by (rule converse_rtranclp_into_rtranclp)
qed

lemma Tick_acts:
  assumes "Tick E c = Inr c'"
  shows "moves P E c c'"
proof -
  let ?c1 = "c\<lparr>ticks := ticks c + 1\<rparr>"
  have "move P E c (c\<lparr>ticks := ticks c + 1, timeout := timeout c, waitingData := waitingData c\<rparr>)"
    by (rule move.clock)
  then have "moves P E c ?c1" by simp
  also have "moves P E ?c1 c'"
    using assms by (auto simp: Tick_def Let_def split: if_splits intro: onTimeout_acts)
  finally show ?thesis .
qed

lemma Send_moves:
  assumes "Send E state root data c = Inr c'" and "length state + length root < 2 ^ 62"
    and "admits P E (proposed E c state root)"
  shows "moves P E c c'"
proof (cases "waitingData c")
  case True
  let ?c1 = "c\<lparr>waitingData := False\<rparr>"
  let ?h = "proposed E c state root"
  let ?p = "\<lambda>sig. \<lparr>Proposal_Header = Some ?h, Proposal_Data = data, Proposal_Sig = sig,
    Proposal_ParentCert = Some (prepareCert c), Proposal_Timeout = timeoutCert c\<rparr>"
  obtain sig where "sendMsg E (NewProposalMsg (?p sig)) None ?c1 = Inr c'"
    using assms(1) True by (auto simp: Send_def Let_def elim!: rbind_InrE)
  then obtain p where p: "Proposal_Header p = Some ?h" and own: "sendMsg E (NewProposalMsg p) None ?c1 = Inr c'"
    using that [of "?p sig"] by simp
  let ?c2 = "?c1\<lparr>progress := AddMessage (progress c) (NewProposalMsg p) None\<rparr>"
  have "Header_Size ?h < 2 ^ 63"
    using assms(2) by (intro Header_Size_small) (simp_all add: Header_Hash_def hash_len)
  then have ok: "messageOk P E ?c2 (NewProposalMsg p)" using p assms(3) by (simp add: messageOk_def smallProposal_def msg_defs)
  have "move P E c (c\<lparr>ticks := ticks c, timeout := timeout c, waitingData := False\<rparr>)" by (rule move.clock)
  then have "moves P E c ?c1" by simp
  also have "moves P E ?c1 ?c2" using move.propose [where P = P, of p ?h ?c1 E] p by auto
  also have "moves P E ?c2 c'"
    by (rule Step_moves [OF _ ok]) (use own in \<open>simp add: sendMsg_def sendMsgWith_def\<close>)
  finally show ?thesis .
qed (use assms(1) in \<open>simp add: Send_def\<close>)

lemma Send_acts: "Send E state root data c = Inr c' \<Longrightarrow> length state + length root < 2 ^ 62 \<Longrightarrow> acts E c c'"
  by (rule Send_moves) (simp_all add: admits_def)

end

text \<open>
  An environment with the database in memory, for every hash function cut to 32 bytes, every
  signer and every verifier.
\<close>

definition memNode :: "hash \<Rightarrow> (bytes \<Rightarrow> bytes \<Rightarrow> bytes result) \<Rightarrow> Verifier \<Rightarrow> (bytes \<Rightarrow> bytes option) CEnv" where
  "memNode H sign V =
     \<lparr>ldb_Get = ldb_Get (memEnv H), ldb_Put = ldb_Put (memEnv H), blake2s = (\<lambda>x. copy32 (H x)),
      c_signer = sign, c_verifier = V\<rparr>"

interpretation memnode: replica "memNode H sign V" for H sign V
  by unfold_locales (auto simp: memNode_def memEnv_def)

end
