(* ===== verification/Durability.thy ===== *)
theory Durability
  imports Safety
begin

text \<open>
  The replica's invariant: the store agrees with the fields that a restart reads back, the
  vote collector is idle or collects for the header the replica voted for in its current
  view, and the new-view collector is idle or has a certificate to extend. The invariant
  holds after \<^verbatim>\<open>newConsensus\<close> and is kept by every action, hence by every method; a
  restart at any moment resumes from the same views and blocks.
\<close>

section \<open>The invariant\<close>

abbreviation known :: "('db, 'z) cenv \<Rightarrow> 'db \<Rightarrow> bytes \<Rightarrow> bool" where
  "known E s k \<equiv> a_headers (absOf E s) k \<noteq> None"

definition tagged :: "('db, 'z) cenv \<Rightarrow> 'db \<Rightarrow> Tag \<Rightarrow> Header \<Rightarrow> bool" where
  "tagged E s t h \<longleftrightarrow> a_tags (absOf E s) t = Some (hashOf E h) \<and> known E s (hashOf E h)"

definition persisted :: "('db, 'z) cenv \<Rightarrow> 'db consensus \<Rightarrow> bool" where
  "persisted E c \<longleftrightarrow>
     a_view (absOf E (store c)) = Some (view c) \<and> a_voted (absOf E (store c)) = Some (voted c) \<and>
     tagged E (store c) PrepareTag (prepare c) \<and> tagged E (store c) LockedTag (locked c) \<and>
     tagged E (store c) DecideTag (commit c)"

definition votesReady :: "('db, 'z) cenv \<Rightarrow> 'db consensus \<Rightarrow> bool" where
  "votesReady E c \<longleftrightarrow>
     (case vt_Cert (votes c) of
        None \<Rightarrow> vt_votes (votes c) = {||} \<and> vt_Header (votes c) = None
      | Some cert \<Rightarrow>
          (\<exists>h. vt_Header (votes c) = Some h \<and> Certificate_Block cert = hashOf E h \<and> Certificate_Sig cert \<noteq> None \<and>
             known E (store c) (hashOf E h) \<and> Header_View h = view c \<and> view c \<le> voted c))"

definition timeoutsReady :: "Timeouts \<Rightarrow> bool" where
  "timeoutsReady t \<longleftrightarrow> t_view t \<noteq> 0 \<longrightarrow> (\<exists>cert. t_Cert t = Some cert \<and> TimeoutCertificate_Sig cert \<noteq> None)"

definition replicaInv :: "('db, 'z) cenv \<Rightarrow> 'db consensus \<Rightarrow> bool" where
  "replicaInv E c \<longleftrightarrow> intact E (store c) \<and> persisted E c \<and> votesReady E c \<and> timeoutsReady (timeouts c)"

lemma replicaInv_progress [simp]: "replicaInv E (c\<lparr>progress := p\<rparr>) = replicaInv E c"
  by (simp add: replicaInv_def persisted_def votesReady_def split: option.split)

section \<open>The collectors\<close>

lemma Votes_Collect_fields:
  assumes "Votes_Collect V v m = Inr (b, v')"
  shows "vt_Header v' = vt_Header v" and "vt_Cert v = None \<Longrightarrow> v' = v"
    and "vt_Cert v = Some cert \<Longrightarrow> \<exists>cert'. vt_Cert v' = Some cert' \<and> Certificate_Block cert' = Certificate_Block cert \<and>
      (Certificate_Sig cert \<noteq> None \<longrightarrow> Certificate_Sig cert' \<noteq> None)"
  using assms by (auto simp: Votes_Collect_def Let_def rbind_Inr_iff split: option.splits if_splits)

lemma Timeouts_Collect_ready:
  "timeoutsReady t \<Longrightarrow> Timeouts_Collect H V t n = Inr (b, t') \<Longrightarrow> timeoutsReady t'"
  by (auto simp: Timeouts_Collect_def timeoutsReady_def Let_def rbind_Inr_iff split: if_splits)

lemma timeoutsReady_reset [simp]: "timeoutsReady (Timeouts_Reset t)"
  by (simp add: timeoutsReady_def Timeouts_Reset_def)

lemma timeoutsReady_start: "Timeouts_Start t v = Inr t' \<Longrightarrow> timeoutsReady t'"
  by (auto simp: timeoutsReady_def Timeouts_Start_def split: if_splits)

lemma act_timeoutsReady: "act E c c' \<Longrightarrow> timeoutsReady (timeouts c) \<Longrightarrow> timeoutsReady (timeouts c')"
  by (induction rule: move.induct) (simp_all add: timeoutsReady_start Timeouts_Collect_ready)

section \<open>Preservation\<close>

lemma tags_distinct [simp]:
  "PrepareTag \<noteq> LockedTag" "PrepareTag \<noteq> DecideTag" "LockedTag \<noteq> PrepareTag"
  "LockedTag \<noteq> DecideTag" "DecideTag \<noteq> PrepareTag" "DecideTag \<noteq> LockedTag"
  by (simp_all add: tag_defs)

lemma persisted_data: "absOf E s = (absOf E (store c))\<lparr>a_data := x\<rparr> \<Longrightarrow> persisted E (c\<lparr>store := s\<rparr>) = persisted E c"
  by (simp add: persisted_def tagged_def)

lemma persisted_certs: "absOf E s = (absOf E (store c))\<lparr>a_certs := x\<rparr> \<Longrightarrow> persisted E (c\<lparr>store := s\<rparr>) = persisted E c"
  by (simp add: persisted_def tagged_def)

context replica
begin

lemma act_persisted:
  "act E c c' \<Longrightarrow> intact E (store c) \<Longrightarrow> votesReady E c \<Longrightarrow> persisted E c \<Longrightarrow> persisted E c'"
proof (induction rule: move.induct)
  case (raise_prepare c h k s cert)
  have "known E (store c) (hashOf E h)"
    using raise_prepare.hyps(2) raise_prepare.prems(1,2)
    by (auto simp: GetHeader_abs intact_def votesReady_def split: option.splits)
  then show ?case
    using raise_prepare.prems SetTag_abs [OF raise_prepare.hyps(3)]
    by (simp add: persisted_def tagged_def)
next
  case (raise_locked c h k p asig s)
  have "known E (store c) (hashOf E h)"
    using raise_locked.hyps(5) intactD [OF raise_locked.prems(1)] by (auto simp: GetHeader_abs)
  then show ?case
    using raise_locked.prems SetTag_abs [OF raise_locked.hyps(6)]
    by (simp add: persisted_def tagged_def)
next
  case (raise_commit c h k p asig g s)
  have "known E (store c) (hashOf E h)"
    using raise_commit.hyps(5) intactD [OF raise_commit.prems(1)] by (auto simp: GetHeader_abs)
  then show ?case
    using raise_commit.prems SetTag_abs [OF raise_commit.hyps(8)]
    by (simp add: persisted_def tagged_def)
next
  case (enter_view c v s)
  then show ?case using SaveView_abs [OF enter_view.hyps(2)] by (simp add: persisted_def tagged_def)
next
  case (save_header h c s)
  then show ?case using SaveHeader_abs [OF save_header.hyps(3,1)] by (simp add: persisted_def tagged_def)
next
  case (save_data c k d s)
  then show ?case using persisted_data [OF SaveData_frame [OF save_data.hyps]] by simp
next
  case (save_cert c cert s)
  then show ?case using persisted_certs [OF SaveCertificate_frame [OF save_cert.hyps]] by simp
next
  case (vote c h s sig leader)
  then show ?case using SaveVoted_abs [OF vote.hyps(2)] by (simp add: persisted_def tagged_def)
next
  case (new_view c s sig leader)
  then show ?case using SaveVoted_abs [OF new_view.hyps(2)] by (simp add: persisted_def tagged_def)
qed (simp_all add: persisted_def)

text \<open>A known header stays known.\<close>

lemma act_known: "act E c c' \<Longrightarrow> known E (store c) k \<Longrightarrow> known E (store c') k"
proof (induction rule: move.induct)
  case (save_header h c s)
  then show ?case using SaveHeader_abs [OF save_header.hyps(3,1)] by simp
next
  case (save_data c x d s)
  then show ?case using GetHeader_SaveData [OF save_data.hyps, of k] by (simp add: absOf_def)
next
  case (save_cert c cert s)
  then show ?case using GetHeader_SaveCertificate [OF save_cert.hyps, of k] by (simp add: absOf_def)
qed (simp_all add: SetTag_abs SaveView_abs SaveVoted_abs)

lemma act_votesReady: "act E c c' \<Longrightarrow> votesReady E c \<Longrightarrow> votesReady E c'"
proof -
  assume act: "act E c c'" and ready: "votesReady E c"
  have same: "votesReady E c'" if "votes c' = votes c" "view c' = view c" "voted c \<le> voted c'"
    using ready that act_known [OF act] unfolding votesReady_def by (auto split: option.splits)
  have fresh: "votesReady E c'" if "votes c' = Votes_Reset v" for v
    using that by (simp add: votesReady_def Votes_Reset_def)
  note mono = act_grows [OF act, unfolded grows_def]
  from act show ?thesis
  proof cases
    case (votes_collect v b vs)
    then show ?thesis
      using ready Votes_Collect_fields [OF votes_collect(2)]
      by (cases "vt_Cert (votes c)") (auto simp: votesReady_def)
  next
    case (vote h s sig leader)
    then have "GetHeader E (store c) (hashOf E h) = Inr h" by (simp add: voteChecked_def)
    then have "known E (store c') (hashOf E h)" using act_known [OF act] by (simp add: GetHeader_abs)
    then show ?thesis using vote voteChecked_view [OF vote(2)] by (simp add: votesReady_def Votes_Start_def)
  qed (use same fresh mono in simp_all)
qed

lemma act_replicaInv: "act E c c' \<Longrightarrow> replicaInv E c \<Longrightarrow> replicaInv E c'"
  by (simp add: replicaInv_def act_intact act_persisted act_votesReady act_timeoutsReady)

lemma acts_replicaInv: "acts E c c' \<Longrightarrow> replicaInv E c \<Longrightarrow> replicaInv E c'"
  by (induction rule: rtranclp_induct) (auto intro: act_replicaInv)

section \<open>Starting and restarting\<close>

lemma newConsensus_fields:
  assumes "newConsensus E s i rs = Inr c"
  shows "a_view (absOf E s) = Some (view c)" and "a_voted (absOf E s) = Some (voted c)"
    and "GetTagHeader E s PrepareTag = Inr (prepare c)" and "GetTagHeader E s LockedTag = Inr (locked c)"
    and "GetTagHeader E s DecideTag = Inr (commit c)" and "GetTagCert E s PrepareTag = Inr (prepareCert c)"
    and "store c = s" and "cid c = i" and "replicas c = rs" and "progress c = Progress_zero"
    and "votes c = NewVotes (majorityOf rs)" and "timeouts c = NewTimeouts (majorityOf rs)"
  using assms by (auto simp: newConsensus_def absOf_def okNum_def elim!: rbind_InrE)

lemma tagged_load:
  assumes "intact E s" and "GetTagHeader E s t = Inr h" and "t \<in> set storeTags"
  shows "tagged E s t h"
proof -
  obtain k where "GetTag E s t = Inr k" and k: "GetHeader E s k = Inr h"
    using assms(2) by (auto simp: GetTagHeader_Inr_iff)
  moreover have "hashOf E h = k" by (rule intactD [OF assms(1) k])
  ultimately show ?thesis using assms(3) by (auto simp: tagged_def absOf_def)
qed

lemma load_tagged:
  assumes "tagged E s t h" and "t \<in> set storeTags" and "intact E s"
  obtains h' where "GetTagHeader E s t = Inr h'" and "hashOf E h' = hashOf E h"
proof -
  obtain h' where h': "GetHeader E s (hashOf E h) = Inr h'"
    using assms(1) by (auto simp: tagged_def GetHeader_abs)
  moreover have "GetTag E s t = Inr (hashOf E h)" using assms(1,2) by (simp add: tagged_def absOf_def)
  ultimately show thesis using that [of h'] intactD [OF assms(3) h'] by (auto simp: GetTagHeader_Inr_iff)
qed

lemma newConsensus_replicaInv:
  assumes "newConsensus E s i rs = Inr c" and "intact E s"
  shows "replicaInv E c"
  using newConsensus_fields [OF assms(1)] assms(2) tagged_load [OF assms(2)]
  by (simp add: replicaInv_def persisted_def votesReady_def timeoutsReady_def NewVotes_def NewTimeouts_def)

lemma GetView_absOf: "a_view (absOf E s) = Some v \<longleftrightarrow> GetView E s = Inr (Inr v)"
  by (auto simp: absOf_def okNum_def split: sum.splits)

lemma GetVoted_absOf: "a_voted (absOf E s) = Some v \<longleftrightarrow> GetVoted E s = Inr (Inr v)"
  by (auto simp: absOf_def okNum_def split: sum.splits)

text \<open>
  What \<^verbatim>\<open>newConsensus\<close> reads from the store of a replica that keeps its invariant: all but
  the certificate is there.
\<close>

lemma reload:
  assumes "replicaInv E c"
  obtains p l d where "newConsensus E (store c) i rs =
      rbind (orFatal (GetCertificate E (store c) (hashOf E (prepare c))) ''failed to load prepare certificate'') (\<lambda>pc.
      Inr \<lparr>store = store c, ticks = 0, timeout = 0, cid = i, replicas = rs,
        votes = NewVotes (majorityOf rs), timeouts = NewTimeouts (majorityOf rs),
        view = view c, voted = voted c, prepare = p, locked = l, commit = d, prepareCert = pc,
        timeoutCert = None, progress = Progress_zero, waitingData = False\<rparr>)"
    and "hashOf E p = hashOf E (prepare c)" "hashOf E l = hashOf E (locked c)" "hashOf E d = hashOf E (commit c)"
proof -
  have intact: "intact E (store c)" and pers: "persisted E c" using assms by (simp_all add: replicaInv_def)
  obtain p where p: "GetTagHeader E (store c) PrepareTag = Inr p" "hashOf E p = hashOf E (prepare c)"
    by (rule load_tagged [of "store c" PrepareTag]) (use intact pers in \<open>auto simp: persisted_def\<close>)
  obtain l where l: "GetTagHeader E (store c) LockedTag = Inr l" "hashOf E l = hashOf E (locked c)"
    by (rule load_tagged [of "store c" LockedTag]) (use intact pers in \<open>auto simp: persisted_def\<close>)
  obtain d where d: "GetTagHeader E (store c) DecideTag = Inr d" "hashOf E d = hashOf E (commit c)"
    by (rule load_tagged [of "store c" DecideTag]) (use intact pers in \<open>auto simp: persisted_def\<close>)
  have cert: "GetTagCert E (store c) PrepareTag = GetCertificate E (store c) (hashOf E (prepare c))"
    using pers by (auto simp: persisted_def tagged_def absOf_def GetTagCert_def)
  have views: "GetView E (store c) = Inr (Inr (view c))" "GetVoted E (store c) = Inr (Inr (voted c))"
    using pers by (simp_all add: persisted_def flip: GetView_absOf GetVoted_absOf)
  show thesis by (rule that [of p l d]) (simp_all add: newConsensus_def p l d cert views)
qed

text \<open>
  A restart succeeds exactly when the certificate of the highest certified block was stored,
  and resumes where the replica was.
\<close>

lemma restart:
  assumes "replicaInv E c" and "GetCertificate E (store c) (hashOf E (prepare c)) = Inr cert"
  shows "\<exists>c'. newConsensus E (store c) i rs = Inr c' \<and> view c' = view c \<and> voted c' = voted c \<and>
    hashOf E (prepare c') = hashOf E (prepare c) \<and> hashOf E (locked c') = hashOf E (locked c) \<and>
    hashOf E (commit c') = hashOf E (commit c) \<and> prepareCert c' = cert \<and> replicaInv E c'"
proof -
  obtain c' where c': "newConsensus E (store c) i rs = Inr c'" and "view c' = view c" "voted c' = voted c"
    "hashOf E (prepare c') = hashOf E (prepare c)" "hashOf E (locked c') = hashOf E (locked c)"
    "hashOf E (commit c') = hashOf E (commit c)" "prepareCert c' = cert"
    by (rule reload [OF assms(1), of i rs]) (simp add: assms(2))
  moreover have "intact E (store c)" using assms(1) by (simp add: replicaInv_def)
  ultimately show ?thesis using newConsensus_replicaInv [OF c'] by auto
qed

lemma restart_fails:
  assumes "replicaInv E c" and "a_certs (absOf E (store c)) (hashOf E (prepare c)) = None"
  shows "newConsensus E (store c) i rs = Inl (LogFatal ''failed to load prepare certificate'')"
proof -
  obtain e where "GetCertificate E (store c) (hashOf E (prepare c)) = Inl e"
    using assms(2) by (cases "GetCertificate E (store c) (hashOf E (prepare c))") (simp_all add: absOf_def)
  then show ?thesis by - (rule reload [OF assms(1), of i rs], simp)
qed

subsection \<open>The first start\<close>

lemma ImportGenesis_writes:
  assumes "ImportGenesis E s g = Inr (Inr s')" and h: "Block_Header g = Some h" and cert: "Block_Cert g = Some cert"
    and "GetHeader E s (hashOf E h) = Inl e"
  obtains s1 s2 d s3 s4 s5 s6 s7 where "SaveHeader E s h = Inr s1" "SaveCertificate E s1 cert = Inr s2"
    "SaveData E s2 (hashOf E h) d = Inr s3" "SaveView E s3 (Header_View h + 1) = Inr s4"
    "SaveVoted E s4 (Header_View h) = Inr s5" "SetTag E s5 PrepareTag (hashOf E h) = Inr s6"
    "SetTag E s6 LockedTag (hashOf E h) = Inr s7" "SetTag E s7 DecideTag (hashOf E h) = Inr s'"
  using assms by (auto simp: ImportGenesis_def ebind_Inr_Inr_iff Let_def elim!: rbind_InrE)

lemma ImportGenesis_abs:
  assumes "ImportGenesis E s g = Inr (Inr s')" and "Block_Header g = Some h" and "Block_Cert g = Some cert"
    and "GetHeader E s (hashOf E h) = Inl e" and "Header_Size h < 2 ^ 63"
    and "Certificate_Size cert < 2 ^ 63" and "Certificate_wf cert" and "Certificate_Block cert = hashOf E h"
  shows "a_view (absOf E s') = Some (Header_View h + 1)" and "a_voted (absOf E s') = Some (Header_View h)"
    and "t \<in> {PrepareTag, LockedTag, DecideTag} \<Longrightarrow> a_tags (absOf E s') t = Some (hashOf E h)"
    and "a_headers (absOf E s') = (a_headers (absOf E s))(hashOf E h \<mapsto> h)"
    and "a_certs (absOf E s') = (a_certs (absOf E s))(hashOf E h \<mapsto> cert)"
proof -
  obtain s1 s2 d s3 s4 s5 s6 s7 where w: "SaveHeader E s h = Inr s1" "SaveCertificate E s1 cert = Inr s2"
    "SaveData E s2 (hashOf E h) d = Inr s3" "SaveView E s3 (Header_View h + 1) = Inr s4"
    "SaveVoted E s4 (Header_View h) = Inr s5" "SetTag E s5 PrepareTag (hashOf E h) = Inr s6"
    "SetTag E s6 LockedTag (hashOf E h) = Inr s7" "SetTag E s7 DecideTag (hashOf E h) = Inr s'"
    by (rule ImportGenesis_writes [OF assms(1-4)])
  have d: "a_headers (absOf E s3) = a_headers (absOf E s2)" "a_certs (absOf E s3) = a_certs (absOf E s2)"
    using arg_cong [OF SaveData_frame [OF w(3)], of a_headers] arg_cong [OF SaveData_frame [OF w(3)], of a_certs]
    by simp_all
  note abs = SetTag_abs [OF w(8)] SetTag_abs [OF w(7)] SetTag_abs [OF w(6)] SaveVoted_abs [OF w(5)]
    SaveView_abs [OF w(4)] SaveCertificate_abs [OF w(2) assms(6,7)] SaveHeader_abs [OF w(1) assms(5)]
  show "a_view (absOf E s') = Some (Header_View h + 1)" and "a_voted (absOf E s') = Some (Header_View h)"
    and "t \<in> {PrepareTag, LockedTag, DecideTag} \<Longrightarrow> a_tags (absOf E s') t = Some (hashOf E h)"
    and "a_headers (absOf E s') = (a_headers (absOf E s))(hashOf E h \<mapsto> h)"
    and "a_certs (absOf E s') = (a_certs (absOf E s))(hashOf E h \<mapsto> cert)"
    using assms(8) by (auto simp: abs d)
qed

lemma ImportGenesis_start:
  assumes "ImportGenesis E s g = Inr (Inr s')" and "Block_Header g = Some h" and "Block_Cert g = Some cert"
    and "GetHeader E s (hashOf E h) = Inl e" and "Header_Size h < 2 ^ 63"
    and "Certificate_Size cert < 2 ^ 63" and "Certificate_wf cert" and "Certificate_Block cert = hashOf E h"
    and "intact E s"
  shows "\<exists>c. newConsensus E s' i rs = Inr c \<and> view c = Header_View h + 1 \<and> voted c = Header_View h \<and>
    prepare c = h \<and> locked c = h \<and> commit c = h \<and> prepareCert c = cert \<and> replicaInv E c"
proof -
  note abs = ImportGenesis_abs [OF assms(1-8)]
  have tag: "GetTag E s' t = Inr (hashOf E h)" if "t \<in> {PrepareTag, LockedTag, DecideTag}" for t
    using abs(3) [OF that] that by (auto simp: absOf_def split: if_splits)
  have hdr: "GetHeader E s' (hashOf E h) = Inr h" using abs(4) by (simp add: GetHeader_abs)
  have crt: "GetCertificate E s' (hashOf E h) = Inr cert"
    using fun_cong [OF abs(5), of "hashOf E h"] by (simp add: absOf_def)
  have intact: "intact E s'"
    using assms(9) abs(4) by (auto simp: intact_def GetHeader_abs split: if_splits)
  have views: "GetView E s' = Inr (Inr (Header_View h + 1))" "GetVoted E s' = Inr (Inr (Header_View h))"
    using abs(1,2) by (simp_all flip: GetView_absOf GetVoted_absOf)
  obtain c where c: "newConsensus E s' i rs = Inr c" and "view c = Header_View h + 1" "voted c = Header_View h"
    "prepare c = h" "locked c = h" "commit c = h" "prepareCert c = cert"
    by (simp add: newConsensus_def views GetTagHeader_def GetTagCert_def tag hdr crt)
  then show ?thesis using newConsensus_replicaInv [OF c intact] by blast
qed

end

end
