(* ===== verification/Totality.thy ===== *)
theory Totality
  imports Durability
begin

text \<open>
  Every method returns: while writes succeed and the signer signs digests, no message that
  has its required parts, no tick and no proposal of the application makes the replica
  panic or exit, and the collectors stay ready for the next call. The proofs use a small
  calculus of total correctness: \<open>runs m P\<close> says that the call \<open>m\<close> returns a value that
  satisfies \<open>P\<close>.
\<close>

section \<open>Total correctness\<close>

definition runs :: "'e + 'a \<Rightarrow> ('a \<Rightarrow> bool) \<Rightarrow> bool" where
  "runs m P \<longleftrightarrow> (\<exists>x. m = Inr x \<and> P x)"

named_theorems runs_intros \<open>calls that return\<close>

lemma runs_Inr [simp]: "runs (Inr x) P \<longleftrightarrow> P x"
  by (simp add: runs_def)

lemma runs_Inl [simp]: "\<not> runs (Inl e) P"
  by (simp add: runs_def)

lemma runs_rbind: "runs m Q \<Longrightarrow> (\<And>x. Q x \<Longrightarrow> runs (f x) P) \<Longrightarrow> runs (rbind m f) P"
  by (auto simp: runs_def)

lemma runs_weaken: "runs m Q \<Longrightarrow> (\<And>x. Q x \<Longrightarrow> P x) \<Longrightarrow> runs m P"
  by (auto simp: runs_def)

lemma runs_deref [simp]: "runs (deref p) P \<longleftrightarrow> (\<exists>x. p = Some x \<and> P x)"
  by (auto simp: runs_def)

lemma runs_orFatal: "runs m P \<Longrightarrow> runs (orFatal m msg) P"
  by (auto simp: runs_def)

section \<open>Readiness\<close>

definition votesSane :: "Votes \<Rightarrow> bool" where
  "votesSane v \<longleftrightarrow> (\<forall>cert. vt_Cert v = Some cert \<longrightarrow> Certificate_Sig cert \<noteq> None \<and> vt_Header v \<noteq> None)"

definition sane :: "'db consensus \<Rightarrow> bool" where
  "sane c \<longleftrightarrow> replicas c \<noteq> [] \<and> votesSane (votes c) \<and> timeoutsReady (timeouts c)"

lemma replicaInv_sane: "replicaInv E c \<Longrightarrow> replicas c \<noteq> [] \<Longrightarrow> sane c"
  by (auto simp: replicaInv_def votesReady_def sane_def votesSane_def split: option.splits)

lemma saneD: "sane c \<Longrightarrow> votesSane (votes c)" "sane c \<Longrightarrow> timeoutsReady (timeouts c)"
  by (simp_all add: sane_def)

lemma votesSane_Reset [simp]: "votesSane (Votes_Reset v)"
  by (simp add: votesSane_def Votes_Reset_def)

lemma votesSane_Start [simp]: "votesSane (Votes_Start H v h)"
  by (simp add: votesSane_def Votes_Start_def)

lemma sane_irrelevant [simp]:
  "sane (c\<lparr>ticks := a\<rparr>) = sane c" "sane (c\<lparr>timeout := a\<rparr>) = sane c" "sane (c\<lparr>store := s\<rparr>) = sane c"
  "sane (c\<lparr>view := a\<rparr>) = sane c" "sane (c\<lparr>voted := a\<rparr>) = sane c" "sane (c\<lparr>prepare := h\<rparr>) = sane c"
  "sane (c\<lparr>locked := h\<rparr>) = sane c" "sane (c\<lparr>commit := h\<rparr>) = sane c" "sane (c\<lparr>prepareCert := p\<rparr>) = sane c"
  "sane (c\<lparr>timeoutCert := q\<rparr>) = sane c" "sane (c\<lparr>progress := r\<rparr>) = sane c" "sane (c\<lparr>waitingData := w\<rparr>) = sane c"
  by (simp_all add: sane_def)

lemma sane_collectors [simp]:
  "sane c \<Longrightarrow> sane (c\<lparr>votes := v\<rparr>) = votesSane v" "sane c \<Longrightarrow> sane (c\<lparr>timeouts := t\<rparr>) = timeoutsReady t"
  by (simp_all add: sane_def)

section \<open>Calls that need no store\<close>

lemma runs_getLeader: "sane c \<Longrightarrow> runs (getLeader c v) (\<lambda>_. True)"
  by (simp add: getLeader_def sane_def)

lemma runs_Timeouts_Start: "runs (Timeouts_Start (Timeouts_Reset t) v) timeoutsReady"
  by (simp add: Timeouts_Start_def Timeouts_Reset_def timeoutsReady_def)

lemma runs_Timeouts_Collect:
  assumes "timeoutsReady t"
  shows "runs (Timeouts_Collect H V t n) (\<lambda>(q, t'). timeoutsReady t')"
proof -
  have "\<exists>r. Timeouts_Collect H V t n = Inr r"
    using assms by (auto simp: Timeouts_Collect_def timeoutsReady_def Let_def)
  then show ?thesis using Timeouts_Collect_ready [OF assms] by (auto simp: runs_def)
qed

lemma runs_Votes_Collect:
  assumes "votesSane v"
  shows "runs (Votes_Collect V v m) (\<lambda>(q, v'). votesSane v' \<and> (q \<longrightarrow> vt_Cert v' \<noteq> None))"
  using assms by (auto simp: Votes_Collect_def votesSane_def Let_def split: option.split)

lemma sane_enterView [simp]: "sane c \<Longrightarrow> sane (enterView c)"
  by (simp add: enterView_def resetTimeout_def Let_def split: option.split)

lemma sane_awaitData [simp]: "sane (awaitData c) = sane c"
  by (simp add: awaitData_def)

lemma runs_leaderTimeouts:
  assumes "sane c"
  shows "runs (leaderTimeouts c) sane"
  unfolding leaderTimeouts_def Let_def
proof (rule runs_rbind [OF runs_getLeader [OF assms]])
  fix l
  let ?c = "if cid c = l then c\<lparr>timeouts := Timeouts_Reset (timeouts c)\<rparr> else c"
  have c: "sane ?c" using assms by simp
  show "runs (rbind (getLeader ?c (view ?c + 1)) (\<lambda>l. if cid ?c = l
      then rbind (Timeouts_Start (Timeouts_Reset (timeouts ?c)) (view ?c)) (\<lambda>t. Inr (?c\<lparr>timeouts := t\<rparr>)) else Inr ?c)) sane"
    by (rule runs_rbind [OF runs_getLeader [OF c]])
      (use assms in \<open>auto intro!: runs_rbind [OF runs_Timeouts_Start]\<close>)
qed

lemma runs_nextRoundWith:
  assumes "sane c" and "\<And>d. td \<Longrightarrow> sane d \<Longrightarrow> runs (f d) sane"
  shows "runs (nextRoundWith f td c) sane"
  unfolding nextRoundWith_def
  by (rule runs_rbind [OF runs_leaderTimeouts])
    (use assms in \<open>auto intro: runs_rbind [OF runs_getLeader]\<close>)

lemma runs_nextRoundFalse: "sane c \<Longrightarrow> runs (nextRoundFalse c) sane"
  unfolding nextRoundFalse_def by (rule runs_nextRoundWith) simp_all

section \<open>Messages with their required parts\<close>

fun hasSig :: "Certificate \<Rightarrow> bool" where
  "hasSig cert = (Certificate_Sig cert \<noteq> None)"

definition wholeProposal :: "Proposal \<Rightarrow> bool" where
  "wholeProposal p \<longleftrightarrow> Proposal_Header p \<noteq> None \<and> Proposal_Data p \<noteq> None \<and>
     pred_option hasSig (Proposal_ParentCert p) \<and>
     pred_option (\<lambda>t. TimeoutCertificate_Sig t \<noteq> None) (Proposal_Timeout p)"

definition wholeMessage :: "Message \<Rightarrow> bool" where
  "wholeMessage m =
     (case Message_Type m of
        None \<Rightarrow> True
      | Some (Message_Proposal p) \<Rightarrow> (case p of None \<Rightarrow> False | Some p \<Rightarrow> wholeProposal p)
      | Some (Message_Vote v) \<Rightarrow> v \<noteq> None
      | Some (Message_Newview n) \<Rightarrow> (case n of None \<Rightarrow> False | Some n \<Rightarrow> NewView_Cert n \<noteq> None)
      | Some (Message_Sync s) \<Rightarrow>
          (case s of None \<Rightarrow> False | Some s \<Rightarrow> list_all (\<lambda>b. pred_option hasSig (Block_Cert b)) (Sync_Blocks s)))"

section \<open>An environment that does not fail\<close>

locale running = replica E for E :: "('db, 'z) CEnv_scheme" +
  assumes writes: "\<exists>s'. ldb_Put E s k v = Inr s'"
    and signs: "length m = 32 \<Longrightarrow> \<exists>sig. c_signer E dst m = Inr sig"
begin

lemma runs_dbPut: "runs (dbPut E s k v) (\<lambda>_. True)"
  using writes [of s k v] by (auto simp: dbPut_def)

lemma runs_saves:
  "runs (SetTag E s t x) (\<lambda>_. True)" "runs (SaveView E s v) (\<lambda>_. True)" "runs (SaveVoted E s v) (\<lambda>_. True)"
  "runs (SaveHeader E s h) (\<lambda>_. True)" "runs (SaveData E s k d) (\<lambda>_. True)" "runs (SaveCertificate E s y) (\<lambda>_. True)"
  by (simp_all add: SetTag_def SaveView_def SaveVoted_def SaveHeader_def SaveData_def SaveCertificate_def runs_dbPut)

lemmas runs_fatal = runs_saves [THEN runs_orFatal]

lemma runs_sign: "length m = 32 \<Longrightarrow> runs (c_signer E dst m) (\<lambda>_. True)"
  using signs by (auto simp: runs_def)

lemma runs_SaveBlock:
  "Block_Header b \<noteq> None \<Longrightarrow> Block_Cert b \<noteq> None \<Longrightarrow> Block_Data b \<noteq> None \<Longrightarrow>
    runs (SaveBlock E s b) (\<lambda>r. runs r (\<lambda>_. True))"
  using runs_saves unfolding SaveBlock_def runs_def
  by (auto simp: rbind_Inr_iff ebind_Inr_Inr_iff) (metis ebind.simps(3))

subsection \<open>The parts of the handlers\<close>

lemma runs_updatePrepare: "sane c \<Longrightarrow> runs (updatePrepare E c h cert) sane"
  unfolding updatePrepare_def by (auto intro!: runs_rbind [OF runs_fatal(1)])

lemma runs_updateLocked: "sane c \<Longrightarrow> runs (updateLocked E c h) sane"
  unfolding updateLocked_def by (auto intro!: runs_rbind [OF runs_fatal(1)])

lemma runs_updateCommit: "sane c \<Longrightarrow> runs (updateCommit E c p g h) sane"
  unfolding updateCommit_def by (auto intro!: runs_rbind [OF runs_fatal(1)])

lemma runs_update: "sane c \<Longrightarrow> runs (update E c p) sane"
  unfolding update_def
  by (auto intro!: runs_rbind [OF runs_updateLocked] runs_updateCommit split: sum.split)

lemma runs_jumpToView: "sane c \<Longrightarrow> runs (jumpToView E c v) sane"
  unfolding jumpToView_def by (rule runs_rbind [OF runs_fatal(2)]) (simp add: runs_nextRoundFalse)

lemma runs_syncView: "sane c \<Longrightarrow> runs (syncView E c h tc) sane"
  unfolding syncView_def by (auto intro: runs_jumpToView split: option.split)

lemma runs_verifyAggregated: "asig \<noteq> None \<Longrightarrow> runs (verifyAggregated E m asig) (\<lambda>_. True)"
  by (auto simp: verifyAggregated_def)

lemma runs_onVote:
  assumes "sane c"
  shows "runs (onVote E c v) sane"
proof -
  have quorum: "runs (rbind (orFatal (SaveCertificate E (store c) cert) msg) (\<lambda>s.
      rbind (deref (vt_Header vs)) (\<lambda>header.
      rbind (updatePrepare E (c\<lparr>votes := vs, store := s\<rparr>) header cert) (\<lambda>c.
      rbind (syncView E c header None) nextRoundFalse)))) sane"
    if coll: "votesSane vs" "vt_Cert vs = Some cert" for vs cert msg
  proof -
    obtain h where vs: "vt_Header vs = Some h" using coll by (auto simp: votesSane_def)
    show ?thesis
      by (simp add: vs, rule runs_rbind [OF runs_fatal(6)],
          rule runs_rbind [OF runs_updatePrepare], use assms coll in simp,
          rule runs_rbind [OF runs_syncView], assumption, erule runs_nextRoundFalse)
  qed
  show ?thesis
    unfolding onVote_def Let_def
    by (rule runs_rbind [OF runs_getLeader [OF assms]])
      (use assms quorum saneD in \<open>auto intro!: runs_rbind [OF runs_Votes_Collect]\<close>)
qed

lemma runs_onNewView:
  assumes "sane c" and "NewView_Cert n \<noteq> None"
  shows "runs (onNewView E c n) sane"
proof -
  have collected: "runs (rbind (Timeouts_Collect (blake2s E) (c_verifier E) (timeouts c) n) (\<lambda>(quorum, ts).
      let c = c\<lparr>timeouts := ts\<rparr>
      in if \<not> quorum then Inr c
         else let oldView = view c; c = c\<lparr>timeoutCert := t_Cert ts\<rparr>
           in rbind (syncView E c (prepare c) (t_Cert ts)) (\<lambda>c.
              if oldView = NewView_View n then nextRoundFalse c else Inr (awaitData c)))) sane"
    if "sane c" for c :: "'db consensus"
    by (rule runs_rbind [OF runs_Timeouts_Collect])
      (use that saneD in \<open>auto simp: Let_def intro!: runs_rbind [OF runs_syncView] runs_nextRoundFalse\<close>)
  show ?thesis
    unfolding onNewView_def
    by (rule runs_rbind [OF runs_getLeader [OF assms(1)]])
      (use assms in \<open>auto intro!: runs_rbind [OF runs_updatePrepare] collected split: sum.split\<close>)
qed

lemma runs_syncBlock:
  assumes "sane c" and "pred_option hasSig (Block_Cert b)"
  shows "runs (syncBlock E c b) (\<lambda>(valid, c'). sane c')"
proof (cases "\<exists>h cert d. Block_Header b = Some h \<and> Block_Cert b = Some cert \<and> Block_Data b = Some d")
  case True
  then obtain h cert d where b: "Block_Header b = Some h" "Block_Cert b = Some cert" "Block_Data b = Some d" by blast
  have sig: "Certificate_Sig cert \<noteq> None" using assms(2) b by simp
  have save: "runs (rbind (SaveBlock E (store c) b) (\<lambda>r. rbind (orFatal r msg) (\<lambda>s.
      rbind (updatePrepare E (c\<lparr>store := s\<rparr>) h cert) (\<lambda>c. rbind (update E c h) (\<lambda>c. Inr (True, c))))))
    (\<lambda>(valid, c'). sane c')" for msg
    by (rule runs_rbind [OF runs_SaveBlock], simp_all add: b, rule runs_rbind [OF runs_orFatal], assumption,
        rule runs_rbind [OF runs_updatePrepare], simp add: assms(1), rule runs_rbind [OF runs_update], simp_all)
  show ?thesis
    using assms(1) save
    by (auto simp: syncBlock_def b intro!: runs_rbind [OF runs_verifyAggregated [OF sig]])
next
  case False
  then show ?thesis using assms(1) by (auto simp: syncBlock_def split: option.split)
qed

lemma runs_syncBlocks:
  "sane c \<Longrightarrow> list_all (\<lambda>b. pred_option hasSig (Block_Cert b)) bs \<Longrightarrow> runs (syncBlocks E c bs) sane"
  by (induction bs arbitrary: c) (auto intro!: runs_rbind [OF runs_syncBlock])

subsection \<open>Sending\<close>

lemma runs_stepOwn: "(\<And>d. sane d \<Longrightarrow> runs (step d) sane) \<Longrightarrow> sane c \<Longrightarrow> runs (stepOwn step is c) sane"
proof (induction "is" arbitrary: c)
  case (Cons i "is")
  have "runs (if cid c = i then step c else Inr c) sane" using Cons.prems by simp
  then show ?case using Cons by (auto intro: runs_rbind)
qed simp

lemma runs_stepLeaf:
  "sane c \<Longrightarrow> runs (stepLeaf E (NewVoteMsg v) c) sane"
  "sane c \<Longrightarrow> NewView_Cert n \<noteq> None \<Longrightarrow> runs (stepLeaf E (NewViewMsg n) c) sane"
  by (simp_all add: stepLeaf_def dispatch_def msg_defs runs_onVote runs_onNewView)

lemma digest_lengths: "length (hashOf E h) = 32" "length (HashSum (blake2s E) x) = 32"
  by (simp_all add: Header_Hash_def HashSum_def hash_len)

lemma runs_sendNewView: "sane c \<Longrightarrow> runs (sendNewView E c) sane"
  unfolding sendNewView_def Let_def
  by (rule runs_rbind [OF runs_getLeader], assumption, rule runs_rbind [OF runs_sign], simp add: digest_lengths,
      rule runs_rbind [OF runs_fatal(3)])
    (auto simp: sendMsgWith_def Let_def simp del: stepOwn.simps intro!: runs_stepOwn runs_stepLeaf)

lemma runs_sendVote: "sane c \<Longrightarrow> runs (sendVote E c h) sane"
  unfolding sendVote_def Let_def
  by (rule runs_rbind [OF runs_fatal(3)], rule runs_rbind [OF runs_sign], simp add: digest_lengths,
      rule runs_rbind [OF runs_getLeader], simp)
    (auto simp: sendMsgWith_def Let_def simp del: stepOwn.simps intro!: runs_stepOwn runs_stepLeaf)

lemma runs_nextRound: "sane c \<Longrightarrow> runs (nextRound E td c) sane"
  unfolding nextRound_def by (rule runs_nextRoundWith) (simp_all add: runs_sendNewView)

subsection \<open>The module's interface\<close>

lemma runs_persistProposal:
  assumes "sane c" and "Proposal_Header p \<noteq> None" "Proposal_Data p \<noteq> None" "Proposal_ParentCert p \<noteq> None"
  shows "runs (persistProposal E c p) sane"
proof -
  obtain h d cert where p: "Proposal_Header p = Some h" "Proposal_Data p = Some d" "Proposal_ParentCert p = Some cert"
    using assms(2-4) by blast
  show ?thesis
    unfolding persistProposal_def
    by (simp add: p, rule runs_rbind [OF runs_fatal(4)], rule runs_rbind [OF runs_fatal(5)],
        rule runs_rbind [OF runs_fatal(6)]) (simp add: assms(1))
qed

lemma runs_checkProposal:
  assumes "sane c" and sig: "Certificate_Sig cert \<noteq> None" and "pred_option (\<lambda>t. TimeoutCertificate_Sig t \<noteq> None) tc"
  shows "runs (checkProposal E c h cert tc sg) (\<lambda>_. True)"
proof -
  have tc: "runs (case tc of None \<Rightarrow> Inr True | Some t \<Rightarrow> verifyAggregated E m (TimeoutCertificate_Sig t)) (\<lambda>_. True)" for m
    using assms(3) by (auto simp: runs_verifyAggregated split: option.split)
  show ?thesis
    unfolding checkProposal_def
    by (auto intro!: runs_rbind [OF runs_verifyAggregated [OF sig]] runs_rbind [OF tc]
        runs_rbind [OF runs_getLeader [OF assms(1)]] split: sum.split)
qed

lemma runs_onProposal:
  assumes "sane c" and "wholeProposal p"
  shows "runs (onProposal E c p) sane"
proof (cases "Proposal_ParentCert p")
  case None
  then show ?thesis using assms by (auto simp: onProposal_def wholeProposal_def)
next
  case (Some cert)
  obtain h where h: "Proposal_Header p = Some h" and data: "Proposal_Data p \<noteq> None"
    and cert: "Certificate_Sig cert \<noteq> None"
    and tc: "pred_option (\<lambda>t. TimeoutCertificate_Sig t \<noteq> None) (Proposal_Timeout p)"
    using assms(2) Some by (auto simp: wholeProposal_def)
  have vote: "runs (if Header_View h \<noteq> view d then Inr d else rbind (persistProposal E d p) (\<lambda>c.
      if Header_View h > voted c \<and> safeNode E c h then sendVote E c h else Inr c)) sane"
    if "sane d" for d
    using that h data Some by (auto intro!: runs_rbind [OF runs_persistProposal] runs_sendVote)
  have accepted: "runs (rbind (updatePrepare E c parent cert) (\<lambda>c. rbind (syncView E c parent t) (\<lambda>c.
      rbind (update E c parent) (\<lambda>d. if Header_View h \<noteq> view d then Inr d else rbind (persistProposal E d p) (\<lambda>c.
      if Header_View h > voted c \<and> safeNode E c h then sendVote E c h else Inr c))))) sane" for parent t
    by (rule runs_rbind [OF runs_updatePrepare [OF assms(1)]], rule runs_rbind [OF runs_syncView], assumption,
        rule runs_rbind [OF runs_update], assumption, rule vote)
  show ?thesis
    using assms(1) accepted
    by (auto simp: onProposal_def h Some intro!: runs_rbind [OF runs_checkProposal [OF assms(1) cert tc]]
        split: proposalCheck.split)
qed

lemma runs_Step: "sane c \<Longrightarrow> wholeMessage m \<Longrightarrow> runs (Step E m c) sane"
  unfolding Step_def dispatch_def wholeMessage_def
  by (auto simp: onSync_def intro: runs_onProposal runs_onVote runs_onNewView runs_syncBlocks
      split: option.splits Message_Type.splits)

lemma runs_Start: "sane c \<Longrightarrow> runs (Start E c) sane"
  unfolding Start_def by (rule runs_nextRound)

lemma runs_onTimeout: "sane c \<Longrightarrow> runs (onTimeout E c) sane"
  unfolding onTimeout_def by (rule runs_rbind [OF runs_fatal(2)]) (simp add: runs_nextRound)

lemma runs_Tick: "sane c \<Longrightarrow> runs (Tick E c) sane"
  unfolding Tick_def Let_def by (simp add: runs_onTimeout)

text \<open>A replica proposes with the certificates it holds, so these must have signatures.\<close>

lemma runs_Send:
  assumes "sane c" and "hasSig (prepareCert c)" and "pred_option (\<lambda>t. TimeoutCertificate_Sig t \<noteq> None) (timeoutCert c)"
  shows "runs (Send E state root (Some data) c) sane"
  using assms unfolding Send_def Let_def
  by (auto intro!: runs_rbind [OF runs_sign] runs_Step
      simp: digest_lengths sendMsg_def sendMsgWith_def Let_def wholeMessage_def wholeProposal_def msg_defs)

end

text \<open>The environment in memory, with the BLS signer, does not fail.\<close>

interpretation memrun: running "memNode H (BLS12381Signer_Sign B sk) V" for H B sk V
  by unfold_locales (auto simp: memNode_def memEnv_def BLS12381Signer_Sign_def)

section \<open>The time-out\<close>

lemma newTimeout_doubles:
  assumes "unat (view c - Header_View (prepare c)) < 62"
  shows "unat (newTimeout c) = 2 ^ unat (view c - Header_View (prepare c)) \<and>
    newTimeout (c\<lparr>view := view c + 1\<rparr>) = 2 * newTimeout c"
proof -
  let ?gap = "view c - Header_View (prepare c)"
  have next_gap: "unat (?gap + 1) = unat ?gap + 1" using assms by (simp add: unat_word_ariths(1))
  have small: "(2 :: nat) ^ unat ?gap < 2 ^ 64" using assms by (intro power_strict_increasing) simp_all
  have shift: "push_bit (unat ?gap) (1 :: uint64) = of_nat (2 ^ unat ?gap)" by (simp add: push_bit_eq_mult)
  have "unat (push_bit (unat ?gap) (1 :: uint64)) = 2 ^ unat ?gap"
    unfolding shift by (rule unat_of_nat_64 [OF small])
  moreover have "unat (view c + 1 - Header_View (prepare c)) = Suc (unat ?gap)"
    using next_gap by (simp add: add.commute add_diff_eq)
  ultimately show ?thesis by (simp add: newTimeout_def push_bit_eq_mult)
qed

lemma newTimeout_vanishes:
  assumes "64 \<le> unat (view c - Header_View (prepare c))" and "k < 2 ^ 64"
  shows "((\<lambda>r. rbind r (Tick E)) ^^ k) (Inr (resetTimeout c)) = Inr ((resetTimeout c)\<lparr>ticks := of_nat k\<rparr>)"
  using assms(2)
proof (induction k)
  case 0
  then show ?case by (simp add: resetTimeout_def)
next
  case (Suc k)
  have zero: "newTimeout c = 0" unfolding newTimeout_def by (rule bit_eqI) (use assms(1) in \<open>simp add: bit_simps\<close>)
  have "unat (of_nat k + 1 :: uint64) = Suc k"
    using Suc.prems unat_of_nat_64 [of "Suc k"] by (simp add: add.commute)
  then have "of_nat k + 1 \<noteq> (0 :: uint64)" by (metis nat.distinct(1) unat_0)
  then have "Tick E ((resetTimeout c)\<lparr>ticks := of_nat k\<rparr>) = Inr ((resetTimeout c)\<lparr>ticks := of_nat k + 1\<rparr>)"
    by (simp add: Tick_def resetTimeout_def zero)
  with Suc show ?case by (simp add: add.commute)
qed

end
