(* ===== verification/Quorums.thy ===== *)
theory Quorums
  imports Durability
begin

text \<open>
  The certificates a replica makes: while the verifier keeps its contract, what the vote
  and the new-view collector of a reachable replica hold is always an aggregate of verified
  signatures of different replicas, so that the certificate a leader attaches to its
  proposal is accepted by everybody who verifies it with the same keys.
\<close>

section \<open>What a view change keeps of the certificates\<close>

lemma durable_syncView:
  assumes "syncView E c h tc = Inr c'"
  shows "prepare c' = prepare c" and "prepareCert c' = prepareCert c"
  using assms
  by (auto simp: syncView_def jumpToView_def durable_def elim!: rbind_InrE
      dest!: durable_nextRoundFalse split: option.splits if_splits)

lemma timeoutCert_leaderTimeouts: "leaderTimeouts c = Inr c' \<Longrightarrow> timeoutCert c' = timeoutCert c"
  by (auto simp: leaderTimeouts_def Let_def elim!: rbind_InrE split: if_splits)

lemma timeoutCert_nextRoundFalse:
  assumes "nextRoundFalse c = Inr c'"
  shows "timeoutCert c' = None \<or> timeoutCert c' = timeoutCert c"
proof -
  obtain d where "leaderTimeouts (enterView c) = Inr d" and "timeoutCert c' = timeoutCert d"
    using assms by (auto simp: nextRoundFalse_def nextRoundWith_def awaitData_def elim!: rbind_InrE split: if_splits)
  moreover have "timeoutCert (enterView c) = None \<or> timeoutCert (enterView c) = timeoutCert c"
    by (simp add: enterView_def resetTimeout_def Let_def split: option.split)
  ultimately show ?thesis by (simp add: timeoutCert_leaderTimeouts)
qed

lemma timeoutCert_kept:
  assumes "nextRoundFalse c = Inr c'" and "timeoutCert c = Some tc" and "view c - 1 \<le> TimeoutCertificate_View tc"
  shows "timeoutCert c' = Some tc"
proof -
  obtain d where "leaderTimeouts (enterView c) = Inr d" and "timeoutCert c' = timeoutCert d"
    using assms(1) by (auto simp: nextRoundFalse_def nextRoundWith_def awaitData_def elim!: rbind_InrE split: if_splits)
  moreover have "timeoutCert (enterView c) = Some tc"
    using assms(2,3) by (simp add: enterView_def resetTimeout_def Let_def not_less)
  ultimately show ?thesis by (simp add: timeoutCert_leaderTimeouts)
qed

lemma timeoutCert_syncView:
  "syncView E c h tc = Inr c' \<Longrightarrow> timeoutCert c' = None \<or> timeoutCert c' = timeoutCert c"
  by (auto simp: syncView_def jumpToView_def elim!: rbind_InrE
      dest!: timeoutCert_nextRoundFalse split: option.splits if_splits)

section \<open>The collectors of a reachable replica\<close>

locale certifying = replica E + verifier "c_verifier E" majority good
  for E :: "('db, 'z) CEnv_scheme" and majority :: nat and good :: "bytes \<Rightarrow> AggregatedSignature \<Rightarrow> bool"
begin

definition collectorsOk :: "'db consensus \<Rightarrow> bool" where
  "collectorsOk c \<longleftrightarrow> votes.collecting (votes c) \<and> timeouts.collecting (blake2s E) (timeouts c) \<and>
     (\<forall>tc. t_Cert (timeouts c) = Some tc \<longrightarrow> TimeoutCertificate_View tc = t_view (timeouts c))"

lemma act_votes_collecting:
  assumes "act E c c'" and "votesReady E c" and "votes.collecting (votes c)"
  shows "votes.collecting (votes c')"
proof -
  have fresh: "votes.collecting v" if "vt_majority v = majority" "vt_votes v = {||}"
    "Votes_agg v = None \<or> Votes_agg v = Some AggregatedSignature_zero" for v
    using that by (rule votes.collecting_fresh)
  have need: "vt_majority (votes c) = majority" using assms(3) by (simp add: votes.collecting_def)
  have reset: "votes.collecting (Votes_Reset (votes c))"
    by (rule fresh) (simp_all add: need Votes_Reset_def Votes_agg_def)
  from assms(1) show ?thesis
  proof cases
    case (votes_collect v b vs)
    then show ?thesis using votes.collect_collecting [OF assms(3)] by auto
  next
    case (vote h s sig leader)
    have "vt_votes (votes c) = {||}"
      using assms(2) voteChecked_view [OF vote(2)] by (auto simp: votesReady_def split: option.splits)
    then have "votes.collecting (Votes_Start (blake2s E) (votes c) h)"
      by (intro fresh) (simp_all add: need Votes_Start_def Votes_agg_def)
    then show ?thesis using vote by simp
  qed (use reset assms(3) in simp_all)
qed

lemma act_timeouts_collecting:
  assumes "act E c c'" and "timeouts.collecting (blake2s E) (timeouts c)"
  shows "timeouts.collecting (blake2s E) (timeouts c')"
proof -
  have fresh: "timeouts.collecting (blake2s E) t" if "t_majority t = majority" "t_received t = {||}"
    "Timeouts_agg t = None \<or> Timeouts_agg t = Some AggregatedSignature_zero" for t
    using that by (rule timeouts.collecting_fresh)
  have need: "t_majority (timeouts c) = majority" using assms(2) by (simp add: timeouts.collecting_def)
  from assms(1) show ?thesis
  proof cases
    case timeouts_reset
    then show ?thesis using fresh [of "timeouts c'"] by (simp add: need Timeouts_Reset_def Timeouts_agg_def)
  next
    case (timeouts_start v t)
    then show ?thesis
      using fresh [of "timeouts c'"] by (auto simp: need Timeouts_Reset_def Timeouts_agg_def Timeouts_Start_def)
  next
    case (timeouts_collect n b t)
    then show ?thesis using timeouts.collect_collecting [OF assms(2)] by auto
  qed (use assms(2) in simp_all)
qed

lemma act_timeouts_view:
  assumes "act E c c'" and "\<forall>tc. t_Cert (timeouts c) = Some tc \<longrightarrow> TimeoutCertificate_View tc = t_view (timeouts c)"
  shows "\<forall>tc. t_Cert (timeouts c') = Some tc \<longrightarrow> TimeoutCertificate_View tc = t_view (timeouts c')"
  using assms(1)
proof cases
  case (timeouts_collect n b t)
  then show ?thesis
    using assms(2) by (auto simp: Timeouts_Collect_def Let_def elim!: rbind_InrE split: if_splits)
qed (use assms(2) in \<open>auto simp: Timeouts_Reset_def Timeouts_Start_def\<close>)

lemma acts_collectorsOk:
  "acts E c c' \<Longrightarrow> replicaInv E c \<Longrightarrow> collectorsOk c \<Longrightarrow> collectorsOk c'"
proof (induction rule: rtranclp_induct)
  case (step d d')
  have "votesReady E d" using acts_replicaInv [OF step(1) step.prems(1)] by (simp add: replicaInv_def)
  moreover have "collectorsOk d" by (rule step.IH [OF step.prems])
  ultimately show ?case
    unfolding collectorsOk_def
    by (intro conjI act_votes_collecting [OF step(2)] act_timeouts_collecting [OF step(2)] act_timeouts_view [OF step(2)])
      blast+
qed simp

lemma newConsensus_collectorsOk:
  assumes "newConsensus E s i rs = Inr c" and "majority = majorityOf rs"
  shows "collectorsOk c"
  unfolding collectorsOk_def newConsensus_fields(11,12) [OF assms(1)]
  by (intro conjI votes.collecting_fresh timeouts.collecting_fresh)
    (simp_all add: assms(2) NewVotes_def NewTimeouts_def Votes_agg_def Timeouts_agg_def)

section \<open>The certificates of a leader\<close>

text \<open>A certificate made by the vote collector certifies the block, with a quorum of voters.\<close>

lemma onVote_certificate:
  assumes "onVote E c v = Inr c'" and "replicaInv E c" and "collectorsOk c" and "prepare c' \<noteq> prepare c"
  shows "\<exists>a. prepareCert c' = \<lparr>Certificate_Block = hashOf E (prepare c'), Certificate_Sig = Some a\<rparr> \<and>
    v_VerifyAggregated (c_verifier E) (hashOf E (prepare c')) a \<and>
    distinct (AggregatedSignature_Voters a) \<and> majority \<le> length (AggregatedSignature_Voters a)"
proof -
  have "c' \<noteq> c" using assms(4) by auto
  then obtain vs cert s h c2 c3 where coll: "Votes_Collect (c_verifier E) (votes c) v = Inr (True, vs)"
    and cert: "vt_Cert vs = Some cert" and h: "vt_Header vs = Some h"
    and c2: "updatePrepare E (c\<lparr>votes := vs, store := s\<rparr>) h cert = Inr c2"
    and c3: "syncView E c2 h None = Inr c3" and c': "nextRoundFalse c3 = Inr c'"
    using assms(1,4) unfolding onVote_def by (auto simp: Let_def elim!: rbind_InrE split: if_splits)
  have "votesReady E c" using assms(2) by (simp add: replicaInv_def)
  then have block: "Certificate_Block cert = hashOf E h"
    using Votes_Collect_fields [OF coll] cert h
    by (cases "vt_Cert (votes c)") (auto simp: votesReady_def)
  have same: "prepare c' = prepare c2" "prepareCert c' = prepareCert c2"
    using durable_nextRoundFalse [OF c'] durable_syncView [OF c3] by (simp_all add: durable_def)
  then have new: "prepare c' = h" "prepareCert c' = cert"
    using c2 assms(4) by (auto simp: updatePrepare_def elim!: rbind_InrE split: if_splits)
  obtain a where "Votes_agg vs = Some a" "v_VerifyAggregated (c_verifier E) (Votes_topic vs) a"
    "distinct (AggregatedSignature_Voters a)" "majority \<le> length (AggregatedSignature_Voters a)"
    using votes.quorum_certified [OF _ coll] assms(3) by (auto simp: collectorsOk_def)
  then show ?thesis
    using new cert block by (intro exI [of _ a]) (simp add: Votes_agg_def Votes_topic_def)
qed

text \<open>A certificate made by the new-view collector certifies that a quorum gave the view up.\<close>

lemma onNewView_certificate:
  assumes "onNewView E c n = Inr c'" and "collectorsOk c" and "timeoutCert c' = Some tc" and "timeoutCert c \<noteq> Some tc"
  shows "\<exists>a. tc = \<lparr>TimeoutCertificate_View = NewView_View n, TimeoutCertificate_Sig = Some a\<rparr> \<and>
    v_VerifyAggregated (c_verifier E) (HashSum (blake2s E) (EncodeUint64 (NewView_View n))) a \<and>
    distinct (AggregatedSignature_Voters a) \<and> majority \<le> length (AggregatedSignature_Voters a)"
proof -
  have "c' \<noteq> c" using assms(3,4) by auto
  then obtain cert h c1 quorum ts where c1: "updatePrepare E c h cert = Inr c1"
    and coll: "Timeouts_Collect (blake2s E) (c_verifier E) (timeouts c1) n = Inr (quorum, ts)"
    and rest: "(if \<not> quorum then Inr (c1\<lparr>timeouts := ts\<rparr>)
      else rbind (syncView E (c1\<lparr>timeouts := ts, timeoutCert := t_Cert ts\<rparr>) (prepare c1) (t_Cert ts)) (\<lambda>d.
        if view c1 = NewView_View n then nextRoundFalse d else Inr (awaitData d))) = Inr c'"
    using assms(1) unfolding onNewView_def
    by (auto simp: Let_def elim!: rbind_InrE split: if_splits sum.splits)
  have same: "timeouts c1 = timeouts c" "timeoutCert c1 = timeoutCert c"
    using c1 by (auto simp: updatePrepare_def elim!: rbind_InrE split: if_splits)
  have q: "quorum" using rest same assms(3,4) by (cases quorum) auto
  obtain d where d: "syncView E (c1\<lparr>timeouts := ts, timeoutCert := t_Cert ts\<rparr>) (prepare c1) (t_Cert ts) = Inr d"
    and c': "(if view c1 = NewView_View n then nextRoundFalse d else Inr (awaitData d)) = Inr c'"
    using rest q by (auto elim!: rbind_InrE)
  have "timeoutCert c' = None \<or> timeoutCert c' = timeoutCert d"
    using c' timeoutCert_nextRoundFalse by (auto simp: awaitData_def split: if_splits)
  then have tc: "t_Cert ts = Some tc" using timeoutCert_syncView [OF d] assms(3) by auto
  have coll': "Timeouts_Collect (blake2s E) (c_verifier E) (timeouts c) n = Inr (True, ts)"
    using coll q same by simp
  obtain a where a: "Timeouts_agg ts = Some a" "v_VerifyAggregated (c_verifier E) (Timeouts_topic (blake2s E) ts) a"
    "distinct (AggregatedSignature_Voters a)" "majority \<le> length (AggregatedSignature_Voters a)"
    using timeouts.quorum_certified [OF _ coll'] assms(2) by (auto simp: collectorsOk_def)
  have "t_view ts = NewView_View n" "TimeoutCertificate_View tc = t_view ts"
    using coll' tc assms(2)
    by (auto simp: Timeouts_Collect_def collectorsOk_def Let_def elim!: rbind_InrE split: if_splits)
  then show ?thesis
    using a tc by (intro exI [of _ a]) (simp add: Timeouts_agg_def Timeouts_topic_def)
qed

end

text \<open>
  With the BLS verifier over the replicas' keys and the replica's own quorum size, the
  contract holds as soon as the signature scheme keeps its laws.
\<close>

lemma certifying_bls:
  assumes "replica E" and "bls B" and "c_verifier E = NewBLS12381Verifier B (majorityOf rs) pks"
  shows "certifying E (majorityOf rs) (bls_good B pks)"
  unfolding certifying_def assms(3)
  by (intro conjI assms(1) bls.bls_implements_verifier [OF assms(2)]) (simp add: majorityOf_def)

interpretation symnode: certifying "memNode H sign (NewBLS12381Verifier symBLS (majorityOf rs) pks)"
  "majorityOf rs" "bls_good symBLS pks" for H sign rs pks
  by (rule certifying_bls [OF memnode.replica_axioms symBLS.bls_axioms]) (simp add: memNode_def)

end
