(* ===== verification/Node.thy ===== *)
theory Node
  imports Totality Quorums
begin

text \<open>
  \<^verbatim>\<open>node.go\<close>: the node around the consensus module. Its event loop \<^verbatim>\<open>run\<close> hands the
  module's progress to the application over channels, one batch at a time, and feeds the
  module with messages, data and ticks. A channel of capacity one is a list of at most one
  element; a local channel variable of the loop, which is nil or the node's channel, is a
  flag. \<open>select\<close> performs one case of the loop's \<^verbatim>\<open>select\<close>; the case taken is the
  label, and a label that is not ready has no result. The labels of a run are its history.
\<close>

section \<open>Configuration\<close>

record 'pk Config =
  conf_ID :: 'pk
  conf_Replicas :: "'pk list"

record NodeData =
  nd_State :: bytes
  nd_Root :: bytes
  nd_Data :: "Data option"

datatype nodeErr = ErrStopped | ErrInterrupt

record 'db Node =
  n_consensus :: "'db consensus"
  n_received :: "Message list"
  n_deliver :: "MsgTo list list"
  n_send :: "NodeData list"
  n_blocks :: "BlockEvent list list"
  n_missing :: "BlockRef list list"
  n_waitingData :: "unit list"
  n_quit :: bool
  n_done :: bool
  n_startClosed :: bool
  n_startNil :: bool
  r_toSend :: "MsgTo list"
  r_toUpdate :: "BlockEvent list"
  r_toSync :: "BlockRef list"
  r_blocks :: bool
  r_messages :: bool
  r_waitingData :: bool
  r_missing :: bool

text \<open>The replica's own index: the last one that carries its key, and zero without one.\<close>

fun ownIndex :: "'pk \<Rightarrow> 'pk list \<Rightarrow> uint64 \<Rightarrow> uint64 \<Rightarrow> uint64" where
  "ownIndex own [] i rid = rid"
| "ownIndex own (r # rs) i rid = ownIndex own rs (i + 1) (if own = r then i else rid)"

definition replicaIds :: "'pk list \<Rightarrow> uint64 list" where
  "replicaIds rs = map of_nat [0..<length rs]"

definition nodeEnv :: "('sk, 'pk, 'sig) BLS \<Rightarrow> 'db Env \<Rightarrow> 'sk \<Rightarrow> 'pk Config \<Rightarrow> 'db CEnv" where
  "nodeEnv B E priv conf =
     \<lparr>ldb_Get = ldb_Get E, ldb_Put = ldb_Put E, blake2s = blake2s E,
      c_signer = BLS12381Signer_Sign B priv,
      c_verifier = NewBLS12381Verifier B (2 * length (conf_Replicas conf) div 3 + 1) (conf_Replicas conf)\<rparr>"

definition nodeOf :: "'db consensus \<Rightarrow> 'db Node" where
  "nodeOf c =
     \<lparr>n_consensus = c, n_received = [], n_deliver = [], n_send = [], n_blocks = [], n_missing = [],
      n_waitingData = [], n_quit = False, n_done = False, n_startClosed = False, n_startNil = False,
      r_toSend = [], r_toUpdate = [], r_toSync = [],
      r_blocks = False, r_messages = False, r_waitingData = False, r_missing = False\<rparr>"

definition NewNode :: "('sk, 'pk, 'sig) BLS \<Rightarrow> 'db Env \<Rightarrow> 'db \<Rightarrow> 'sk \<Rightarrow> 'pk Config \<Rightarrow> 'db Node result" where
  "NewNode B E s priv conf =
     rbind (newConsensus (nodeEnv B E priv conf) s
              (ownIndex (conf_ID conf) (conf_Replicas conf) 0 0) (replicaIds (conf_Replicas conf)))
       (\<lambda>c. Inr (nodeOf c))"

section \<open>Calls of the application\<close>

text \<open>
  \<^verbatim>\<open>Send\<close> and \<^verbatim>\<open>Step\<close> select among a cancelled context, a stopped node and room in the
  channel: the outcomes that are possible, and none while the call blocks.
\<close>

definition Node_Store :: "'db Node \<Rightarrow> 'db" where
  "Node_Store n = store (n_consensus n)"

definition Node_Send :: "bool \<Rightarrow> NodeData \<Rightarrow> 'db Node \<Rightarrow> (nodeErr option \<times> 'db Node) list" where
  "Node_Send ctxDone data n =
     (if ctxDone then [(Some ErrInterrupt, n)] else []) @
     (if n_quit n then [(Some ErrStopped, n)] else []) @
     (if length (n_send n) < 1 then [(None, n\<lparr>n_send := n_send n @ [data]\<rparr>)] else [])"

definition Node_Step :: "bool \<Rightarrow> Message \<Rightarrow> 'db Node \<Rightarrow> (nodeErr option \<times> 'db Node) list" where
  "Node_Step ctxDone msg n =
     (if ctxDone then [(Some ErrInterrupt, n)] else []) @
     (if n_quit n then [(Some ErrStopped, n)] else []) @
     (if length (n_received n) < 1 then [(None, n\<lparr>n_received := n_received n @ [msg]\<rparr>)] else [])"

text \<open>Closing a closed channel panics.\<close>

definition Node_Start :: "'db Node \<Rightarrow> 'db Node result" where
  "Node_Start n = (if n_startClosed n then Inl (PanicMsg ''close of closed channel'') else Inr (n\<lparr>n_startClosed := True\<rparr>))"

definition Node_Close :: "'db Node \<Rightarrow> 'db Node result" where
  "Node_Close n = (if n_quit n then Inl (PanicMsg ''close of closed channel'') else Inr (n\<lparr>n_quit := True\<rparr>))"

section \<open>The event loop\<close>

text \<open>Once everything handed out before is consumed, the module's progress is taken over.\<close>

definition takeProgress :: "'db Node \<Rightarrow> 'db Node" where
  "takeProgress n =
     (if \<not> r_missing n \<and> \<not> r_waitingData n \<and> \<not> r_blocks n \<and> \<not> r_messages n then
        let progress = progress (n_consensus n);
            n = (if 0 < length (Messages progress) then n\<lparr>r_toSend := Messages progress, r_messages := True\<rparr> else n);
            n = (if 0 < length (Events progress) then n\<lparr>r_toUpdate := Events progress, r_blocks := True\<rparr> else n);
            n = (if Progress_WaitingData progress then n\<lparr>r_waitingData := True\<rparr> else n);
            n = (if 0 < length (NotFound progress) then n\<lparr>r_missing := True, r_toSync := NotFound progress\<rparr> else n)
        in n\<lparr>n_consensus := (n_consensus n)\<lparr>progress := Progress_Reset progress\<rparr>\<rparr>
      else n)"

datatype event =
    Started
  | Received Message
  | DataSent NodeData
  | Ticked
  | Waiting
  | MissingOut "BlockRef list"
  | Delivered "MsgTo list"
  | BlocksOut "BlockEvent list"
  | Quit

definition withConsensus :: "'db Node \<Rightarrow> 'db consensus result \<Rightarrow> 'db Node result" where
  "withConsensus n r = rbind r (\<lambda>c. Inr (n\<lparr>n_consensus := c\<rparr>))"

definition select :: "('db, 'z) cenv \<Rightarrow> event \<Rightarrow> 'db Node \<Rightarrow> 'db Node result option" where
  "select E e n =
     (case e of
        Started \<Rightarrow>
          if n_startClosed n \<and> \<not> n_startNil n
          then Some (withConsensus (n\<lparr>n_startNil := True\<rparr>) (Start E (n_consensus n))) else None
      | Received msg \<Rightarrow>
          (case n_received n of
             m # rest \<Rightarrow> if m = msg then Some (withConsensus (n\<lparr>n_received := rest\<rparr>) (Step E msg (n_consensus n))) else None
           | [] \<Rightarrow> None)
      | DataSent data \<Rightarrow>
          (case n_send n of
             d # rest \<Rightarrow>
               if d = data
               then Some (withConsensus (n\<lparr>n_send := rest\<rparr>)
                      (Send E (nd_State data) (nd_Root data) (nd_Data data) (n_consensus n)))
               else None
           | [] \<Rightarrow> None)
      | Ticked \<Rightarrow> Some (withConsensus n (Tick E (n_consensus n)))
      | Waiting \<Rightarrow>
          if r_waitingData n \<and> length (n_waitingData n) < 1
          then Some (Inr (n\<lparr>n_waitingData := n_waitingData n @ [()], r_waitingData := False\<rparr>)) else None
      | MissingOut refs \<Rightarrow>
          if r_missing n \<and> length (n_missing n) < 1 \<and> refs = r_toSync n
          then Some (Inr (n\<lparr>n_missing := n_missing n @ [refs], r_missing := False\<rparr>)) else None
      | Delivered ms \<Rightarrow>
          if r_messages n \<and> length (n_deliver n) < 1 \<and> ms = r_toSend n
          then Some (Inr (n\<lparr>n_deliver := n_deliver n @ [ms], r_toSend := [], r_messages := False\<rparr>)) else None
      | BlocksOut bs \<Rightarrow>
          if r_blocks n \<and> length (n_blocks n) < 1 \<and> bs = r_toUpdate n
          then Some (Inr (n\<lparr>n_blocks := n_blocks n @ [bs], r_toUpdate := [], r_blocks := False\<rparr>)) else None
      | Quit \<Rightarrow> if n_quit n then Some (Inr (n\<lparr>n_done := True\<rparr>)) else None)"

text \<open>One iteration of the loop, until it returns.\<close>

definition iterate :: "('db, 'z) cenv \<Rightarrow> event \<Rightarrow> 'db Node \<Rightarrow> 'db Node result option" where
  "iterate E e n = (if n_done n then None else select E e (takeProgress n))"

text \<open>What the application does between two iterations.\<close>

inductive call :: "'db Node \<Rightarrow> 'db Node \<Rightarrow> bool" where
  send: "(err, n') \<in> set (Node_Send ctxDone data n) \<Longrightarrow> call n n'"
| step: "(err, n') \<in> set (Node_Step ctxDone msg n) \<Longrightarrow> call n n'"
| start: "Node_Start n = Inr n' \<Longrightarrow> call n n'"
| close: "Node_Close n = Inr n' \<Longrightarrow> call n n'"
| ready: "n_waitingData n = x # rest \<Longrightarrow> call n (n\<lparr>n_waitingData := rest\<rparr>)"
| blocks: "n_blocks n = x # rest \<Longrightarrow> call n (n\<lparr>n_blocks := rest\<rparr>)"
| messages: "n_deliver n = x # rest \<Longrightarrow> call n (n\<lparr>n_deliver := rest\<rparr>)"
| missing: "n_missing n = x # rest \<Longrightarrow> call n (n\<lparr>n_missing := rest\<rparr>)"

text \<open>
  The runs of a node whose application behaves as \<open>app\<close> says, with the cases its loop took.
\<close>

inductive run :: "('db, 'z) cenv \<Rightarrow> ('db Node \<Rightarrow> 'db Node \<Rightarrow> bool) \<Rightarrow> 'db Node \<Rightarrow> event list \<Rightarrow> 'db Node \<Rightarrow> bool"
  for E app where
  here: "run E app n [] n"
| called: "run E app n tr m \<Longrightarrow> app m m' \<Longrightarrow> run E app n tr m'"
| looped: "run E app n tr m \<Longrightarrow> iterate E e m = Some (Inr m') \<Longrightarrow> run E app n (tr @ [e]) m'"

text \<open>An application that never reads \<^verbatim>\<open>Missing()\<close>, as the one in \<^verbatim>\<open>hotstuff-node/main.go\<close>.\<close>

definition callUnread :: "'db Node \<Rightarrow> 'db Node \<Rightarrow> bool" where
  "callUnread n n' \<longleftrightarrow> call n n' \<and> n_missing n' = n_missing n"

end
