(* ===== verification/Streams.thy ===== *)
theory Streams
  imports Node
begin

text \<open>
  What an application sees of a node over a whole run: the event loop loses, repeats and
  reorders nothing of what the consensus module emits, so the module's guarantees hold of
  the concatenation of everything delivered. The exception is the list of missing blocks,
  which \<^verbatim>\<open>Progress.Reset\<close> never clears.
\<close>

section \<open>The streams of a run\<close>

fun delivered :: "event list \<Rightarrow> MsgTo list" where
  "delivered [] = []"
| "delivered (Delivered ms # tr) = ms @ delivered tr"
| "delivered (e # tr) = delivered tr"

fun announced :: "event list \<Rightarrow> BlockEvent list" where
  "announced [] = []"
| "announced (BlocksOut bs # tr) = bs @ announced tr"
| "announced (e # tr) = announced tr"

lemma delivered_append [simp]: "delivered (tr @ tr') = delivered tr @ delivered tr'"
  by (induction tr rule: delivered.induct) simp_all

lemma announced_append [simp]: "announced (tr @ tr') = announced tr @ announced tr'"
  by (induction tr rule: announced.induct) simp_all

text \<open>What is on its way: taken over by the loop, or still with the module.\<close>

definition outbox :: "'db Node \<Rightarrow> MsgTo list" where
  "outbox n = r_toSend n @ Messages (progress (n_consensus n))"

definition newsbox :: "'db Node \<Rightarrow> BlockEvent list" where
  "newsbox n = r_toUpdate n @ Events (progress (n_consensus n))"

definition loopInv :: "'db Node \<Rightarrow> bool" where
  "loopInv n \<longleftrightarrow> (\<not> r_messages n \<longrightarrow> r_toSend n = []) \<and> (\<not> r_blocks n \<longrightarrow> r_toUpdate n = [])"

text \<open>Inputs that fit in memory.\<close>

fun smallEvent :: "event \<Rightarrow> bool" where
  "smallEvent (Received msg) = smallMessage msg"
| "smallEvent (DataSent d) = (length (nd_State d) + length (nd_Root d) < 2 ^ 62)"
| "smallEvent e = True"

section \<open>One iteration\<close>

lemma takeProgress_loop:
  assumes "loopInv n"
  shows "loopInv (takeProgress n)" and "outbox (takeProgress n) = outbox n" and "newsbox (takeProgress n) = newsbox n"
  using assms by (auto simp: takeProgress_def loopInv_def outbox_def newsbox_def Progress_Reset_def Let_def)

lemma takeProgress_consensus: "\<exists>p. n_consensus (takeProgress n) = (n_consensus n)\<lparr>progress := p\<rparr>"
proof (cases "\<not> r_missing n \<and> \<not> r_waitingData n \<and> \<not> r_blocks n \<and> \<not> r_messages n")
  case True
  then show ?thesis
    by (intro exI [of _ "Progress_Reset (progress (n_consensus n))"]) (simp add: takeProgress_def Let_def)
next
  case False
  then have "takeProgress n = n" by (auto simp: takeProgress_def)
  then show ?thesis by (intro exI [of _ "progress (n_consensus n)"]) simp
qed

lemma call_consensus:
  assumes "call n n'"
  shows "n_consensus n' = n_consensus n" and "loopInv n' = loopInv n" and "outbox n' = outbox n" and "newsbox n' = newsbox n"
  using assms
  by (cases rule: call.cases;
      auto simp: Node_Send_def Node_Step_def Node_Start_def Node_Close_def loopInv_def outbox_def newsbox_def
        split: if_splits)+

definition finalHeaders :: "BlockEvent list \<Rightarrow> Header list" where
  "finalHeaders bs = map BlockEvent_Header (filter BlockEvent_Finalized bs)"

lemma finalHeaders_append [simp]: "finalHeaders (xs @ ys) = finalHeaders xs @ finalHeaders ys"
  by (simp add: finalHeaders_def)

lemma acts_events: "acts E c c' \<Longrightarrow> \<exists>bs. Events (progress c') = Events (progress c) @ bs"
proof (induction rule: rtranclp_induct)
  case (step d d')
  have "\<exists>bs. Events (progress d') = Events (progress d) @ bs"
    using step(2) by cases (auto simp: AddHeader_def AddMessage_def)
  with step.IH show ?case by auto
qed simp

lemma withConsensus_Inr:
  "withConsensus n r = Inr n' \<longleftrightarrow> (\<exists>c. r = Inr c \<and> n' = n\<lparr>n_consensus := c\<rparr>)"
  by (auto simp: withConsensus_def rbind_Inr_iff)

context replica
begin

text \<open>A case of the loop runs the module, or hands one batch out.\<close>

lemma select_cases:
  assumes "select E e n = Some (Inr n')" and "smallEvent e"
  shows "acts E (n_consensus n) (n_consensus n')"
    and "loopInv n \<Longrightarrow> loopInv n'"
    and "delivered [e] @ r_toSend n' = r_toSend n" and "announced [e] @ r_toUpdate n' = r_toUpdate n"
  using assms
  by (cases e;
      auto simp: select_def withConsensus_Inr loopInv_def split: if_splits list.splits
        intro: Start_acts Step_acts Send_acts Tick_acts)+

lemma iterate_streams:
  assumes "iterate E e n = Some (Inr n')" and "smallEvent e" and "loopInv n" and "replicaInv E (n_consensus n)"
  shows "loopInv n'" and "replicaInv E (n_consensus n')"
    and "\<exists>ms. delivered [e] @ outbox n' = outbox n @ ms \<and>
      ascends (voted (n_consensus n)) (commitments ms) (voted (n_consensus n'))"
    and "\<exists>bs. announced [e] @ newsbox n' = newsbox n @ bs \<and>
      ascends (Header_View (commit (n_consensus n))) (map Header_View (finalHeaders bs))
        (Header_View (commit (n_consensus n'))) \<and> list_all (threeChain E) (finalHeaders bs)"
proof -
  let ?n = "takeProgress n"
  have sel: "select E e ?n = Some (Inr n')" using assms(1) by (auto simp: iterate_def split: if_splits)
  note sel = select_cases [OF sel assms(2)] and taken = takeProgress_loop [OF assms(3)]
  obtain p where c: "n_consensus ?n = (n_consensus n)\<lparr>progress := p\<rparr>" using takeProgress_consensus by blast
  then have inv: "replicaInv E (n_consensus ?n)" using assms(4) by simp
  show "loopInv n'" using sel(2) taken(1) by blast
  show "replicaInv E (n_consensus n')" using acts_replicaInv [OF sel(1) inv] .
  obtain ms where "emits (n_consensus ?n) ms (n_consensus n')"
    "ascends (voted (n_consensus n)) (commitments ms) (voted (n_consensus n'))"
    using acts_emits [OF sel(1)] by (auto simp: c)
  then show "\<exists>ms. delivered [e] @ outbox n' = outbox n @ ms \<and>
      ascends (voted (n_consensus n)) (commitments ms) (voted (n_consensus n'))"
    using sel(3) taken(2) by (intro exI [of _ ms]) (simp add: outbox_def emits_def flip: append_assoc)
  obtain bs where bs: "Events (progress (n_consensus n')) = Events (progress (n_consensus ?n)) @ bs"
    using acts_events [OF sel(1)] by blast
  obtain hs where hs: "finalized (progress (n_consensus n')) = finalized (progress (n_consensus ?n)) @ hs"
    "ascends (Header_View (commit (n_consensus n))) (map Header_View hs) (Header_View (commit (n_consensus n')))"
    "list_all (threeChain E) hs"
    using acts_finalizes [OF sel(1)] inv by (auto simp: c replicaInv_def)
  have "hs = finalHeaders bs" using bs hs(1) by (simp add: finalized_def finalHeaders_def)
  then show "\<exists>bs. announced [e] @ newsbox n' = newsbox n @ bs \<and>
      ascends (Header_View (commit (n_consensus n))) (map Header_View (finalHeaders bs))
        (Header_View (commit (n_consensus n'))) \<and> list_all (threeChain E) (finalHeaders bs)"
    using sel(4) taken(3) bs hs by (intro exI [of _ bs]) (simp add: newsbox_def flip: append_assoc)
qed

section \<open>Whole runs\<close>

lemma run_streams:
  assumes "run E call n tr n'" and "list_all smallEvent tr" and "loopInv n" and "replicaInv E (n_consensus n)"
  shows "loopInv n' \<and> replicaInv E (n_consensus n') \<and>
    (\<exists>ms. delivered tr @ outbox n' = outbox n @ ms \<and>
      ascends (voted (n_consensus n)) (commitments ms) (voted (n_consensus n'))) \<and>
    (\<exists>bs. announced tr @ newsbox n' = newsbox n @ bs \<and>
      ascends (Header_View (commit (n_consensus n))) (map Header_View (finalHeaders bs))
        (Header_View (commit (n_consensus n'))) \<and> list_all (threeChain E) (finalHeaders bs))"
  using assms
proof (induction rule: run.induct)
  case (here n)
  then show ?case by (auto simp: finalHeaders_def)
next
  case (called n tr m m')
  then show ?case by (simp add: call_consensus [OF called.hyps(2)])
next
  case (looped n tr m e m')
  then obtain ms bs where inv: "loopInv m" "replicaInv E (n_consensus m)"
    and ms: "delivered tr @ outbox m = outbox n @ ms"
      "ascends (voted (n_consensus n)) (commitments ms) (voted (n_consensus m))"
    and bs: "announced tr @ newsbox m = newsbox n @ bs" "list_all (threeChain E) (finalHeaders bs)"
      "ascends (Header_View (commit (n_consensus n))) (map Header_View (finalHeaders bs)) (Header_View (commit (n_consensus m)))"
    by auto
  have e: "smallEvent e" using looped.prems by simp
  note it = iterate_streams [OF looped.hyps(2) e inv]
  obtain ms' where ms': "delivered [e] @ outbox m' = outbox m @ ms'"
    "ascends (voted (n_consensus m)) (commitments ms') (voted (n_consensus m'))" using it(3) by blast
  obtain bs' where bs': "announced [e] @ newsbox m' = newsbox m @ bs'" "list_all (threeChain E) (finalHeaders bs')"
    "ascends (Header_View (commit (n_consensus m))) (map Header_View (finalHeaders bs')) (Header_View (commit (n_consensus m')))"
    using it(4) by blast
  have "delivered (tr @ [e]) @ outbox m' = outbox n @ (ms @ ms')"
    using ms(1) ms'(1) by (metis append_assoc delivered_append)
  moreover have "announced (tr @ [e]) @ newsbox m' = newsbox n @ (bs @ bs')"
    using bs(1) bs'(1) by (metis append_assoc announced_append)
  ultimately show ?case
    using it(1,2) ascends_trans [OF ms(2) ms'(2)] ascends_trans [OF bs(3) bs'(3)] bs(2) bs'(2)
    by (intro conjI exI [of _ "ms @ ms'"] exI [of _ "bs @ bs'"]) simp_all
qed

end

section \<open>Missing blocks\<close>

lemma acts_notFound: "acts E c c' \<Longrightarrow> \<exists>refs. NotFound (progress c') = NotFound (progress c) @ refs"
proof (induction rule: rtranclp_induct)
  case (step d d')
  have "\<exists>refs. NotFound (progress d') = NotFound (progress d) @ refs"
    using step(2) by cases (auto simp: AddHeader_def AddMessage_def)
  with step.IH show ?case by auto
qed simp

fun isDelivery :: "event \<Rightarrow> bool" where
  "isDelivery (Delivered ms) = True"
| "isDelivery e = False"

text \<open>
  The deliveries a node can still make once a block is missing and nobody reads the
  reports: the batch in hand, one for each time the loop may still take over progress.
\<close>

definition deliveriesLeft :: "'db Node \<Rightarrow> nat" where
  "deliveriesLeft n = (if r_messages n then 1 else 0) + (if n_missing n = [] then 1 else 0) +
     (if r_missing n then 0 else 1)"

definition blockMissing :: "'db Node \<Rightarrow> bool" where
  "blockMissing n \<longleftrightarrow> NotFound (progress (n_consensus n)) \<noteq> []"

lemma takeProgress_missing:
  assumes "blockMissing n"
  shows "blockMissing (takeProgress n)" and "deliveriesLeft (takeProgress n) \<le> deliveriesLeft n"
  using assms by (auto simp: takeProgress_def blockMissing_def deliveriesLeft_def Progress_Reset_def Let_def)

lemma callUnread_missing:
  assumes "callUnread n n'"
  shows "blockMissing n' = blockMissing n" and "deliveriesLeft n' = deliveriesLeft n"
proof -
  have "r_messages n' = r_messages n" "r_missing n' = r_missing n"
    using assms unfolding callUnread_def
    by (auto elim!: call.cases simp: Node_Send_def Node_Step_def Node_Start_def Node_Close_def split: if_splits)
  moreover have "n_consensus n' = n_consensus n" using assms call_consensus(1) by (auto simp: callUnread_def)
  ultimately show "blockMissing n' = blockMissing n" and "deliveriesLeft n' = deliveriesLeft n"
    using assms by (simp_all add: blockMissing_def deliveriesLeft_def callUnread_def)
qed

context replica
begin

lemma select_missing:
  assumes "select E e n = Some (Inr n')" and "smallEvent e" and "blockMissing n"
  shows "blockMissing n'" and "length (filter isDelivery [e]) + deliveriesLeft n' \<le> deliveriesLeft n"
proof -
  show "blockMissing n'"
    using acts_notFound [OF select_cases(1) [OF assms(1,2)]] assms(3) by (auto simp: blockMissing_def)
  show "length (filter isDelivery [e]) + deliveriesLeft n' \<le> deliveriesLeft n"
    using assms(1)
    by (cases e) (auto simp: select_def withConsensus_Inr deliveriesLeft_def split: if_splits list.splits)
qed

lemma run_missing:
  assumes "run E callUnread n tr n'" and "list_all smallEvent tr" and "blockMissing n"
  shows "blockMissing n' \<and> length (filter isDelivery tr) + deliveriesLeft n' \<le> deliveriesLeft n"
  using assms
proof (induction rule: run.induct)
  case (called n tr m m')
  then show ?case by (simp add: callUnread_missing)
next
  case (looped n tr m e m')
  then have m: "blockMissing m" "length (filter isDelivery tr) + deliveriesLeft m \<le> deliveriesLeft n"
    and e: "smallEvent e" by simp_all
  have sel: "select E e (takeProgress m) = Some (Inr m')"
    using looped.hyps(2) by (auto simp: iterate_def split: if_splits)
  note taken = takeProgress_missing [OF m(1)]
  show ?case using select_missing [OF sel e taken(1)] taken(2) m(2) by simp
qed simp

end

section \<open>The first state\<close>

lemma NewNode_start:
  assumes "replica (nodeEnv B db priv conf)" and "intact (nodeEnv B db priv conf) s" and "NewNode B db s priv conf = Inr n"
  shows "loopInv n \<and> replicaInv (nodeEnv B db priv conf) (n_consensus n) \<and> outbox n = [] \<and> newsbox n = [] \<and>
    \<not> blockMissing n \<and> (\<exists>i. newConsensus (nodeEnv B db priv conf) s i (replicaIds (conf_Replicas conf)) = Inr (n_consensus n))"
proof -
  obtain i c where c: "newConsensus (nodeEnv B db priv conf) s i (replicaIds (conf_Replicas conf)) = Inr c" and n: "n = nodeOf c"
    using assms(3) by (auto simp: NewNode_def elim!: rbind_InrE)
  have "replicaInv (nodeEnv B db priv conf) c" by (rule replica.newConsensus_replicaInv [OF assms(1) c assms(2)])
  moreover have "progress c = Progress_zero" by (rule replica.newConsensus_fields(10) [OF assms(1) c])
  ultimately show ?thesis
    using c by (auto simp: n nodeOf_def loopInv_def outbox_def newsbox_def blockMissing_def Progress_zero_def)
qed

end
