(* ===== verification/Deployment.thy ===== *)
theory Deployment
  imports Node
begin

text \<open>
  The program \<^verbatim>\<open>hotstuff-node\<close>: length-prefixed frames on a connection
  (\<^verbatim>\<open>bytes_encoding.go\<close>), the two loops that write and read messages
  (\<^verbatim>\<open>tcpNode.go\<close>), and the genesis block every node makes from the common seed
  (\<^verbatim>\<open>main.go\<close>). A reader is the bytes that will arrive
  before the connection ends; \<^verbatim>\<open>io.ReadFull\<close> fails when fewer are left than asked for,
  and consumes them.
\<close>

section \<open>Frames\<close>

definition BYTES_ARRAY_PREFIX_LENGTH :: nat where
  "BYTES_ARRAY_PREFIX_LENGTH = 4"

definition augmentByteArrayWithLength :: "bytes \<Rightarrow> bytes" where
  "augmentByteArrayWithLength msg = beBytes BYTES_ARRAY_PREFIX_LENGTH (of_nat (length msg) :: uint32) @ msg"

text \<open>\<^verbatim>\<open>binary.BigEndian.Uint32\<close> reads four bytes and panics with fewer.\<close>

definition getMsgLength :: "bytes \<Rightarrow> nat result" where
  "getMsgLength b = (if length b < 4 then Inl IndexOutOfRange else Inr (unat (beWord (take 4 b) :: uint32)))"

definition readFull :: "nat \<Rightarrow> bytes \<Rightarrow> bytes option \<times> bytes" where
  "readFull n reader = (if length reader < n then (None, []) else (Some (take n reader), drop n reader))"

definition getMessageFromReader :: "bytes \<Rightarrow> ((string + bytes) \<times> bytes) result" where
  "getMessageFromReader reader =
     (case readFull BYTES_ARRAY_PREFIX_LENGTH reader of
        (None, reader) \<Rightarrow> Inr (Inl ''Failed to read first 4 bytes from reader'', reader)
      | (Some length_buf, reader) \<Rightarrow>
          rbind (getMsgLength length_buf) (\<lambda>msg_length.
          case readFull msg_length reader of
            (None, reader) \<Rightarrow> Inr (Inl ''Failed to read message from reader'', reader)
          | (Some msg_buf, reader) \<Rightarrow> Inr (Inr msg_buf, reader)))"

lemma getMessageFromReader_shorter:
  "getMessageFromReader reader = Inr (Inr msg, reader') \<Longrightarrow> length reader' < length reader"
  by (auto simp: getMessageFromReader_def readFull_def BYTES_ARRAY_PREFIX_LENGTH_def
      split: if_splits elim!: rbind_InrE)

section \<open>Connections\<close>

text \<open>What \<^verbatim>\<open>sendMessages\<close> writes for the messages it takes from its channel.\<close>

fun sendMessages :: "Message list \<Rightarrow> bytes" where
  "sendMessages [] = []"
| "sendMessages (msg # msgs) = augmentByteArrayWithLength (Message_Marshal msg) @ sendMessages msgs"

text \<open>
  \<^verbatim>\<open>listenForMessages\<close>: the messages it passes on and the error that ends it, when it is
  not cancelled. The error of \<^verbatim>\<open>Unmarshal\<close> is ignored: what was read before the error is
  passed on. A frame takes at least four bytes, so the loop ends with the input.
\<close>

function listenForMessages :: "bytes \<Rightarrow> (Message list \<times> string) result" where
  "listenForMessages reader =
     (case getMessageFromReader reader of
        Inl crash \<Rightarrow> Inl crash
      | Inr (Inl readErr, _) \<Rightarrow> Inr ([], readErr)
      | Inr (Inr msg_bytes, reader') \<Rightarrow>
          rbind (listenForMessages reader') (\<lambda>(msgs, err). Inr (fst (Message_Unmarshal Message_zero msg_bytes) # msgs, err)))"
  by pat_completeness auto

termination
  by (relation "measure length") (auto simp: getMessageFromReader_shorter)

declare listenForMessages.simps [simp del]

lemma beWord_frame: "length msg < 2 ^ 32 \<Longrightarrow>
    getMsgLength (beBytes 4 (of_nat (length msg) :: uint32)) = Inr (length msg)"
proof -
  assume len: "length msg < 2 ^ 32"
  have "(beWord (beBytes 4 (of_nat (length msg) :: uint32)) :: uint32) = take_bit (8 * 4) (of_nat (length msg))"
    by (rule beWord_beBytes)
  also have "\<dots> = of_nat (length msg)" by (rule take_bit_word_eq_self) simp
  finally show ?thesis using len by (simp add: getMsgLength_def unat_of_nat_32)
qed

lemma getMessageFromReader_frame:
  assumes "length msg < 2 ^ 32"
  shows "getMessageFromReader (augmentByteArrayWithLength msg @ rest) = Inr (Inr msg, rest)"
  using beWord_frame [OF assms]
  by (simp add: getMessageFromReader_def augmentByteArrayWithLength_def readFull_def BYTES_ARRAY_PREFIX_LENGTH_def)

lemma getMessageFromReader_total: "\<exists>r. getMessageFromReader reader = Inr r"
  by (auto simp: getMessageFromReader_def readFull_def getMsgLength_def BYTES_ARRAY_PREFIX_LENGTH_def)

lemma getMessageFromReader_cut:
  assumes "length msg < 2 ^ 32" and "k < length (augmentByteArrayWithLength msg)"
  shows "\<exists>err rest. getMessageFromReader (take k (augmentByteArrayWithLength msg)) = Inr (Inl err, rest)"
proof (cases "k < 4")
  case True
  then show ?thesis
    by (simp add: getMessageFromReader_def readFull_def BYTES_ARRAY_PREFIX_LENGTH_def augmentByteArrayWithLength_def)
next
  case False
  then show ?thesis
    using assms(2) beWord_frame [OF assms(1)]
    by (simp add: getMessageFromReader_def readFull_def BYTES_ARRAY_PREFIX_LENGTH_def augmentByteArrayWithLength_def
        not_less take_append)
qed

definition sendable :: "Message \<Rightarrow> bool" where
  "sendable m \<longleftrightarrow> Message_wf m \<and> Message_Size m < 2 ^ 32"

lemma sendable_read:
  assumes "sendable m"
  shows "length (Message_Marshal m) < 2 ^ 32" and "Message_Unmarshal Message_zero (Message_Marshal m) = (m, None)"
proof -
  have wf: "Message_wf m" and sz: "Message_Size m < 2 ^ 32" using assms by (simp_all add: sendable_def)
  have eq: "Message_Marshal m = Message_MarshalToSizedBuffer m"
    by (simp add: Message_Marshal_def Message_codec.size_exact)
  show "length (Message_Marshal m) < 2 ^ 32" using sz by (simp add: eq Message_codec.size_exact)
  show "Message_Unmarshal Message_zero (Message_Marshal m) = (m, None)"
    using Message_codec.loop_reads [OF wf order_refl] sz
    by (simp add: eq Message_Unmarshal_def Message_codec.size_exact)
qed

text \<open>
  Whatever part of the written stream arrives, the messages passed on are the first ones
  sent, in order.
\<close>

lemma listenForMessages_sent:
  "list_all sendable msgs \<Longrightarrow> \<exists>j err. listenForMessages (take k (sendMessages msgs)) = Inr (take j msgs, err) \<and>
    (length (sendMessages msgs) \<le> k \<longrightarrow> j = length msgs)"
proof (induction msgs arbitrary: k)
  case Nil
  then show ?case
    by (subst listenForMessages.simps)
      (simp add: getMessageFromReader_def readFull_def BYTES_ARRAY_PREFIX_LENGTH_def)
next
  case (Cons m ms)
  let ?f = "augmentByteArrayWithLength (Message_Marshal m)"
  have m: "length (Message_Marshal m) < 2 ^ 32" "Message_Unmarshal Message_zero (Message_Marshal m) = (m, None)"
    using sendable_read [of m] Cons.prems by simp_all
  show ?case
  proof (cases "length ?f \<le> k")
    case True
    obtain j err where j: "listenForMessages (take (k - length ?f) (sendMessages ms)) = Inr (take j ms, err)"
      "length (sendMessages ms) \<le> k - length ?f \<longrightarrow> j = length ms"
      using Cons.IH [of "k - length ?f"] Cons.prems by auto
    have "listenForMessages (take k (sendMessages (m # ms))) = Inr (take (Suc j) (m # ms), err)"
      using True j(1) m getMessageFromReader_frame [OF m(1), of "take (k - length ?f) (sendMessages ms)"]
      by (subst listenForMessages.simps) simp
    moreover have "length (sendMessages (m # ms)) \<le> k \<longrightarrow> Suc j = length (m # ms)"
      using True j(2) by (simp add: le_diff_conv2)
    ultimately show ?thesis by blast
  next
    case False
    then obtain err rest where "getMessageFromReader (take k (sendMessages (m # ms))) = Inr (Inl err, rest)"
      using getMessageFromReader_cut [OF m(1), of k] by auto
    then have "listenForMessages (take k (sendMessages (m # ms))) = Inr (take 0 (m # ms), err)"
      by (subst listenForMessages.simps) simp
    with False show ?thesis by (intro exI [of _ 0] exI [of _ err]) simp
  qed
qed

section \<open>Genesis\<close>

definition NUMBER_OF_NODES :: nat where
  "NUMBER_OF_NODES = 4"

text \<open>\<open>rngRead n\<close> is \<^verbatim>\<open>rng.Read\<close> on a slice of \<open>n\<close> bytes: what it is filled with.\<close>

definition randRoot :: "(nat \<Rightarrow> 'r \<Rightarrow> bytes \<times> 'r) \<Rightarrow> 'r \<Rightarrow> bytes \<times> 'r" where
  "randRoot rngRead rng = rngRead 32 rng"

definition randGenesis :: "hash \<Rightarrow> (nat \<Rightarrow> 'r \<Rightarrow> bytes \<times> 'r) \<Rightarrow> 'r \<Rightarrow> Block \<times> 'r" where
  "randGenesis H rngRead rng =
     (case randRoot rngRead rng of (root, rng) \<Rightarrow>
      let header = Header_zero\<lparr>Header_DataRoot := root\<rparr>
      in (\<lparr>Block_Header = Some header,
           Block_Data = Some Data_zero,
           Block_Cert = Some \<lparr>Certificate_Block = Header_Hash H header, Certificate_Sig = Some AggregatedSignature_zero\<rparr>\<rparr>, rng))"

text \<open>\<^verbatim>\<open>NewMemDB\<close> on what \<^verbatim>\<open>leveldb.Open\<close> returns for a storage in memory.\<close>

definition NewMemDB :: "string + 'db \<Rightarrow> 'db result" where
  "NewMemDB opened = (case opened of Inl err \<Rightarrow> Inl (PanicMsg err) | Inr db \<Rightarrow> Inr db)"

text \<open>Every replica's signature on the genesis block is merged into its certificate.\<close>

fun signGenesis ::
  "('sk, 'pk, 'sig) BLS \<Rightarrow> Verifier \<Rightarrow> bytes \<Rightarrow> nat \<Rightarrow> 'sk list \<Rightarrow> AggregatedSignature \<Rightarrow> AggregatedSignature result" where
  "signGenesis B V hash i [] asig = Inr asig"
| "signGenesis B V hash i (priv # privs) asig =
     rbind (BLS12381Signer_Sign B priv [] hash) (\<lambda>sig.
     signGenesis B V hash (Suc i) privs (v_Merge V asig (of_nat i) sig))"

definition createExampleNode ::
  "('sk, 'pk, 'sig) BLS \<Rightarrow> 'db Env \<Rightarrow> (nat \<Rightarrow> 'r \<Rightarrow> bytes \<times> 'r) \<Rightarrow> ('r \<Rightarrow> (string + 'sk) \<times> 'r) \<Rightarrow> string + 'db \<Rightarrow> 'r \<Rightarrow>
    nat \<Rightarrow> nat \<Rightarrow> 'db Node result" where
  "createExampleNode B E rngRead rand opened rng idx n =
     (case randGenesis (blake2s E) rngRead rng of (genesis, rng) \<Rightarrow>
      case GenerateKeys B rand rng n of
        (Inl e, _) \<Rightarrow> Inl (PanicMsg e)
      | (Inr (pubs, privs), _) \<Rightarrow>
          let verifier = NewBLS12381Verifier B (2 * length pubs div 3 + 1) pubs
          in rbind (deref (Block_Header genesis)) (\<lambda>header.
             rbind (deref (Block_Cert genesis)) (\<lambda>cert.
             rbind (deref (Certificate_Sig cert)) (\<lambda>asig.
             rbind (signGenesis B verifier (Header_Hash (blake2s E) header) 0 privs asig) (\<lambda>asig.
             if \<not> v_VerifyAggregated verifier (Header_Hash (blake2s E) header) asig
             then Inl (PanicMsg ''verifier failed'')
             else rbind (NewMemDB opened) (\<lambda>db.
               rbind (ImportGenesis E db (genesis\<lparr>Block_Cert := Some (cert\<lparr>Certificate_Sig := Some asig\<rparr>)\<rparr>)) (\<lambda>r.
               case r of
                 Inl err \<Rightarrow> Inl (PanicMsg ''cannot import genesis'')
               | Inr s \<Rightarrow>
                   if length pubs \<le> idx then Inl IndexOutOfRange
                   else NewNode B E s (privs ! idx) \<lparr>conf_ID = pubs ! idx, conf_Replicas = pubs\<rparr>)))))))"

context bls
begin

lemma BLS12381Signer_verifies:
  assumes "\<not> of_nat (length pks) \<le> i" and "pks ! unat i = bls_PublicKeyFromSecretKey B sk"
    and "BLS12381Signer_Sign B sk [] m = Inr sig"
  shows "v_Verify (NewBLS12381Verifier B n pks) i m sig"
  using assms verify_sign [of "copy32 m" domain sk]
  by (auto simp: BLS12381Signer_Sign_def NewBLS12381Verifier_def BLS12381Verifier_Verify_def decompress Let_def
      split: if_splits)

lemma signGenesis_good:
  assumes "length hash = 32" and "length done + length privs < 2 ^ 64"
    and "bls_good B pks hash asig" and "AggregatedSignature_Voters asig = map of_nat [0..<length done]"
    and "pks = map (bls_PublicKeyFromSecretKey B) (done @ privs)"
  shows "\<exists>asig'. signGenesis B (NewBLS12381Verifier B n pks) hash (length done) privs asig = Inr asig' \<and>
    bls_good B pks hash asig' \<and> AggregatedSignature_Voters asig' = map of_nat [0..<length done + length privs]"
  using assms
proof (induction privs arbitrary: "done" asig)
  case (Cons priv privs)
  let ?i = "of_nat (length done) :: uint64" and ?V = "NewBLS12381Verifier B n pks"
  have i: "unat ?i = length done" using Cons.prems(2) by (simp add: unat_of_nat_64)
  have "length pks < 2 ^ 64" "length done < length pks" using Cons.prems(2,5) by simp_all
  then have lt: "\<not> of_nat (length pks) \<le> ?i" by (simp add: word_le_nat_alt unat_of_nat_64 not_le)
  have key: "pks ! unat ?i = bls_PublicKeyFromSecretKey B priv" unfolding i Cons.prems(5) by (simp add: nth_append)
  have new: "?i \<notin> set (AggregatedSignature_Voters asig)"
  proof
    assume "?i \<in> set (AggregatedSignature_Voters asig)"
    then obtain j where "j < length done" "?i = of_nat j" using Cons.prems(4) by auto
    then have "unat ?i = j" using Cons.prems(2) by (simp add: unat_of_nat_64)
    with i \<open>j < length done\<close> show False by simp
  qed
  obtain sig where sig: "BLS12381Signer_Sign B priv [] hash = Inr sig"
    using Cons.prems(1) by (simp add: BLS12381Signer_Sign_def)
  have ver: "v_Verify ?V ?i hash sig" by (rule BLS12381Signer_verifies [OF lt key sig])
  have merged: "bls_good B pks hash (v_Merge ?V asig ?i sig)"
    "AggregatedSignature_Voters (v_Merge ?V asig ?i sig) = AggregatedSignature_Voters asig @ [?i]"
    using bls_good_merge [of pks hash asig n ?i sig] Cons.prems(3) ver new
    by (simp_all add: NewBLS12381Verifier_def Let_def)
  show ?case
    using Cons.IH [of "done @ [priv]" "v_Merge ?V asig ?i sig"] Cons.prems merged sig by simp
qed simp

end

end
