(* ===== verification/Ballots.thy ===== *)
theory Ballots
  imports Consensus
begin

text \<open>
  The voting rules of the protocol, apart from the program: a chronological record of the
  ballots honest replicas cast, the conditions each ballot was cast under, and what follows
  for the chains of blocks that can gather a quorum. A block is known by the digest of its
  header; headers in play are a set on which the digest is injective.
\<close>

section \<open>Quorums\<close>

text \<open>Two quorums share an honest member.\<close>

locale quorum_system =
  fixes honest :: "'i set" and quorum :: "'i set \<Rightarrow> bool"
  assumes overlap: "quorum Q \<Longrightarrow> quorum Q' \<Longrightarrow> Q \<inter> Q' \<inter> honest \<noteq> {}"

definition majority :: "'i list \<Rightarrow> 'i set \<Rightarrow> bool" where
  "majority rs Q \<longleftrightarrow> Q \<subseteq> set rs \<and> majorityOf rs \<le> card Q"

text \<open>The threshold of the code, as long as fewer than a third of the replicas are faulty.\<close>

lemma majority_overlap:
  assumes "distinct rs" and "3 * card (set rs - honest) < length rs" and "majority rs Q" and "majority rs Q'"
  shows "Q \<inter> Q' \<inter> honest \<noteq> {}"
proof
  assume none: "Q \<inter> Q' \<inter> honest = {}"
  have sub: "Q \<subseteq> set rs" "Q' \<subseteq> set rs" and large: "majorityOf rs \<le> card Q" "majorityOf rs \<le> card Q'"
    using assms(3,4) by (simp_all add: majority_def)
  then have fin: "finite Q" "finite Q'" by (auto intro: finite_subset)
  have n: "card (set rs) = length rs" using assms(1) by (rule distinct_card)
  have "card (Q \<union> Q') \<le> length rs" using sub card_mono [of "set rs" "Q \<union> Q'"] n by simp
  then have "card Q + card Q' \<le> length rs + card (Q \<inter> Q')" using card_Un_Int [OF fin] by simp
  moreover have "card (Q \<inter> Q') \<le> card (set rs - honest)" using none sub by (intro card_mono) auto
  ultimately show False using large assms(2) by (simp add: majorityOf_def)
qed

section \<open>Ballots\<close>

text \<open>Who voted for which header, and the view of the block the voter was locked on.\<close>

type_synonym 'i ballot = "'i \<times> Header \<times> uint64"

text \<open>Following parents among known headers from \<open>h\<close> leads to \<open>b\<close>.\<close>

inductive extends :: "(Header \<Rightarrow> bytes) \<Rightarrow> Header set \<Rightarrow> Header \<Rightarrow> Header \<Rightarrow> bool" for hash headers where
  here: "extends hash headers b b"
| up: "Header_Parent h = hash p \<Longrightarrow> p \<in> headers \<Longrightarrow> extends hash headers p b \<Longrightarrow> extends hash headers h b"

locale ballots = quorum_system honest quorum for honest :: "'i set" and quorum +
  fixes hash :: "Header \<Rightarrow> bytes" and headers :: "Header set" and genesis :: Header
  assumes hash_inj: "inj_on hash headers"
    and genesis_header: "genesis \<in> headers"
    and genesis_first: "h \<in> headers \<Longrightarrow> hash h \<noteq> Header_Parent genesis"
begin

definition voter :: "'i ballot list \<Rightarrow> 'i \<Rightarrow> Header \<Rightarrow> bool" where
  "voter G i h \<longleftrightarrow> (\<exists>l. (i, h, l) \<in> set G)"

text \<open>A quorum whose honest members all voted for the block.\<close>

definition backed :: "'i ballot list \<Rightarrow> bytes \<Rightarrow> bool" where
  "backed G k \<longleftrightarrow> (\<exists>Q. quorum Q \<and> (\<forall>i \<in> Q \<inter> honest. \<exists>h. voter G i h \<and> hash h = k))"

text \<open>
  The conditions of a ballot, given those cast before: the parent is backed, or the genesis
  block; its view is at least that of the lock; the lock is at least the grandparent; and the
  voter's views grow strictly, and its locks do not fall.
\<close>

definition ballotOk :: "'i ballot list \<Rightarrow> 'i ballot \<Rightarrow> bool" where
  "ballotOk G b \<longleftrightarrow>
     (case b of (i, h, l) \<Rightarrow>
        h \<in> headers \<and> Header_View genesis < Header_View h \<and>
        (Header_Parent h = hash genesis \<or> backed G (Header_Parent h)) \<and>
        (\<exists>p \<in> headers. hash p = Header_Parent h \<and> l \<le> Header_View p \<and>
          (\<forall>x \<in> headers. \<forall>y \<in> headers. Header_Parent p = hash x \<longrightarrow> x \<noteq> h \<longrightarrow> Header_Parent x = hash y \<longrightarrow> y \<noteq> h \<longrightarrow>
             Header_View x \<le> l)) \<and>
        Header_View genesis \<le> l \<and>
        (\<forall>h' l'. (i, h', l') \<in> set G \<longrightarrow> Header_View h' < Header_View h \<and> l' \<le> l))"

lemma ballotOk_parent:
  assumes "ballotOk G (i, h, l)"
  obtains p where "p \<in> headers" and "Header_Parent h = hash p" and "l \<le> Header_View p" and "Header_View genesis \<le> l"
    and "\<forall>x \<in> headers. \<forall>y \<in> headers. Header_Parent p = hash x \<longrightarrow> x \<noteq> h \<longrightarrow> Header_Parent x = hash y \<longrightarrow> y \<noteq> h \<longrightarrow> Header_View x \<le> l"
proof -
  have "\<exists>p \<in> headers. hash p = Header_Parent h \<and> l \<le> Header_View p \<and>
      (\<forall>x \<in> headers. \<forall>y \<in> headers. Header_Parent p = hash x \<longrightarrow> x \<noteq> h \<longrightarrow> Header_Parent x = hash y \<longrightarrow> y \<noteq> h \<longrightarrow> Header_View x \<le> l)"
    and "Header_View genesis \<le> l"
    using assms unfolding ballotOk_def split_conv by blast+
  then show ?thesis using that by metis
qed

definition sound :: "'i ballot list \<Rightarrow> bool" where
  "sound G \<longleftrightarrow> (\<forall>A b B. G = A @ b # B \<longrightarrow> ballotOk A b)"

lemma soundD: "sound (A @ b # B) \<Longrightarrow> ballotOk A b"
  unfolding sound_def by blast

lemma sound_Nil [simp]: "sound []"
  by (simp add: sound_def)

lemma voter_mono: "voter G i h \<Longrightarrow> set G \<subseteq> set G' \<Longrightarrow> voter G' i h"
  by (auto simp: voter_def)

lemma backed_mono: "backed G k \<Longrightarrow> set G \<subseteq> set G' \<Longrightarrow> backed G' k"
  unfolding backed_def using voter_mono by meson

lemma sound_snoc: "sound G \<Longrightarrow> ballotOk G b \<Longrightarrow> sound (G @ [b])"
  unfolding sound_def
proof (intro allI impI)
  fix A c B
  assume G: "\<forall>A b B. G = A @ b # B \<longrightarrow> ballotOk A b" and b: "ballotOk G b" and eq: "G @ [b] = A @ c # B"
  show "ballotOk A c"
  proof (cases B rule: rev_cases)
    case Nil
    with eq b show ?thesis by simp
  next
    case (snoc B' z)
    with eq have "G = A @ c # B'" by simp
    with G show ?thesis by blast
  qed
qed

lemma common_voter:
  assumes "backed G k" and "backed G' k'"
  obtains i h h' where "i \<in> honest" "voter G i h" "hash h = k" "voter G' i h'" "hash h' = k'"
proof -
  obtain Q Q' where Q: "quorum Q" "\<forall>i \<in> Q \<inter> honest. \<exists>h. voter G i h \<and> hash h = k"
    and Q': "quorum Q'" "\<forall>i \<in> Q' \<inter> honest. \<exists>h. voter G' i h \<and> hash h = k'"
    using assms by (auto simp: backed_def)
  then show ?thesis using overlap [OF Q(1) Q'(1)] that by blast
qed

lemma sound_header: "sound G \<Longrightarrow> voter G i h \<Longrightarrow> h \<in> headers"
proof -
  assume "sound G" and "voter G i h"
  moreover from this obtain l A B where "G = A @ (i, h, l) # B" by (auto simp: voter_def dest: split_list)
  ultimately show ?thesis using soundD [of A "(i, h, l)" B] by (simp add: ballotOk_def)
qed

lemma same_hash: "h \<in> headers \<Longrightarrow> h' \<in> headers \<Longrightarrow> hash h = hash h' \<Longrightarrow> h = h'"
  using hash_inj by (auto dest: inj_onD)

lemma common_voter_of:
  assumes "sound G" "backed A (hash h)" "set A \<subseteq> set G" "backed G (hash h')" "h \<in> headers" "h' \<in> headers"
  obtains i where "voter A i h" "voter G i h'"
proof -
  obtain i x x' where "voter A i x" "hash x = hash h" "voter G i x'" "hash x' = hash h'"
    using common_voter [OF assms(2,4)] by blast
  moreover have "x \<in> headers" "x' \<in> headers" using calculation sound_header [OF assms(1)] voter_mono [OF _ assms(3)] by blast+
  ultimately show ?thesis using that same_hash assms(5,6) by blast
qed

text \<open>The ballots of one voter are ordered by view, and so are the locks.\<close>

lemma sound_order:
  assumes "sound G" and "(i, a, l) \<in> set G" and "(i, b, m) \<in> set G"
  shows "a = b \<and> l = m \<or> Header_View a < Header_View b \<and> l \<le> m \<or> Header_View b < Header_View a \<and> m \<le> l"
proof -
  obtain A B where G: "G = A @ (i, a, l) # B" using assms(2) by (auto dest: split_list)
  consider "(i, b, m) \<in> set A" | "(i, b, m) = (i, a, l)" | "(i, b, m) \<in> set B" using assms(3) G by auto
  then show ?thesis
  proof cases
    case 1
    then show ?thesis using soundD [OF assms(1) [unfolded G]] by (auto simp: ballotOk_def)
  next
    case 3
    then obtain C D where B: "B = C @ (i, b, m) # D" by (auto dest: split_list)
    have "ballotOk (A @ (i, a, l) # C) (i, b, m)"
      using assms(1) soundD [of "A @ (i, a, l) # C" "(i, b, m)" D] by (simp add: G B)
    then show ?thesis by (auto simp: ballotOk_def)
  qed simp
qed

lemma same_view:
  assumes "sound G" "backed G (hash h)" "backed G (hash h')" "h \<in> headers" "h' \<in> headers"
    and "Header_View h = Header_View h'"
  shows "h = h'"
proof -
  obtain i where "voter G i h" "voter G i h'"
    using common_voter_of [OF assms(1,2) order_refl assms(3-5)] by blast
  then show ?thesis using sound_order [OF assms(1)] assms(6) by (fastforce simp: voter_def)
qed

text \<open>The first ballot for a backed block.\<close>

lemma first_ballot:
  assumes "sound G" and "backed G (hash h)" and "h \<in> headers"
  obtains A i l B where "G = A @ (i, h, l) # B" and "\<forall>j. \<not> voter A j h" and "ballotOk A (i, h, l)"
proof -
  obtain i where "voter G i h" using common_voter_of [OF assms(1,2) order_refl assms(2,3,3)] by blast
  then have "\<exists>b \<in> set G. fst (snd b) = h" by (force simp: voter_def)
  then obtain A b B where G: "G = A @ b # B" and b: "fst (snd b) = h" and first: "\<forall>b \<in> set A. fst (snd b) \<noteq> h"
    using split_list_first_prop [of G "\<lambda>b. fst (snd b) = h"] by blast
  obtain j l where "b = (j, h, l)" using b by (metis prod.collapse)
  moreover have "\<not> voter A j h" for j using first by (force simp: voter_def)
  ultimately show ?thesis using that G soundD [of A b B] assms(1) by simp
qed

lemma backed_above_genesis:
  assumes "sound G" and "backed G (hash h)" and "h \<in> headers"
  shows "Header_View genesis < Header_View h" and "h \<noteq> genesis"
proof -
  show "Header_View genesis < Header_View h" by (rule first_ballot [OF assms]) (simp add: ballotOk_def)
  then show "h \<noteq> genesis" by auto
qed

lemma parent_backed:
  assumes "sound G" "backed G (hash h)" "h \<in> headers" "p \<in> headers" "Header_Parent h = hash p"
  shows "p = genesis \<or> backed G (hash p)"
proof (rule first_ballot [OF assms(1-3)])
  fix A i l B
  assume "G = A @ (i, h, l) # B" "ballotOk A (i, h, l)"
  moreover from this consider "hash p = hash genesis" | "backed A (hash p)" by (auto simp: ballotOk_def assms(5))
  ultimately show ?thesis using same_hash [OF assms(4) genesis_header] backed_mono [of A _ G] by cases auto
qed

lemma parent_view:
  assumes "sound G" "backed G (hash h)" "h \<in> headers" "p \<in> headers" "Header_Parent h = hash p"
  shows "Header_View p < Header_View h"
proof (rule first_ballot [OF assms(1-3)])
  fix A i l B
  assume G: "G = A @ (i, h, l) # B" and first: "\<forall>j. \<not> voter A j h" and ok: "ballotOk A (i, h, l)"
  from ok consider "hash p = hash genesis" | "backed A (hash p)" by (auto simp: ballotOk_def assms(5))
  then show ?thesis
  proof cases
    case 1
    then show ?thesis using same_hash [OF assms(4) genesis_header] ok by (simp add: ballotOk_def)
  next
    case 2
    then obtain j where j: "voter A j p" "voter G j h"
      using common_voter_of [OF assms(1) 2 _ assms(2,4,3)] G by auto
    then obtain m n where m: "(j, p, m) \<in> set A" and n: "(j, h, n) \<in> set ((i, h, l) # B)"
      using first by (auto simp: voter_def G)
    then obtain C D where "(i, h, l) # B = C @ (j, h, n) # D" by (meson split_list)
    then have "ballotOk (A @ C) (j, h, n)" using soundD [of "A @ C" "(j, h, n)" D] assms(1) G by simp
    then show ?thesis using m by (auto simp: ballotOk_def)
  qed
qed

subsection \<open>Chains\<close>

lemmas link = extends.up [where hash = hash and headers = headers]

text \<open>Three blocks in consecutive views, the last of them backed: what commits the first.\<close>

definition commits :: "'i ballot list \<Rightarrow> Header \<Rightarrow> bool" where
  "commits G b \<longleftrightarrow>
     (\<exists>c d. b \<in> headers \<and> c \<in> headers \<and> d \<in> headers \<and> Header_Parent d = hash c \<and> Header_Parent c = hash b \<and>
        Header_View d = Header_View c + 1 \<and> Header_View c = Header_View b + 1 \<and> backed G (hash d))"

lemma commits_mono: "commits G b \<Longrightarrow> set G \<subseteq> set G' \<Longrightarrow> commits G' b"
  unfolding commits_def using backed_mono by blast

lemma not_genesis: "Header_Parent h = hash p \<Longrightarrow> p \<in> headers \<Longrightarrow> h \<noteq> genesis"
  using genesis_first [of p] by auto

text \<open>Whoever votes for the last of the three is locked on the first, or above.\<close>

lemma locked_voter:
  assumes "sound G" and "b \<in> headers" "c \<in> headers" "d \<in> headers" and "Header_Parent d = hash c" "Header_Parent c = hash b"
    and "backed G (hash d)" and "(i, d, l) \<in> set G"
  shows "Header_View b \<le> l"
proof -
  have views: "Header_View c < Header_View d" by (rule parent_view [OF assms(1,7,4,3,5)])
  have c: "backed G (hash c)"
    using parent_backed [OF assms(1,7,4,3,5)] not_genesis [OF assms(6,2)] by blast
  have views': "Header_View b < Header_View c" by (rule parent_view [OF assms(1) c assms(3,2,6)])
  obtain A B where "G = A @ (i, d, l) # B" using assms(8) by (auto dest: split_list)
  then have "ballotOk A (i, d, l)" using assms(1) soundD by blast
  then obtain p where p: "p \<in> headers" "Header_Parent d = hash p" "l \<le> Header_View p" and low: "Header_View genesis \<le> l"
    and lock: "\<forall>x \<in> headers. \<forall>y \<in> headers. Header_Parent p = hash x \<longrightarrow> x \<noteq> d \<longrightarrow> Header_Parent x = hash y \<longrightarrow> y \<noteq> d \<longrightarrow> Header_View x \<le> l"
    by (rule ballotOk_parent)
  have "p = c" using same_hash [OF p(1) assms(3)] p(2) assms(5) by simp
  show ?thesis
  proof (cases "b = genesis")
    case True
    with low show ?thesis by simp
  next
    case False
    then have b: "backed G (hash b)" using parent_backed [OF assms(1) c assms(3,2,6)] by blast
    obtain A j m B where "G = A @ (j, b, m) # B" "\<forall>j. \<not> voter A j b" and ok: "ballotOk A (j, b, m)"
      by (rule first_ballot [OF assms(1) b assms(2)])
    from ok obtain y where y: "y \<in> headers" "Header_Parent b = hash y" by (rule ballotOk_parent)
    have "Header_View y < Header_View b" by (rule parent_view [OF assms(1) b assms(2) y])
    then have "y \<noteq> d" "b \<noteq> d" using views views' by auto
    then show ?thesis using lock assms(2) y \<open>p = c\<close> assms(6) by blast
  qed
qed

text \<open>A block above a committed chain has a voter who was locked on that chain, so its parent is no lower.\<close>

lemma parent_above_committed:
  assumes "sound G" and "b \<in> headers" "c \<in> headers" "d \<in> headers"
    and links: "Header_Parent d = hash c" "Header_Parent c = hash b" and "backed G (hash d)"
    and "h \<in> headers" "backed G (hash h)" "Header_View d < Header_View h"
  obtains p where "p \<in> headers" "Header_Parent h = hash p" "Header_View b \<le> Header_View p"
proof -
  obtain i where "voter G i d" "voter G i h"
    using common_voter_of [OF assms(1,7) order_refl assms(9,4,8)] by blast
  then obtain l m where l: "(i, d, l) \<in> set G" and m: "(i, h, m) \<in> set G" by (auto simp: voter_def)
  have "Header_View b \<le> l" by (rule locked_voter [OF assms(1-4) links assms(7) l])
  also have "l \<le> m" using sound_order [OF assms(1) l m] assms(10) by auto
  finally have lock: "Header_View b \<le> m" .
  obtain A B where "G = A @ (i, h, m) # B" using m by (auto dest: split_list)
  then have "ballotOk A (i, h, m)" using assms(1) soundD by blast
  then obtain p where "p \<in> headers" "Header_Parent h = hash p" "m \<le> Header_View p" by (rule ballotOk_parent)
  then show thesis using that lock by auto
qed

lemma committed_extends:
  assumes "sound G" and "commits G b" and "h \<in> headers" and "backed G (hash h)" and "Header_View b \<le> Header_View h"
  shows "extends hash headers h b"
proof -
  obtain c d where b: "b \<in> headers" and c: "c \<in> headers" and d: "d \<in> headers"
    and links: "Header_Parent d = hash c" "Header_Parent c = hash b"
    and next_views: "Header_View d = Header_View c + 1" "Header_View c = Header_View b + 1" and backed_d: "backed G (hash d)"
    using assms(2) by (auto simp: commits_def)
  have backed_c: "backed G (hash c)"
    using parent_backed [OF assms(1) backed_d d c links(1)] not_genesis [OF links(2) b] by blast
  have backed_b: "b = genesis \<or> backed G (hash b)" by (rule parent_backed [OF assms(1) backed_c c b links(2)])
  have up: "Header_View c < Header_View d" "Header_View b < Header_View c"
    using parent_view [OF assms(1) backed_d d c links(1)] parent_view [OF assms(1) backed_c c b links(2)] .
  have bb: "extends hash headers b b" and cb: "extends hash headers c b" and db: "extends hash headers d b"
    using link [OF links(1) c] link [OF links(2) b] extends.here by blast+
  show ?thesis
    using assms(3-5)
  proof (induction "Header_View h" arbitrary: h rule: less_induct)
    case less
    consider "Header_View h = Header_View b" | "Header_View h = Header_View c" | "Header_View h = Header_View d" | "Header_View d < Header_View h"
      using less.prems(3) next_views up by (metis (no_types) inc_le le_less not_less)
    then show ?case
    proof cases
      case 1
      then show ?thesis
        using backed_b same_view [OF assms(1) less.prems(2) _ less.prems(1) b] backed_above_genesis(1) [OF assms(1) less.prems(2,1)] bb by auto
    next
      case 2
      then show ?thesis using same_view [OF assms(1) less.prems(2) backed_c less.prems(1) c] cb by simp
    next
      case 3
      then show ?thesis using same_view [OF assms(1) less.prems(2) backed_d less.prems(1) d] db by simp
    next
      case 4
      obtain p where p: "p \<in> headers" "Header_Parent h = hash p" "Header_View b \<le> Header_View p"
        using parent_above_committed [OF assms(1) b c d links backed_d less.prems(1,2) 4] by blast
      have below: "Header_View p < Header_View h" by (rule parent_view [OF assms(1) less.prems(2,1) p(1,2)])
      have "extends hash headers p b"
      proof (cases "p = genesis")
        case True
        then have "Header_View b \<le> Header_View genesis" using p(3) by simp
        then have "b = genesis" using backed_b backed_above_genesis(1) [OF assms(1) _ b] by auto
        then show ?thesis using True bb by simp
      next
        case False
        then have "backed G (hash p)" using parent_backed [OF assms(1) less.prems(2,1) p(1,2)] by auto
        then show ?thesis using less.hyps [OF below p(1)] p(3) by auto
      qed
      then show ?thesis by (rule link [OF p(2,1)])
    qed
  qed
qed

lemma commits_backed:
  assumes "sound G" and "commits G b"
  shows "b = genesis \<or> backed G (hash b)"
proof -
  obtain c d where b: "b \<in> headers" and c: "c \<in> headers" and d: "d \<in> headers"
    and links: "Header_Parent d = hash c" "Header_Parent c = hash b" and backed_d: "backed G (hash d)"
    using assms(2) by (auto simp: commits_def)
  have "backed G (hash c)"
    using parent_backed [OF assms(1) backed_d d c links(1)] not_genesis [OF links(2) b] by blast
  then show ?thesis by (rule parent_backed [OF assms(1) _ c b links(2)])
qed

lemma backed_extends_genesis:
  assumes "sound G"
  shows "h \<in> headers \<Longrightarrow> backed G (hash h) \<Longrightarrow> extends hash headers h genesis"
proof (induction "Header_View h" arbitrary: h rule: less_induct)
  case less
  obtain A i l B where "G = A @ (i, h, l) # B" "\<forall>j. \<not> voter A j h" and ok: "ballotOk A (i, h, l)"
    by (rule first_ballot [OF assms less.prems(2,1)])
  from ok obtain p where p: "p \<in> headers" "Header_Parent h = hash p" by (rule ballotOk_parent)
  have "extends hash headers p genesis"
    using parent_backed [OF assms less.prems(2,1) p] parent_view [OF assms less.prems(2,1) p] less.hyps p(1) extends.here by blast
  then show ?case by (rule link [OF p(2,1)])
qed

text \<open>Two committed blocks lie on one chain.\<close>

lemma agreement:
  assumes "sound G" and "b = genesis \<or> commits G b" and "b' = genesis \<or> commits G b'"
  shows "extends hash headers b b' \<or> extends hash headers b' b"
proof -
  have root: "extends hash headers b genesis" if "b = genesis \<or> commits G b" for b
    using that commits_backed [OF assms(1)] backed_extends_genesis [OF assms(1)] extends.here by (metis commits_def)
  have above: "extends hash headers b' b" if "Header_View b \<le> Header_View b'" "commits G b" "commits G b'" "b' \<noteq> genesis" for b b'
    using committed_extends [OF assms(1) that(2) _ _ that(1)] commits_backed [OF assms(1) that(3)] that(3,4) by (metis commits_def)
  show ?thesis
  proof (cases "b = genesis \<or> b' = genesis")
    case True
    then show ?thesis using root assms(2,3) by blast
  next
    case False
    then show ?thesis using above [of b b'] above [of b' b] assms(2,3) linear by blast
  qed
qed

end

end
