(* ===== verification/Agreement.thy ===== *)
theory Agreement
  imports Ballots Durability
begin

text \<open>
  Several replicas and an adversary. Honest replicas run the code, one method call at a time
  and in any order, on whatever messages the network or faulty replicas hand them; they may
  crash and restart from their stores. Every vote an honest replica emits enters a common
  log. Signatures are ideal: an aggregate is accepted for a block only if a quorum of different
  replicas stands behind it whose honest members have a vote for that block in the log so
  far. The result is that no two honest replicas ever commit conflicting blocks.

  Two conditions are about the messages honest replicas act on. The digest has no collisions
  among the headers that occur. And a synchronized block is handled only when its parent is
  known: \<^verbatim>\<open>update\<close> returns before it locks when an ancestor is missing, so a block that
  arrives alone would leave the lock behind.
\<close>

section \<open>The system\<close>

record 'db Net =
  net_env :: "uint64 \<Rightarrow> 'db CEnv"
  net_verifier :: "Vote list \<Rightarrow> Verifier"
  net_replicas :: "uint64 list"
  net_honest :: "uint64 set"
  net_hash :: hash
  net_headers :: "Header set"
  net_genesis :: Header

text \<open>A replica's environment while the log is \<open>L\<close>.\<close>

definition envAt :: "'db Net \<Rightarrow> uint64 \<Rightarrow> Vote list \<Rightarrow> 'db CEnv" where
  "envAt N i L = (net_env N i)\<lparr>c_verifier := net_verifier N L\<rparr>"

text \<open>The votes among the messages of a batch.\<close>

definition voteOf :: "MsgTo \<Rightarrow> Vote option" where
  "voteOf m = (case Message_Type (MsgTo_Message m) of Some (Message_Vote v) \<Rightarrow> v | _ \<Rightarrow> None)"

definition votesIn :: "MsgTo list \<Rightarrow> Vote list" where
  "votesIn ms = List.map_filter voteOf ms"

text \<open>The headers a replica may store, and when.\<close>

definition admitted :: "'db Net \<Rightarrow> uint64 \<Rightarrow> 'db consensus \<Rightarrow> Header \<Rightarrow> bool" where
  "admitted N i c h \<longleftrightarrow> h \<in> net_headers N \<and> (\<exists>p. GetHeader (net_env N i) (store c) (Header_Parent h) = Inr p)"

text \<open>One call of a method of the module.\<close>

inductive turn :: "('db consensus \<Rightarrow> Header \<Rightarrow> bool) \<Rightarrow> ('db, 'z) cenv \<Rightarrow> 'db consensus \<Rightarrow> 'db consensus \<Rightarrow> bool" for P E where
  step: "Step E msg c = Inr c' \<Longrightarrow> messageOk P E c msg \<Longrightarrow> turn P E c c'"
| tick: "Tick E c = Inr c' \<Longrightarrow> turn P E c c'"
| start: "Start E c = Inr c' \<Longrightarrow> turn P E c c'"
| send: "Send E state root data c = Inr c' \<Longrightarrow> length state + length root < 2 ^ 62 \<Longrightarrow>
    admits P E (proposed E c state root) \<Longrightarrow> turn P E c c'"

inductive net :: "'db Net \<Rightarrow> (uint64 \<Rightarrow> 'db consensus) \<times> Vote list \<Rightarrow> (uint64 \<Rightarrow> 'db consensus) \<times> Vote list \<Rightarrow> bool" for N where
  turn: "i \<in> net_honest N \<Longrightarrow> turn (admitted N i) (envAt N i L) (g i) c' \<Longrightarrow> emits (g i) ms c' \<Longrightarrow>
    net N (g, L) (g(i := c'), L @ votesIn ms)"
| handover: "net N (g, L) (g(i := (g i)\<lparr>progress := p\<rparr>), L)"
| restart: "i \<in> net_honest N \<Longrightarrow> newConsensus (envAt N i L) (store (g i)) (cid (g i)) (replicas (g i)) = Inr c' \<Longrightarrow>
    net N (g, L) (g(i := c'), L)"

text \<open>A replica that has imported the genesis block into an empty store and started.\<close>

definition booted :: "'db Net \<Rightarrow> uint64 \<Rightarrow> 'db consensus \<Rightarrow> bool" where
  "booted N i c \<longleftrightarrow>
     (\<exists>s b s' cert. (\<forall>k. \<exists>e. GetHeader (net_env N i) s k = Inl e) \<and>
        Block_Header b = Some (net_genesis N) \<and> Block_Cert b = Some cert \<and>
        Certificate_Block cert = Header_Hash (net_hash N) (net_genesis N) \<and>
        Header_Size (net_genesis N) < 2 ^ 63 \<and> Certificate_Size cert < 2 ^ 63 \<and> Certificate_wf cert \<and>
        ImportGenesis (net_env N i) s b = Inr (Inr s') \<and>
        newConsensus (net_env N i) s' i (net_replicas N) = Inr c)"

text \<open>A quorum whose honest members voted for the block.\<close>

definition quorumFor :: "'db Net \<Rightarrow> Vote list \<Rightarrow> bytes \<Rightarrow> bool" where
  "quorumFor N L k \<longleftrightarrow>
     (\<exists>Q. majority (net_replicas N) Q \<and>
        (\<forall>i \<in> Q \<inter> net_honest N. \<exists>v \<in> set L. Vote_Voter v = i \<and> Vote_Block v = k))"

locale network =
  fixes N :: "'db Net"
  assumes environment: "i \<in> net_honest N \<Longrightarrow> replica (net_env N i) \<and> blake2s (net_env N i) = net_hash N"
    and replicas_differ: "distinct (net_replicas N)"
    and faulty: "3 * card (set (net_replicas N) - net_honest N) < length (net_replicas N)"
    and unforgeable: "v_VerifyAggregated (net_verifier N L) k a \<Longrightarrow>
      k = Header_Hash (net_hash N) (net_genesis N) \<or> quorumFor N L k"
    and collision_free: "inj_on (Header_Hash (net_hash N)) (net_headers N)"
    and genesis_known: "net_genesis N \<in> net_headers N"
    and genesis_parent: "h \<in> net_headers N \<Longrightarrow> Header_Hash (net_hash N) h \<noteq> Header_Parent (net_genesis N)"

text \<open>
  The ideal of the verifier in \<^verbatim>\<open>crypto\<close>: it checks that the voters differ, and consults
  the log for the honest ones.
\<close>

definition idealVerifier :: "hash \<Rightarrow> Header \<Rightarrow> uint64 list \<Rightarrow> uint64 set \<Rightarrow> Verifier \<Rightarrow> Vote list \<Rightarrow> Verifier" where
  "idealVerifier H genesis rs honest V L = V\<lparr>v_VerifyAggregated := \<lambda>k a.
     k = Header_Hash H genesis \<or>
     (let vs = AggregatedSignature_Voters a
      in distinct vs \<and> set vs \<subseteq> set rs \<and> majorityOf rs \<le> length vs \<and>
         list_all (\<lambda>i. i \<in> honest \<longrightarrow> list_ex (\<lambda>v. Vote_Voter v = i \<and> Vote_Block v = k) L) vs)\<rparr>"

lemma idealVerifier_unforgeable:
  assumes "v_VerifyAggregated (idealVerifier (net_hash N) (net_genesis N) (net_replicas N) (net_honest N) V L) k a"
  shows "k = Header_Hash (net_hash N) (net_genesis N) \<or> quorumFor N L k"
proof (cases "k = Header_Hash (net_hash N) (net_genesis N)")
  case False
  then have "distinct (AggregatedSignature_Voters a)" "majority (net_replicas N) (set (AggregatedSignature_Voters a))"
    "\<forall>i \<in> set (AggregatedSignature_Voters a) \<inter> net_honest N. \<exists>v \<in> set L. Vote_Voter v = i \<and> Vote_Block v = k"
    using assms by (auto simp: idealVerifier_def Let_def majority_def distinct_card list_all_iff list_ex_iff)
  then show ?thesis by (auto simp: quorumFor_def)
qed simp

section \<open>What does not depend on the log\<close>

lemma envAt_simps [simp]:
  "ldb_Get (envAt N i L) = ldb_Get (net_env N i)" "ldb_Put (envAt N i L) = ldb_Put (net_env N i)"
  "blake2s (envAt N i L) = blake2s (net_env N i)" "c_signer (envAt N i L) = c_signer (net_env N i)"
  "c_verifier (envAt N i L) = net_verifier N L"
  by (simp_all add: envAt_def)

lemma envAt_reads [simp]:
  "GetHeader (envAt N i L) s k = GetHeader (net_env N i) s k" "absOf (envAt N i L) s = absOf (net_env N i) s"
  by (simp_all add: absOf_def GetHeader_def GetCertificate_def GetData_def GetTag_def GetView_def GetVoted_def dbGet_def cong: if_cong)

lemma envAt_intact [simp]: "intact (envAt N i L) s \<longleftrightarrow> intact (net_env N i) s"
  by (simp add: intact_def)

lemma envAt_replicaInv [simp]: "replicaInv (envAt N i L) c \<longleftrightarrow> replicaInv (net_env N i) c"
  by (simp add: replicaInv_def persisted_def tagged_def votesReady_def cong: option.case_cong)

lemma envAt_replica: "replica (net_env N i) \<Longrightarrow> replica (envAt N i L)"
  unfolding replica_def replica_axioms_def leveldb_def by simp

section \<open>Ballots and votes\<close>

definition matches :: "'db Net \<Rightarrow> Vote list \<Rightarrow> uint64 ballot list \<Rightarrow> bool" where
  "matches N vs G \<longleftrightarrow>
     map (\<lambda>v. (Vote_Voter v, Vote_Block v)) vs = map (\<lambda>(i, h, l). (i, Header_Hash (net_hash N) h)) G"

lemma matches_append: "matches N vs G \<Longrightarrow> matches N ws B \<Longrightarrow> matches N (vs @ ws) (G @ B)"
  by (simp add: matches_def)

lemma matches_Nil [simp]: "matches N [] []"
  by (simp add: matches_def)

lemma matches_voted:
  assumes "matches N vs G"
  shows "(\<exists>v \<in> set vs. Vote_Voter v = i \<and> Vote_Block v = k) \<longleftrightarrow> (\<exists>h l. (i, h, l) \<in> set G \<and> Header_Hash (net_hash N) h = k)"
proof -
  have "set (map (\<lambda>v. (Vote_Voter v, Vote_Block v)) vs) = set (map (\<lambda>(i, h, l). (i, Header_Hash (net_hash N) h)) G)"
    using assms by (simp only: matches_def)
  then have "(i, k) \<in> (\<lambda>v. (Vote_Voter v, Vote_Block v)) ` set vs \<longleftrightarrow>
      (i, k) \<in> (\<lambda>(i, h, l). (i, Header_Hash (net_hash N) h)) ` set G" by simp
  then show ?thesis by (force simp: image_iff)
qed

lemma votesIn_append [simp]: "votesIn (xs @ ys) = votesIn xs @ votesIn ys"
  by (induction xs) (auto simp: votesIn_def map_filter_simps split: option.split)

lemma votesIn_simps [simp]:
  "votesIn [] = []" "votesIn [\<lparr>Recipients = r, MsgTo_Message = NewVoteMsg v\<rparr>] = [v]"
  "votesIn [\<lparr>Recipients = r, MsgTo_Message = NewViewMsg n\<rparr>] = []"
  "votesIn [\<lparr>Recipients = r, MsgTo_Message = NewProposalMsg p\<rparr>] = []"
  by (simp_all add: votesIn_def map_filter_simps voteOf_def msg_defs)

context network
begin

abbreviation hash :: "Header \<Rightarrow> bytes" where
  "hash \<equiv> Header_Hash (net_hash N)"

sublocale ballots "net_honest N" "majority (net_replicas N)" hash "net_headers N" "net_genesis N"
  by unfold_locales (use majority_overlap [OF replicas_differ faulty] collision_free genesis_known genesis_parent in auto)

lemma backed_quorum: "matches N L G \<Longrightarrow> backed G k \<longleftrightarrow> quorumFor N L k"
  unfolding backed_def quorumFor_def voter_def by (simp add: matches_voted)

text \<open>What an honest replica's state has to do with the ballots cast so far.\<close>

definition localInv :: "uint64 \<Rightarrow> uint64 ballot list \<Rightarrow> 'db consensus \<Rightarrow> bool" where
  "localInv i G c \<longleftrightarrow>
     replicaInv (net_env N i) c \<and> cid c = i \<and>
     (\<forall>k h. GetHeader (net_env N i) (store c) k = Inr h \<longrightarrow> h \<in> net_headers N \<and>
        (h = net_genesis N \<or> (\<exists>p. GetHeader (net_env N i) (store c) (Header_Parent h) = Inr p))) \<and>
     prepare c \<in> net_headers N \<and> locked c \<in> net_headers N \<and> commit c \<in> net_headers N \<and>
     pred_option (\<lambda>h. h \<in> net_headers N) (vt_Header (votes c)) \<and>
     Header_View (locked c) \<le> Header_View (prepare c) \<and> Header_View (net_genesis N) \<le> Header_View (locked c) \<and>
     Header_View (net_genesis N) \<le> voted c \<and>
     (\<forall>h l. (i, h, l) \<in> set G \<longrightarrow> Header_View h \<le> voted c \<and> l \<le> Header_View (locked c)) \<and>
     (commit c = net_genesis N \<or> commits G (commit c))"

text \<open>Facts about a stored header.\<close>

lemma stored:
  assumes "localInv i G c" and "i \<in> net_honest N" and "GetHeader (net_env N i) (store c) k = Inr h"
  shows "h \<in> net_headers N" and "hash h = k"
    and "h = net_genesis N \<or> (\<exists>p. GetHeader (net_env N i) (store c) (Header_Parent h) = Inr p)"
  using assms environment [OF assms(2)] by (auto simp: localInv_def replicaInv_def dest: intactD)

lemma stored_parent:
  assumes "localInv i G c" and "i \<in> net_honest N" and "GetHeader (net_env N i) (store c) k = Inr h"
    and "Header_Parent h = hash x" and "x \<in> net_headers N"
  shows "GetHeader (net_env N i) (store c) (Header_Parent h) = Inr x"
proof -
  have "h \<noteq> net_genesis N" using not_genesis [OF assms(4,5)] .
  then obtain p where p: "GetHeader (net_env N i) (store c) (Header_Parent h) = Inr p" using stored(3) [OF assms(1-3)] by blast
  have "p = x" using same_hash [OF stored(1) [OF assms(1,2) p] assms(5)] stored(2) [OF assms(1,2) p] assms(4) by simp
  with p show ?thesis by simp
qed

lemma localInv_frame:
  assumes "localInv i G c" and "replicaInv (net_env N i) c'" and "cid c' = cid c"
    and "\<And>k. GetHeader (net_env N i) (store c') k = GetHeader (net_env N i) (store c) k"
    and "prepare c' = prepare c" "locked c' = locked c" "commit c' = commit c" "voted c \<le> voted c'"
    and "vt_Header (votes c') = vt_Header (votes c) \<or> vt_Header (votes c') = None"
  shows "localInv i G c'"
  using assms unfolding localInv_def by (elim disjE) (simp_all, (meson order_trans)+)

lemma reads_after:
  assumes "i \<in> net_honest N"
  shows "SetTag (envAt N i L) s t x = Inr s' \<Longrightarrow> t \<in> set storeTags \<Longrightarrow> GetHeader (net_env N i) s' k = GetHeader (net_env N i) s k"
    and "SaveView (envAt N i L) s v = Inr s' \<Longrightarrow> GetHeader (net_env N i) s' k = GetHeader (net_env N i) s k"
    and "SaveVoted (envAt N i L) s v = Inr s' \<Longrightarrow> GetHeader (net_env N i) s' k = GetHeader (net_env N i) s k"
    and "SaveData (envAt N i L) s x d = Inr s' \<Longrightarrow> GetHeader (net_env N i) s' k = GetHeader (net_env N i) s k"
    and "SaveCertificate (envAt N i L) s y = Inr s' \<Longrightarrow> GetHeader (net_env N i) s' k = GetHeader (net_env N i) s k"
    and "SaveHeader (envAt N i L) s h = Inr s' \<Longrightarrow> Header_Size h < 2 ^ 63 \<Longrightarrow>
      GetHeader (net_env N i) s' k = (if k = hash h then Inr h else GetHeader (net_env N i) s k)"
  using replica.GetHeader_frame [OF envAt_replica, of N i] replica.GetHeader_SaveHeader [OF envAt_replica, of N i] environment [OF assms]
  by auto

subsection \<open>One action\<close>

text \<open>
  The certificates a replica accepts while it runs: for the genesis block, or for a backed
  one. A certified block with a stored parent is of the second kind.
\<close>

definition certsBacked :: "uint64 \<Rightarrow> Vote list \<Rightarrow> uint64 ballot list \<Rightarrow> bool" where
  "certsBacked i L G \<longleftrightarrow> (\<forall>k asig. certifiedBy (envAt N i L) k asig \<longrightarrow> k = hash (net_genesis N) \<or> backed G k)"

lemma certified_child:
  assumes "localInv i G c" "i \<in> net_honest N" "certsBacked i L G" "certifiedBy (envAt N i L) k asig"
    and p: "GetHeader (net_env N i) (store c) k = Inr p"
    and x: "GetHeader (net_env N i) (store c) (Header_Parent p) = Inr x"
  shows "backed G (hash p)" and "Header_Parent p = hash x" and "p \<in> net_headers N" and "x \<in> net_headers N"
proof -
  note p' = stored [OF assms(1,2) p] and x' = stored [OF assms(1,2) x]
  show link: "Header_Parent p = hash x" and "p \<in> net_headers N" and "x \<in> net_headers N" using p' x' by simp_all
  have "hash p \<noteq> hash (net_genesis N)" using not_genesis [OF link x'(1)] same_hash [OF p'(1) genesis_known] by blast
  then show "backed G (hash p)" using assms(3,4) p'(2) by (auto simp: certsBacked_def)
qed

lemma raise_prepare_local:
  assumes inv: "localInv i G c" and i: "i \<in> net_honest N"
    and "replicaInv (net_env N i) (c\<lparr>prepare := h, prepareCert := cert, store := s, progress := p\<rparr>)"
    and "Header_View (prepare c) < Header_View h"
    and src: "GetHeader (net_env N i) (store c) k = Inr h \<or> vt_Header (votes c) = Some h"
    and tag: "SetTag (envAt N i L) (store c) PrepareTag (hashOf (envAt N i L) h) = Inr s"
  shows "localInv i G (c\<lparr>prepare := h, prepareCert := cert, store := s, progress := p\<rparr>)"
proof -
  have "h \<in> net_headers N" using src inv stored(1) [OF inv i] by (auto simp: localInv_def)
  then show ?thesis
    using inv assms(3,4) reads_after(1) [OF i tag] by (auto simp: localInv_def storeTags_def)
qed

lemma raise_locked_local:
  assumes inv: "localInv i G c" and i: "i \<in> net_honest N" and "sound G" and certs: "certsBacked i L G"
    and "replicaInv (net_env N i) (c\<lparr>locked := h, store := s\<rparr>)"
    and "Header_View (locked c) < Header_View h"
    and p: "GetHeader (net_env N i) (store c) k = Inr p" "certifiedBy (envAt N i L) k asig"
    and "Header_View p \<le> Header_View (prepare c)"
    and h: "GetHeader (net_env N i) (store c) (Header_Parent p) = Inr h"
    and tag: "SetTag (envAt N i L) (store c) LockedTag (hashOf (envAt N i L) h) = Inr s"
  shows "localInv i G (c\<lparr>locked := h, store := s\<rparr>)"
proof -
  note child = certified_child [OF inv i certs p(2,1) h]
  have "Header_View h < Header_View p" by (rule parent_view [OF assms(3) child(1,3,4,2)])
  then have "Header_View h \<le> Header_View (prepare c)" using assms(9) by simp
  moreover have "l \<le> Header_View h" if "(i, x, l) \<in> set G" for x l
  proof -
    have "l \<le> Header_View (locked c)" using inv that unfolding localInv_def by blast
    then show ?thesis using assms(6) by simp
  qed
  ultimately show ?thesis
    using inv assms(5,6) child(4) reads_after(1) [OF i tag] by (auto simp: localInv_def storeTags_def)
qed

lemma raise_commit_local:
  assumes inv: "localInv i G c" and i: "i \<in> net_honest N" and certs: "certsBacked i L G"
    and "replicaInv (net_env N i) (c\<lparr>commit := h, store := s, progress := q\<rparr>)"
    and p: "GetHeader (net_env N i) (store c) k = Inr p" "certifiedBy (envAt N i L) k asig"
    and g: "GetHeader (net_env N i) (store c) (Header_Parent p) = Inr g"
    and h: "GetHeader (net_env N i) (store c) (Header_Parent g) = Inr h"
    and views: "Header_View p - Header_View g = 1" "Header_View g - Header_View h = 1"
    and tag: "SetTag (envAt N i L) (store c) DecideTag (hashOf (envAt N i L) h) = Inr s"
  shows "localInv i G (c\<lparr>commit := h, store := s, progress := q\<rparr>)"
proof -
  note child = certified_child [OF inv i certs p(2,1) g] and h' = stored [OF inv i h]
  have "Header_View p = Header_View g + 1" "Header_View g = Header_View h + 1"
    using views by (simp_all add: diff_eq_eq add.commute)
  then have "commits G h"
    unfolding commits_def using child h'(1) h'(2) [symmetric] by (intro exI [of _ g] exI [of _ p] conjI) assumption+
  then show ?thesis
    using inv assms(4) h'(1) reads_after(1) [OF i tag] by (auto simp: localInv_def storeTags_def)
qed

lemma save_header_local:
  assumes inv: "localInv i G c" and i: "i \<in> net_honest N" and "replicaInv (net_env N i) (c\<lparr>store := s\<rparr>)"
    and "Header_Size h < 2 ^ 63" and "admitted N i c h" and save: "SaveHeader (envAt N i L) (store c) h = Inr s"
  shows "localInv i G (c\<lparr>store := s\<rparr>)"
proof -
  have reads: "GetHeader (net_env N i) s k = (if k = hash h then Inr h else GetHeader (net_env N i) (store c) k)" for k
    using reads_after(6) [OF i save assms(4)] .
  have "x \<in> net_headers N \<and> (x = net_genesis N \<or> (\<exists>p. GetHeader (net_env N i) s (Header_Parent x) = Inr p))"
    if "GetHeader (net_env N i) s k = Inr x" for k x
  proof (cases "k = hash h")
    case True
    with that have "x = h" by (simp add: reads)
    then show ?thesis using assms(5) by (auto simp: admitted_def reads)
  next
    case False
    with that have "GetHeader (net_env N i) (store c) k = Inr x" by (simp add: reads)
    from stored [OF inv i this] show ?thesis by (auto simp: reads)
  qed
  then show ?thesis using inv assms(3) by (auto simp: localInv_def)
qed

text \<open>The heart of the matter: what \<open>voteChecked\<close> says of a ballot.\<close>

lemma vote_ballotOk:
  assumes inv: "localInv i G c" and i: "i \<in> net_honest N" and certs: "certsBacked i L G"
    and chk: "voteChecked (envAt N i L) c h"
  shows "ballotOk G (i, h, Header_View (locked c))"
proof -
  let ?E = "net_env N i" and ?l = "Header_View (locked c)"
  have H: "blake2s (net_env N i) = net_hash N" using environment [OF i] by simp
  have h: "GetHeader ?E (store c) (hash h) = Inr h" and fresh: "voted c < Header_View h"
    and parent: "Header_Parent h = hash (net_genesis N) \<or> backed G (Header_Parent h)"
    and safe: "safeNode (envAt N i L) c h"
    using chk certs by (auto simp: voteChecked_def H certsBacked_def)
  obtain p0 where p0: "Header_Parent h \<noteq> hash h \<Longrightarrow> GetHeader ?E (store c) (Header_Parent h) = Inr p0"
    and lock: "lockCaughtUp (envAt N i L) c h p0"
    using chk by (auto simp: voteChecked_def H)
  obtain p where p: "GetHeader ?E (store c) (Header_Parent h) = Inr p"
    and safe: "Header_Parent h = hash (locked c) \<or> Header_Parent h = hash (prepare c) \<or> Header_View (locked c) < Header_View p"
    using safe by (auto simp: safeNode_def H split: sum.splits if_splits)
  note p' = stored [OF inv i p] and h' = stored [OF inv i h]
  have tops: "prepare c \<in> net_headers N" "locked c \<in> net_headers N" "?l \<le> Header_View (prepare c)"
    using inv by (simp_all add: localInv_def)
  have "?l \<le> Header_View p"
    using safe p'(2) same_hash [OF p'(1) tops(1)] same_hash [OF p'(1) tops(2)] tops(3) by auto
  moreover have "Header_View x \<le> ?l"
    if x: "x \<in> net_headers N" "Header_Parent p = hash x" "x \<noteq> h" and y: "y \<in> net_headers N" "Header_Parent x = hash y" "y \<noteq> h" for x y
  proof -
    have diff: "hash x \<noteq> hash h" "hash y \<noteq> hash h" using same_hash h'(1) x y by blast+
    have "Header_Parent h \<noteq> hash h" using p'(2) p h same_hash diff(1) x(2) by (metis Inr_inject)
    then have "p = p0" using p p0 by simp
    have "GetHeader ?E (store c) (Header_Parent p) = Inr x" by (rule stored_parent [OF inv i p x(2,1)])
    moreover from this have "GetHeader ?E (store c) (Header_Parent x) = Inr y" by (rule stored_parent [OF inv i _ y(2,1)])
    ultimately show ?thesis using lock diff x(2) y(2) \<open>p = p0\<close> by (auto simp: lockCaughtUp_def H)
  qed
  moreover have "\<forall>h' l'. (i, h', l') \<in> set G \<longrightarrow> Header_View h' < Header_View h \<and> l' \<le> ?l"
    using inv fresh unfolding localInv_def by (meson le_less_trans)
  moreover have "Header_View (net_genesis N) \<le> ?l" "Header_View (net_genesis N) < Header_View h"
    using inv fresh unfolding localInv_def by (auto intro: le_less_trans)
  ultimately show ?thesis
    unfolding ballotOk_def split_conv using parent h'(1) p'(1,2) by (intro conjI bexI [of _ p]) auto
qed

lemma vote_local:
  assumes inv: "localInv i G c" and i: "i \<in> net_honest N" and "certsBacked i L G"
    and "replicaInv (net_env N i) (c\<lparr>voted := Header_View h, store := s, votes := Votes_Start H (votes c) h, progress := q\<rparr>)"
    and chk: "voteChecked (envAt N i L) c h" and save: "SaveVoted (envAt N i L) (store c) (Header_View h) = Inr s"
  shows "localInv i (G @ [(i, h, Header_View (locked c))])
    (c\<lparr>voted := Header_View h, store := s, votes := Votes_Start H (votes c) h, progress := q\<rparr>)"
proof -
  have ok: "ballotOk G (i, h, Header_View (locked c))" by (rule vote_ballotOk [OF inv i assms(3) chk])
  have old: "Header_View x \<le> Header_View h" if "(i, x, l) \<in> set G" for x l
    using ok that unfolding ballotOk_def split_conv by (meson less_imp_le)
  have h: "h \<in> net_headers N" "Header_View (net_genesis N) \<le> Header_View h" using ok by (auto simp: ballotOk_def)
  have mono: "commits G b \<Longrightarrow> commits (G @ [x]) b" for b x by (rule commits_mono) auto
  show ?thesis
    using inv assms(4) h old mono reads_after(3) [OF i save] unfolding localInv_def
    by (auto simp: Votes_Start_def)
qed

text \<open>An action keeps the invariant and casts the ballots of the votes it emits.\<close>

text \<open>A move that leaves headers, blocks and votes alone, or only raises what is voted.\<close>

lemma framed_move:
  assumes "localInv i G c" and "sound G" and "replicaInv (net_env N i) c'" and "cid c' = cid c"
    and "\<And>k. GetHeader (net_env N i) (store c') k = GetHeader (net_env N i) (store c) k"
    and "prepare c' = prepare c" "locked c' = locked c" "commit c' = commit c" "voted c \<le> voted c'"
    and "vt_Header (votes c') = vt_Header (votes c) \<or> vt_Header (votes c') = None"
    and "emits c ms c'" and "votesIn ms = []"
  shows "\<exists>B ms. sound (G @ B) \<and> localInv i (G @ B) c' \<and> emits c ms c' \<and> matches N (votesIn ms) B \<and> fst ` set B \<subseteq> {i}"
  using localInv_frame [OF assms(1,3-10)] assms(2,11,12) by (intro exI [of _ "[]"] exI [of _ ms]) simp

lemma vote_move:
  assumes inv: "localInv i G c" and i: "i \<in> net_honest N" and "sound G" and certs: "certsBacked i L G"
    and chk: "voteChecked (envAt N i L) c h" and save: "SaveVoted (envAt N i L) (store c) (Header_View h) = Inr s"
    and c': "c' = c\<lparr>voted := Header_View h, store := s, votes := Votes_Start H (votes c) h,
      progress := AddMessage (progress c)
        (NewVoteMsg \<lparr>Vote_Block = hashOf (envAt N i L) h, Vote_View = Header_View h, Vote_Voter = cid c, Vote_Sig = sig\<rparr>) to\<rparr>"
    and inv': "replicaInv (net_env N i) c'"
  shows "\<exists>B ms. sound (G @ B) \<and> localInv i (G @ B) c' \<and> emits c ms c' \<and> matches N (votesIn ms) B \<and> fst ` set B \<subseteq> {i}"
proof -
  let ?b = "(i, h, Header_View (locked c))"
  let ?m = "\<lparr>Recipients = to, MsgTo_Message = NewVoteMsg \<lparr>Vote_Block = hashOf (envAt N i L) h,
    Vote_View = Header_View h, Vote_Voter = cid c, Vote_Sig = sig\<rparr>\<rparr>"
  have "localInv i (G @ [?b]) c'" using vote_local [OF inv i certs _ chk save] inv' unfolding c' by blast
  moreover have "sound (G @ [?b])" by (rule sound_snoc [OF assms(3) vote_ballotOk [OF inv i certs chk]])
  moreover have "emits c [?m] c'" by (simp add: c' emits_def AddMessage_def)
  moreover have "cid c = i" "blake2s (net_env N i) = net_hash N" using inv environment [OF i] by (auto simp: localInv_def)
  ultimately show ?thesis by (intro exI [of _ "[?b]"] exI [of _ "[?m]"]) (simp add: matches_def)
qed

lemma move_local:
  assumes move: "move (admitted N i) (envAt N i L) c c'" and inv: "localInv i G c" and i: "i \<in> net_honest N"
    and sound: "sound G" and certs: "certsBacked i L G"
  shows "\<exists>B ms. sound (G @ B) \<and> localInv i (G @ B) c' \<and> emits c ms c' \<and> matches N (votesIn ms) B \<and> fst ` set B \<subseteq> {i}"
proof -
  have E: "replica (envAt N i L)" using environment [OF i] envAt_replica by auto
  have inv': "replicaInv (net_env N i) c'"
    using replica.act_replicaInv [OF E move_act [OF move]] inv by (simp add: localInv_def)
  have quiet: ?thesis if "localInv i G c'" "emits c [] c'"
    using that sound by (intro exI [of _ "[]"]) simp
  note framed = framed_move [OF inv sound inv', of "[]"] framed_move [OF inv sound inv', of "[_]"]
  show ?thesis
    using move
  proof cases
    case (vote h s sig leader)
    then show ?thesis using vote_move [OF inv i sound certs vote(2,3,1) inv'] by blast
  next
    case (raise_prepare h k s cert)
    then show ?thesis using raise_prepare_local [OF inv i] inv' by (intro quiet) (auto simp: emits_def AddHeader_def)
  next
    case (raise_locked h k p asig s)
    then show ?thesis using raise_locked_local [OF inv i sound certs] inv' by (intro quiet) (auto simp: emits_def)
  next
    case (raise_commit h k p asig g s)
    then show ?thesis using raise_commit_local [OF inv i certs] inv' by (intro quiet) (auto simp: emits_def AddHeader_def)
  next
    case (save_header h s)
    then show ?thesis using save_header_local [OF inv i] inv' by (intro quiet) (auto simp: emits_def)
  next
    case (new_view s sig leader)
    then show ?thesis by (intro framed(2)) (auto simp: reads_after(3) [OF i new_view(3)] emits_def AddMessage_def)
  next
    case (propose p h)
    then show ?thesis by (intro framed(2)) (auto simp: emits_def AddMessage_def)
  next
    case (enter_view v s)
    then show ?thesis by (intro framed(1)) (simp_all add: reads_after(2) [OF i enter_view(3)] Votes_Reset_def emits_def)
  next
    case (save_data k d s)
    then show ?thesis by (intro framed(1)) (simp_all add: reads_after(4) [OF i save_data(2)] emits_def)
  next
    case (save_cert cert s)
    then show ?thesis by (intro framed(1)) (simp_all add: reads_after(5) [OF i save_cert(2)] emits_def)
  next
    case (votes_collect v b vs)
    then show ?thesis by (intro framed(1)) (simp_all add: Votes_Collect_fields(1) [OF votes_collect(2)] emits_def)
  qed (rule framed(1); simp add: emits_def Votes_Reset_def)+
qed

lemma certsBacked_mono: "certsBacked i L G \<Longrightarrow> certsBacked i L (G @ B)"
  unfolding certsBacked_def using backed_mono [of G _ "G @ B"] by fastforce

lemma moves_local:
  assumes "moves (admitted N i) (envAt N i L) c c'" and "localInv i G c" and "i \<in> net_honest N" and "sound G" and "certsBacked i L G"
  shows "\<exists>B ms. sound (G @ B) \<and> localInv i (G @ B) c' \<and> emits c ms c' \<and> matches N (votesIn ms) B \<and> fst ` set B \<subseteq> {i}"
  using assms(1)
proof (induction rule: rtranclp_induct)
  case base
  show ?case using assms by (intro exI [of _ "[]"]) (simp add: emits_def)
next
  case (step d d')
  then obtain B ms where B: "sound (G @ B)" "localInv i (G @ B) d" "emits c ms d" "matches N (votesIn ms) B" "fst ` set B \<subseteq> {i}"
    by blast
  obtain C ns where C: "sound (G @ B @ C)" "localInv i (G @ B @ C) d'" "emits d ns d'" "matches N (votesIn ns) C" "fst ` set C \<subseteq> {i}"
    using move_local [OF step(2) B(2) assms(3) B(1) certsBacked_mono [OF assms(5)]] by auto
  have "emits c (ms @ ns) d'" using B(3) C(3) by (simp add: emits_def)
  moreover have "matches N (votesIn (ms @ ns)) (B @ C)" using matches_append [OF B(4) C(4)] by simp
  moreover have "fst ` set (B @ C) \<subseteq> {i}" using B(5) C(5) by auto
  ultimately show ?case using C(1,2) by (intro exI [of _ "B @ C"] exI [of _ "ms @ ns"]) simp
qed

lemma turn_moves: "turn P E c c' \<Longrightarrow> replica E \<Longrightarrow> moves P E c c'"
  by (induction rule: turn.induct)
    (auto intro: replica.Step_moves replica.Tick_acts replica.Start_acts replica.Send_moves)

subsection \<open>Restarts\<close>

lemma tag_restored:
  assumes inv: "localInv i G c" and i: "i \<in> net_honest N" and t: "tagged (net_env N i) (store c) t h" "h \<in> net_headers N" "t \<in> set storeTags"
    and get: "GetTagHeader (envAt N i L) (store c) t = Inr h'"
  shows "h' = h"
proof -
  have H: "blake2s (net_env N i) = net_hash N" using environment [OF i] by simp
  have "GetTag (envAt N i L) (store c) t = GetTag (net_env N i) (store c) t" by (simp add: GetTag_def dbGet_def)
  then obtain k where "GetTag (net_env N i) (store c) t = Inr k" and k: "GetHeader (net_env N i) (store c) k = Inr h'"
    using get by (auto simp: GetTagHeader_Inr_iff)
  then have "k = hash h" using t(1,3) by (simp add: tagged_def absOf_def H)
  then show ?thesis using same_hash [OF stored(1) [OF inv i k] t(2)] stored(2) [OF inv i k] by simp
qed

lemma restart_local:
  assumes inv: "localInv i G c" and i: "i \<in> net_honest N"
    and new: "newConsensus (envAt N i L) (store c) (cid c) (replicas c) = Inr c'"
  shows "localInv i G c'"
proof -
  have E: "replica (envAt N i L)" using environment [OF i] envAt_replica by auto
  note f = replica.newConsensus_fields [OF E new]
  have pers: "persisted (net_env N i) c" and intact: "intact (net_env N i) (store c)"
    and tops: "prepare c \<in> net_headers N" "locked c \<in> net_headers N" "commit c \<in> net_headers N"
    using inv by (simp_all add: localInv_def replicaInv_def)
  have "prepare c' = prepare c" "locked c' = locked c" "commit c' = commit c"
    using tag_restored [OF inv i _ tops(1) _ f(3)] tag_restored [OF inv i _ tops(2) _ f(4)] tag_restored [OF inv i _ tops(3) _ f(5)]
      pers by (simp_all add: persisted_def storeTags_def)
  moreover have "voted c' = voted c" using f(2) pers by (simp add: persisted_def)
  moreover have "replicaInv (net_env N i) c'" using replica.newConsensus_replicaInv [OF E new] intact by simp
  ultimately show ?thesis
    by (intro localInv_frame [OF inv]) (use f(7,8,11) in \<open>simp_all add: NewVotes_def\<close>)
qed

subsection \<open>The whole system\<close>

definition netInv :: "uint64 ballot list \<Rightarrow> (uint64 \<Rightarrow> 'db consensus) \<times> Vote list \<Rightarrow> bool" where
  "netInv G gs \<longleftrightarrow> sound G \<and> matches N (snd gs) G \<and> (\<forall>i \<in> net_honest N. localInv i G (fst gs i))"

lemma localInv_others: "localInv j G c \<Longrightarrow> fst ` set B \<subseteq> {i} \<Longrightarrow> i \<noteq> j \<Longrightarrow> localInv j (G @ B) c"
  unfolding localInv_def using commits_mono [of G _ "G @ B"] by fastforce

lemma net_netInv: "net N gs gs' \<Longrightarrow> netInv G gs \<Longrightarrow> \<exists>B. netInv (G @ B) gs'"
proof (induction rule: net.induct)
  case (turn i L g c' ms)
  then have G: "sound G" "matches N L G" "\<forall>j \<in> net_honest N. localInv j G (g j)" by (auto simp: netInv_def)
  have "certsBacked i L G"
    using unforgeable backed_quorum [OF G(2)] by (auto simp: certsBacked_def certifiedBy_def)
  moreover have "moves (admitted N i) (envAt N i L) (g i) c'"
    using turn_moves [OF turn(2) envAt_replica] environment [OF turn(1)] by blast
  ultimately obtain B ns where B: "sound (G @ B)" "localInv i (G @ B) c'" "emits (g i) ns c'" "matches N (votesIn ns) B" "fst ` set B \<subseteq> {i}"
    using moves_local [of i L "g i" c' G] G(1,3) turn(1) by blast
  have "ns = ms" using B(3) turn(3) by (simp add: emits_def)
  then have "netInv (G @ B) (g(i := c'), L @ votesIn ms)"
    using B matches_append [OF G(2)] localInv_others [OF _ B(5)] G(3) by (auto simp: netInv_def)
  then show ?case by blast
next
  case (handover g L i p)
  have "localInv j G c \<Longrightarrow> localInv j G (c\<lparr>progress := p\<rparr>)" for j G c by (simp add: localInv_def)
  then show ?case using handover by (intro exI [of _ "[]"]) (auto simp: netInv_def)
next
  case (restart i L g c')
  then show ?case using restart_local [OF _ restart(1,2)] by (intro exI [of _ "[]"]) (auto simp: netInv_def)
qed

lemma nets_netInv: "(net N)\<^sup>*\<^sup>* gs gs' \<Longrightarrow> netInv G gs \<Longrightarrow> \<exists>B. netInv (G @ B) gs'"
proof (induction rule: rtranclp_induct)
  case base
  then show ?case by (intro exI [of _ "[]"]) simp
next
  case (step hs hs')
  then show ?case using net_netInv [OF step(2)] by (metis append_assoc)
qed

lemma booted_local:
  assumes "i \<in> net_honest N" and "booted N i c"
  shows "localInv i [] c"
proof -
  have E: "replica (net_env N i)" and H: "blake2s (net_env N i) = net_hash N" using environment [OF assms(1)] by auto
  obtain s b s' cert where boot: "\<forall>k. \<exists>e. GetHeader (net_env N i) s k = Inl e"
    "Block_Header b = Some (net_genesis N)" "Block_Cert b = Some cert" "Certificate_Block cert = hash (net_genesis N)"
    "Header_Size (net_genesis N) < 2 ^ 63" "Certificate_Size cert < 2 ^ 63" "Certificate_wf cert"
    and import: "ImportGenesis (net_env N i) s b = Inr (Inr s')" and new: "newConsensus (net_env N i) s' i (net_replicas N) = Inr c"
    using assms(2) by (auto simp: booted_def)
  obtain e where e: "GetHeader (net_env N i) s (hashOf (net_env N i) (net_genesis N)) = Inl e" using boot(1) by blast
  have "intact (net_env N i) s" using boot(1) by (auto simp: intact_def) (metis Inl_Inr_False)
  with replica.ImportGenesis_start [OF E import boot(2,3) e boot(5-7), of i "net_replicas N"] boot(4) new
  have c: "voted c = Header_View (net_genesis N)" "prepare c = net_genesis N" "locked c = net_genesis N" "commit c = net_genesis N"
    "replicaInv (net_env N i) c"
    by (auto simp: H)
  have "a_headers (absOf (net_env N i) s') = (a_headers (absOf (net_env N i) s))(hash (net_genesis N) \<mapsto> net_genesis N)"
    using replica.ImportGenesis_abs(4) [OF E import boot(2,3) e boot(5-7)] boot(4) by (simp add: H)
  moreover have "a_headers (absOf (net_env N i) s) k = None" for k using boot(1) [rule_format, of k] by (auto simp: absOf_def)
  ultimately have "h = net_genesis N" if "GetHeader (net_env N i) (store c) k = Inr h" for k h
    using that replica.newConsensus_fields(7) [OF E new] by (simp add: GetHeader_abs split: if_splits)
  then show ?thesis
    using c genesis_known replica.newConsensus_fields(8,11) [OF E new] by (auto simp: localInv_def NewVotes_def)
qed

lemma honest_agreement:
  assumes "\<forall>i \<in> net_honest N. booted N i (g0 i)" and "(net N)\<^sup>*\<^sup>* (g0, []) (g, L)" and "(net N)\<^sup>*\<^sup>* (g, L) (g', L')"
    and "i \<in> net_honest N" and "j \<in> net_honest N"
  shows "extends hash (net_headers N) (commit (g i)) (commit (g' j)) \<or> extends hash (net_headers N) (commit (g' j)) (commit (g i))"
proof -
  have "netInv [] (g0, [])" using assms(1) booted_local by (simp add: netInv_def)
  then obtain A where A: "netInv A (g, L)" using nets_netInv [OF assms(2)] by auto
  then obtain B where B: "netInv (A @ B) (g', L')" using nets_netInv [OF assms(3)] by blast
  have "commit (g i) = net_genesis N \<or> commits (A @ B) (commit (g i))"
    using A assms(4) commits_mono [of A _ "A @ B"] by (auto simp: netInv_def localInv_def)
  moreover have "commit (g' j) = net_genesis N \<or> commits (A @ B) (commit (g' j))"
    using B assms(5) by (auto simp: netInv_def localInv_def)
  ultimately show ?thesis using agreement B by (auto simp: netInv_def)
qed

end

end
