(* ===== verification/Example.thy ===== *)
theory Example
  imports Streams Deployment Agreement
begin

text \<open>
  A small deployment at which the theorems are applied: four replicas with the keys 1 to 4,
  the database in memory, the first 32 bytes of the input as digest, and the instance of
  the signature scheme from \<open>Crypto\<close>. Replica 0 starts from a signed genesis block of
  view 2 and receives the proposal of view 3 from its leader, replica 3. As the leader of
  view 4 it collects the votes for that proposal.
\<close>

definition exConf :: "byte Config" where
  "exConf = \<lparr>conf_ID = 1, conf_Replicas = [1, 2, 3, 4]\<rparr>"

definition exEnv :: "(bytes \<Rightarrow> bytes option) CEnv" where
  "exEnv = nodeEnv symBLS (memEnv copy32) 1 exConf"

definition exGenesisHeader :: Header where
  "exGenesisHeader = Header_zero\<lparr>Header_View := 2, Header_DataRoot := [7]\<rparr>"

definition exHash :: bytes where
  "exHash = Header_Hash copy32 exGenesisHeader"

definition exAgg :: AggregatedSignature where
  "exAgg = \<lparr>AggregatedSignature_Voters = [0, 1, 2, 3],
     AggregatedSignature_Sig = Some (concat (map (\<lambda>k. domain @ exHash @ [k]) [1, 2, 3, 4]))\<rparr>"

definition exCert :: Certificate where
  "exCert = \<lparr>Certificate_Block = exHash, Certificate_Sig = Some exAgg\<rparr>"

definition exGenesis :: Block where
  "exGenesis = \<lparr>Block_Header = Some exGenesisHeader, Block_Data = Some Data_zero, Block_Cert = Some exCert\<rparr>"

definition exStore :: "bytes \<Rightarrow> bytes option" where
  "exStore = (case ImportGenesis exEnv memDB exGenesis of Inr (Inr s) \<Rightarrow> s | _ \<Rightarrow> memDB)"

definition exHeader :: Header where
  "exHeader = \<lparr>Header_View = 3, Header_Parent = exHash, Header_ParentView = 2, Header_DataRoot = [], Header_StateRoot = []\<rparr>"

definition exProposal :: Proposal where
  "exProposal = \<lparr>Proposal_Header = Some exHeader, Proposal_Data = Some Data_zero,
     Proposal_Sig = domain @ Header_Hash copy32 exHeader @ [4],
     Proposal_ParentCert = Some exCert, Proposal_Timeout = None\<rparr>"

definition exVote :: "nat \<Rightarrow> Vote" where
  "exVote i = \<lparr>Vote_Block = Header_Hash copy32 exHeader, Vote_View = 3, Vote_Voter = of_nat i,
     Vote_Sig = domain @ Header_Hash copy32 exHeader @ [of_nat i + 1]\<rparr>"

section \<open>The environment\<close>

lemma exEnv_memNode: "exEnv = memNode (\<lambda>x. x) (BLS12381Signer_Sign symBLS 1)
    (NewBLS12381Verifier symBLS (majorityOf [1, 2, 3, 4 :: byte]) [1, 2, 3, 4])"
  by (simp add: exEnv_def nodeEnv_def memNode_def memEnv_def exConf_def majorityOf_def)

lemma exEnv_running: "running exEnv"
  unfolding exEnv_memNode by (rule memrun.running_axioms)

lemma exEnv_replica: "replica exEnv"
  unfolding exEnv_memNode by (rule memnode.replica_axioms)

lemma exEnv_leveldb: "leveldb exEnv"
  using exEnv_replica by (simp add: replica_def)

lemma exEnv_certifying: "certifying exEnv 3 (bls_good symBLS [1, 2, 3, 4])"
  using symnode.certifying_axioms [of "\<lambda>x. x" "BLS12381Signer_Sign symBLS 1" "[1, 2, 3, 4 :: byte]" "[1, 2, 3, 4]"]
  by (simp add: exEnv_memNode majorityOf_def)

lemma exEnv_hash [simp]: "blake2s exEnv = copy32"
  by (simp add: exEnv_def nodeEnv_def memEnv_def)

lemma copy32_id [simp]: "length x = 32 \<Longrightarrow> copy32 x = x"
  by (simp add: copy32_def)

lemma exHash_length [simp]: "length exHash = 32" "length (Header_Hash copy32 h) = 32"
  by (simp_all add: exHash_def Header_Hash_def)

lemma exAgg_verifies: "v_VerifyAggregated (c_verifier exEnv) exHash exAgg"
  by (simp add: exEnv_def nodeEnv_def exConf_def NewBLS12381Verifier_def BLS12381Verifier_VerifyAggregated_def
      exAgg_def symBLS_def Let_def word_le_nat_alt)

lemma ex_leader_verifies: "v_Verify (c_verifier exEnv) 3 (Header_Hash copy32 exHeader) (Proposal_Sig exProposal)"
  by (simp add: exEnv_def nodeEnv_def exConf_def NewBLS12381Verifier_def BLS12381Verifier_Verify_def
      exProposal_def symBLS_def Let_def word_le_nat_alt)

lemma ex_signs: "length m = 32 \<Longrightarrow> c_signer exEnv [] m = Inr (domain @ m @ [1])"
  by (simp add: exEnv_def nodeEnv_def BLS12381Signer_Sign_def symBLS_def)

section \<open>The first start\<close>

lemma ex_puts: "dbPut exEnv s k v = Inr (s(k \<mapsto> v))"
  by (simp add: dbPut_def exEnv_def nodeEnv_def memEnv_def)

lemma ex_empty: "GetHeader exEnv memDB k = Inl (DBErr ''leveldb: not found'')"
  by (simp add: GetHeader_def dbGet_def exEnv_def nodeEnv_def memEnv_def memDB_def)

lemma ex_import: "ImportGenesis exEnv memDB exGenesis = Inr (Inr exStore)"
proof -
  have "\<exists>s. ImportGenesis exEnv memDB exGenesis = Inr (Inr s)"
    by (simp add: ImportGenesis_def exGenesis_def ex_empty SaveHeader_def SaveCertificate_def SaveData_def
        SaveView_def SaveVoted_def SetTag_def ex_puts Let_def)
  then show ?thesis by (auto simp: exStore_def)
qed

lemma ex_sizes: "Header_Size exGenesisHeader < 2 ^ 63" "Header_Size exHeader < 2 ^ 63"
  "Certificate_Size exCert < 2 ^ 63" "Certificate_wf exCert"
proof -
  show "Header_Size exGenesisHeader < 2 ^ 63" "Header_Size exHeader < 2 ^ 63"
    by (rule Header_Size_small; simp add: exGenesisHeader_def exHeader_def Header_zero_def)+
  have "sum_list (map sovTypes [0, 1, 2, 3]) \<le> 40"
    using sovTypes_bounds(2) [of 0] sovTypes_bounds(2) [of 1] sovTypes_bounds(2) [of 2] sovTypes_bounds(2) [of 3]
    by simp
  moreover have "length domain = 8" by (simp add: domain_def)
  ultimately have "AggregatedSignature_Size exAgg \<le> 1000"
    using size_bounds(2) [of "sum_list (map sovTypes [0, 1, 2, 3])"]
      size_bounds(3) [of "concat (map (\<lambda>k. domain @ exHash @ [k]) [1, 2, 3, 4])"]
    by (simp add: AggregatedSignature_Size_def exAgg_def)
  then show "Certificate_Size exCert < 2 ^ 63"
    using size_bounds(2) [of "AggregatedSignature_Size exAgg"] size_bounds(3) [of exHash]
    by (simp add: Certificate_Size_def exCert_def sizeMsg_def)
  show "Certificate_wf exCert" by (simp add: Certificate_wf_def AggregatedSignature_wf_def exCert_def exAgg_def)
qed

lemma ex_intact: "intact exEnv memDB"
  by (simp add: intact_def ex_empty)

definition exReplica :: "(bytes \<Rightarrow> bytes option) consensus" where
  "exReplica = \<lparr>store = exStore, ticks = 0, timeout = 0, cid = 0, replicas = [0, 1, 2, 3],
     votes = NewVotes 3, timeouts = NewTimeouts 3, view = 3, voted = 2,
     prepare = exGenesisHeader, locked = exGenesisHeader, commit = exGenesisHeader, prepareCert = exCert,
     timeoutCert = None, progress = Progress_zero, waitingData = False\<rparr>"

lemma ex_first:
  shows "newConsensus exEnv exStore 0 [0, 1, 2, 3] = Inr exReplica" and "replicaInv exEnv exReplica"
proof -
  obtain c where c: "newConsensus exEnv exStore 0 [0, 1, 2, 3] = Inr c" and inv: "replicaInv exEnv c"
    and f: "view c = 3" "voted c = 2" "prepare c = exGenesisHeader" "locked c = exGenesisHeader"
      "commit c = exGenesisHeader" "prepareCert c = exCert"
    using replica.ImportGenesis_start [OF exEnv_replica ex_import, of exGenesisHeader exCert _ 0 "[0, 1, 2, 3]"]
      ex_sizes ex_empty ex_intact
    by (auto simp: exGenesis_def exCert_def exHash_def exGenesisHeader_def Header_zero_def)
  have "c = exReplica"
    using c f by (auto simp: newConsensus_def exReplica_def majorityOf_def elim!: rbind_InrE)
  then show "newConsensus exEnv exStore 0 [0, 1, 2, 3] = Inr exReplica" and "replicaInv exEnv exReplica"
    using c inv by simp_all
qed

lemma ex_sane: "sane exReplica"
  using ex_first(2) by (rule replicaInv_sane) (simp add: exReplica_def)

lemma ex_node: "NewNode symBLS (memEnv copy32) exStore 1 exConf = Inr (nodeOf exReplica)"
  using ex_first(1) unfolding exEnv_def
  by (simp add: NewNode_def exConf_def replicaIds_def upt_rec)

section \<open>A vote\<close>

lemma ex_headers: "GetHeader exEnv exStore exHash = Inr exGenesisHeader" "\<exists>e. GetHeader exEnv exStore [] = Inl e"
proof -
  have abs: "a_headers (absOf exEnv exStore) = (a_headers (absOf exEnv memDB))(exHash \<mapsto> exGenesisHeader)"
    using replica.ImportGenesis_abs(4) [OF exEnv_replica ex_import, of exGenesisHeader exCert] ex_sizes ex_empty
    by (simp add: exGenesis_def exCert_def exHash_def)
  then show "GetHeader exEnv exStore exHash = Inr exGenesisHeader" by (simp add: GetHeader_abs)
  have "exHash \<noteq> []" using exHash_length(1) by fastforce
  then have "a_headers (absOf exEnv exStore) [] = None" using abs by (simp add: absOf_def ex_empty)
  then show "\<exists>e. GetHeader exEnv exStore [] = Inl e" by (cases "GetHeader exEnv exStore []") (simp_all add: absOf_def)
qed

lemma ex_check: "checkProposal exEnv exReplica exHeader exCert None (Proposal_Sig exProposal) = Inr (Accepted exGenesisHeader)"
  using exAgg_verifies ex_leader_verifies ex_headers(1)
  by (simp add: checkProposal_def verifyAggregated_def getLeader_def exCert_def exHeader_def exReplica_def)

lemma ex_updates:
  shows "updatePrepare exEnv exReplica exGenesisHeader exCert = Inr exReplica"
    and "syncView exEnv exReplica exGenesisHeader None = Inr exReplica"
    and "update exEnv exReplica exGenesisHeader = Inr exReplica"
  using ex_headers(2)
  by (auto simp: updatePrepare_def syncView_def update_def exReplica_def exGenesisHeader_def Header_zero_def)

lemma ex_certs: "a_certs (absOf exEnv exStore) = [exHash \<mapsto> exCert]"
proof -
  have "a_certs (absOf exEnv memDB) = Map.empty"
    by (simp add: absOf_def GetCertificate_def dbGet_def exEnv_def nodeEnv_def memEnv_def memDB_def fun_eq_iff)
  then show ?thesis
    using replica.ImportGenesis_abs(5) [OF exEnv_replica ex_import, of exGenesisHeader exCert] ex_sizes ex_empty
    by (simp add: exGenesis_def exCert_def exHash_def)
qed

lemma ex_persist:
  obtains s h where "persistProposal exEnv exReplica exProposal = Inr (exReplica\<lparr>store := s\<rparr>)"
    and "GetHeader exEnv s exHash = Inr h" and "a_certs (absOf exEnv s) = [exHash \<mapsto> exCert]"
    and "GetHeader exEnv s (Header_Hash copy32 exHeader) = Inr exHeader"
proof -
  obtain s1 s2 s where s: "persistProposal exEnv exReplica exProposal = Inr (exReplica\<lparr>store := s\<rparr>)"
    and w: "SaveHeader exEnv exStore exHeader = Inr s1" "SaveData exEnv s1 (Header_Hash copy32 exHeader) Data_zero = Inr s2"
      "SaveCertificate exEnv s2 exCert = Inr s"
    by (simp add: persistProposal_def exProposal_def SaveHeader_def SaveData_def SaveCertificate_def ex_puts exReplica_def)
  have "a_certs (absOf exEnv s1) = a_certs (absOf exEnv exStore)"
    using leveldb.SaveHeader_abs [OF exEnv_leveldb w(1) ex_sizes(2)] by simp
  moreover have "a_certs (absOf exEnv s2) = a_certs (absOf exEnv s1)"
    using arg_cong [OF leveldb.SaveData_frame [OF exEnv_leveldb w(2)], of a_certs] by simp
  ultimately have "a_certs (absOf exEnv s) = [exHash \<mapsto> exCert]"
    using leveldb.SaveCertificate_abs [OF exEnv_leveldb w(3)] ex_sizes(3,4) ex_certs by (simp add: exCert_def)
  note s = s this
  note p = replica.persistProposal_acts(2) [OF exEnv_replica s(1), where h = exHeader and P = "\<lambda>_ _. True"]
    replica.persistProposal_acts(3) [OF exEnv_replica s(1), where h = exHeader and k = exHash and P = "\<lambda>_ _. True"]
  have "\<exists>h. GetHeader exEnv s exHash = Inr h"
    using p ex_sizes(2) ex_headers(1)
    by (cases "exHash = Header_Hash copy32 exHeader") (auto simp: exProposal_def exReplica_def)
  moreover have "GetHeader exEnv s (Header_Hash copy32 exHeader) = Inr exHeader"
    using p(1) ex_sizes(2) by (simp add: exProposal_def)
  ultimately show thesis using s that by blast
qed

definition exDelivery :: "MsgTo list" where
  "exDelivery = [\<lparr>Recipients = Some [0], MsgTo_Message = NewVoteMsg (exVote 0)\<rparr>]"

definition exVoted :: "(bytes \<Rightarrow> bytes option) consensus" where
  "exVoted = (case Step exEnv (NewProposalMsg exProposal) exReplica of Inr c \<Rightarrow> c | Inl _ \<Rightarrow> exReplica)"

text \<open>The vote collector with the votes of the first \<open>k\<close> replicas.\<close>

definition exBallot :: "nat \<Rightarrow> Votes" where
  "exBallot k = \<lparr>vt_majority = 3, vt_votes = fset_of_list (map of_nat (rev [0..<k])),
     vt_Cert = Some \<lparr>Certificate_Block = Header_Hash copy32 exHeader,
       Certificate_Sig = Some \<lparr>AggregatedSignature_Voters = map of_nat [0..<k],
         AggregatedSignature_Sig = (if k = 0 then None
           else Some (concat (map (\<lambda>i. domain @ Header_Hash copy32 exHeader @ [of_nat i + 1]) [0..<k])))\<rparr>\<rparr>,
     vt_Header = Some exHeader\<rparr>"

lemma ex_vote_verifies:
  shows "v_Verify (c_verifier exEnv) 0 (Header_Hash copy32 exHeader) (domain @ Header_Hash copy32 exHeader @ [1])"
    and "v_Verify (c_verifier exEnv) 1 (Header_Hash copy32 exHeader) (domain @ Header_Hash copy32 exHeader @ [2])"
    and "v_Verify (c_verifier exEnv) 2 (Header_Hash copy32 exHeader) (domain @ Header_Hash copy32 exHeader @ [3])"
  by (simp_all add: exEnv_def nodeEnv_def exConf_def NewBLS12381Verifier_def BLS12381Verifier_Verify_def
      symBLS_def Let_def word_le_nat_alt)

lemma ex_merge:
  "i < 4 \<Longrightarrow> i \<notin> set vs \<Longrightarrow> v_Merge (c_verifier exEnv) \<lparr>AggregatedSignature_Voters = vs, AggregatedSignature_Sig = sg\<rparr> i sig =
    \<lparr>AggregatedSignature_Voters = vs @ [i], AggregatedSignature_Sig = Some (sigBytes sg @ sig)\<rparr>"
  by (simp add: exEnv_def nodeEnv_def exConf_def NewBLS12381Verifier_def BLS12381Verifier_Merge_def symBLS_def Let_def
      not_le split: option.split)

lemma ex_collect:
  shows "Votes_Collect (c_verifier exEnv) (exBallot 0) (exVote 0) = Inr (False, exBallot 1)"
    and "Votes_Collect (c_verifier exEnv) (exBallot 1) (exVote 1) = Inr (False, exBallot 2)"
    and "Votes_Collect (c_verifier exEnv) (exBallot 2) (exVote 2) = Inr (True, exBallot 3)"
  by (simp_all add: Votes_Collect_def exBallot_def exVote_def Let_def upt_rec ex_vote_verifies ex_merge
      fcard_finsert_if fcard_fempty word_less_nat_alt)

lemma ex_vote:
  shows "Step exEnv (NewProposalMsg exProposal) exReplica = Inr exVoted"
    and "progress exVoted = Progress_zero\<lparr>Messages := exDelivery\<rparr>"
    and "voted exVoted = 3" and "prepare exVoted = exGenesisHeader" and "votes exVoted = exBallot 1"
    and "view exVoted = 3" and "cid exVoted = 0" and "replicas exVoted = [0, 1, 2, 3]"
    and "a_certs (absOf exEnv (store exVoted)) = [exHash \<mapsto> exCert]"
    and "GetHeader exEnv (store exVoted) (Header_Hash copy32 exHeader) = Inr exHeader" and "timeouts exVoted = NewTimeouts 3"
proof -
  obtain s h where s: "persistProposal exEnv exReplica exProposal = Inr (exReplica\<lparr>store := s\<rparr>)"
    and h: "GetHeader exEnv s exHash = Inr h" and cert: "a_certs (absOf exEnv s) = [exHash \<mapsto> exCert]"
    and new: "GetHeader exEnv s (Header_Hash copy32 exHeader) = Inr exHeader" by (rule ex_persist)
  have hash: "Header_Hash copy32 exGenesisHeader = exHash" by (simp add: exHash_def)
  have safe: "safeNode exEnv (exReplica\<lparr>store := s\<rparr>) exHeader"
    using h by (simp add: safeNode_def exHeader_def exReplica_def hash)
  have step: "Step exEnv (NewProposalMsg exProposal) exReplica = sendVote exEnv (exReplica\<lparr>store := s\<rparr>) exHeader"
    using ex_check ex_updates s safe
    by (simp add: Step_def dispatch_def msg_defs onProposal_def exProposal_def)
      (simp add: exHeader_def exReplica_def)
  obtain s' where s': "SaveVoted exEnv s 3 = Inr s'" by (simp add: SaveVoted_def ex_puts)
  have cert: "a_certs (absOf exEnv s') = [exHash \<mapsto> exCert]"
    using leveldb.SaveVoted_abs [OF exEnv_leveldb s'] cert by simp
  have new: "GetHeader exEnv s' (Header_Hash copy32 exHeader) = Inr exHeader"
    using replica.GetHeader_SaveVoted [OF exEnv_replica s'] new by simp
  let ?c = "exReplica\<lparr>store := s', voted := 3, votes := exBallot 0, progress := Progress_zero\<lparr>Messages := exDelivery\<rparr>\<rparr>"
  have start: "Votes_Start copy32 (NewVotes 3) exHeader = exBallot 0"
    by (simp add: Votes_Start_def NewVotes_def exBallot_def AggregatedSignature_zero_def)
  have own: "onVote exEnv ?c (exVote 0) = Inr (?c\<lparr>votes := exBallot 1\<rparr>)"
    using ex_collect(1) by (simp add: onVote_def getLeader_def exReplica_def Let_def exVote_def)
  have view: "Header_View exHeader = 3" by (simp add: exHeader_def)
  have vote: "\<lparr>Vote_Block = Header_Hash copy32 exHeader, Vote_View = 3, Vote_Voter = 0,
      Vote_Sig = domain @ Header_Hash copy32 exHeader @ [1]\<rparr> = exVote 0" by (simp add: exVote_def)
  have "sendVote exEnv (exReplica\<lparr>store := s\<rparr>) exHeader = Inr (?c\<lparr>votes := exBallot 1\<rparr>)"
    using own s' start
    by (simp add: sendVote_def view ex_signs getLeader_def sendMsgWith_def Let_def exReplica_def vote
        stepLeaf_def dispatch_def AddMessage_def Progress_zero_def exDelivery_def)
      (simp add: msg_defs exVote_def)
  with step cert new show "Step exEnv (NewProposalMsg exProposal) exReplica = Inr exVoted"
    and "progress exVoted = Progress_zero\<lparr>Messages := exDelivery\<rparr>"
    and "voted exVoted = 3" and "prepare exVoted = exGenesisHeader" and "votes exVoted = exBallot 1"
    and "view exVoted = 3" and "cid exVoted = 0" and "replicas exVoted = [0, 1, 2, 3]"
    and "a_certs (absOf exEnv (store exVoted)) = [exHash \<mapsto> exCert]"
    and "GetHeader exEnv (store exVoted) (Header_Hash copy32 exHeader) = Inr exHeader" and "timeouts exVoted = NewTimeouts 3"
    by (auto simp: exVoted_def exReplica_def)
qed

lemma ex_cert: "GetCertificate exEnv (store exVoted) exHash = Inr exCert"
  by (simp add: GetCertificate_abs ex_vote(9))

lemma ex_small: "smallMessage (NewProposalMsg exProposal)"
  using ex_sizes(2) by (simp add: smallMessage_def smallProposal_def exProposal_def msg_defs)

lemma ex_voted_acts: "acts exEnv exReplica exVoted"
  by (rule replica.Step_acts [OF exEnv_replica ex_vote(1) ex_small])

lemma ex_voted_inv: "replicaInv exEnv exVoted"
  by (rule replica.acts_replicaInv [OF exEnv_replica ex_voted_acts ex_first(2)])

section \<open>A quorum\<close>

lemma ex_two_votes: "acts exEnv exReplica (exVoted\<lparr>votes := exBallot 2\<rparr>)"
proof -
  have "act exEnv exVoted (exVoted\<lparr>votes := exBallot 2\<rparr>)"
    by (rule move.votes_collect) (use ex_collect(2) ex_vote(5) in auto)
  with ex_voted_acts show ?thesis by (rule rtranclp.rtrancl_into_rtrancl)
qed

lemma ex_quorum:
  obtains c where "onVote exEnv (exVoted\<lparr>votes := exBallot 2\<rparr>) (exVote 2) = Inr c" and "prepare c = exHeader"
proof -
  let ?c = "exVoted\<lparr>votes := exBallot 2\<rparr>"
  have inv: "replicaInv exEnv ?c" by (rule replica.acts_replicaInv [OF exEnv_replica ex_two_votes ex_first(2)])
  then have "sane ?c" by (rule replicaInv_sane) (simp add: ex_vote(8))
  then obtain c where c: "onVote exEnv ?c (exVote 2) = Inr c"
    using running.runs_onVote [OF exEnv_running] by (auto simp: runs_def)
  have lead: "getLeader ?c (Vote_View (exVote 2) + 1) = Inr 0" by (simp add: getLeader_def ex_vote(8) exVote_def)
  obtain cert s c2 c3 where c2: "updatePrepare exEnv (?c\<lparr>votes := exBallot 3, store := s\<rparr>) exHeader cert = Inr c2"
    and c3: "syncView exEnv c2 exHeader None = Inr c3" and last: "nextRoundFalse c3 = Inr c"
    using c ex_collect(3) unfolding onVote_def lead by (auto simp: ex_vote(7) exBallot_def elim!: rbind_InrE)
  have "prepare c2 = exHeader"
    using c2 by (auto simp: updatePrepare_def ex_vote(4) exHeader_def exGenesisHeader_def elim!: rbind_InrE split: if_splits)
  then have "prepare c = exHeader"
    using durable_nextRoundFalse [OF last] durable_syncView(1) [OF c3] by (simp add: durable_def)
  with c that show thesis by blast
qed

section \<open>A timeout\<close>

text \<open>Replica 0 leads view 4 and collects the new-view messages for view 3.\<close>

definition exView :: bytes where
  "exView = HashSum copy32 (EncodeUint64 3)"

definition exNewView :: "nat \<Rightarrow> NewView" where
  "exNewView i = \<lparr>NewView_View = 3, NewView_Voter = of_nat i, NewView_Sig = domain @ exView @ [of_nat i + 1],
     NewView_Cert = Some exCert\<rparr>"

definition exTimeouts :: "nat \<Rightarrow> Timeouts" where
  "exTimeouts k = \<lparr>t_view = 3, t_majority = 3, t_received = fset_of_list (map of_nat (rev [0..<k])),
     t_Cert = Some \<lparr>TimeoutCertificate_View = 3,
       TimeoutCertificate_Sig = Some \<lparr>AggregatedSignature_Voters = map of_nat [0..<k],
         AggregatedSignature_Sig = (if k = 0 then None
           else Some (concat (map (\<lambda>i. domain @ exView @ [of_nat i + 1]) [0..<k])))\<rparr>\<rparr>\<rparr>"

lemma ex_newView_verifies:
  shows "v_Verify (c_verifier exEnv) 0 exView (domain @ exView @ [1])"
    and "v_Verify (c_verifier exEnv) 1 exView (domain @ exView @ [2])"
    and "v_Verify (c_verifier exEnv) 2 exView (domain @ exView @ [3])"
proof -
  have "length exView = 32" by (simp add: exView_def HashSum_def)
  then show "v_Verify (c_verifier exEnv) 0 exView (domain @ exView @ [1])"
    and "v_Verify (c_verifier exEnv) 1 exView (domain @ exView @ [2])"
    and "v_Verify (c_verifier exEnv) 2 exView (domain @ exView @ [3])"
    by (simp_all add: exEnv_def nodeEnv_def exConf_def NewBLS12381Verifier_def BLS12381Verifier_Verify_def
        symBLS_def Let_def word_le_nat_alt)
qed

lemma ex_timeouts_collect:
  shows "Timeouts_Collect copy32 (c_verifier exEnv) (exTimeouts 0) (exNewView 0) = Inr (False, exTimeouts 1)"
    and "Timeouts_Collect copy32 (c_verifier exEnv) (exTimeouts 1) (exNewView 1) = Inr (False, exTimeouts 2)"
    and "Timeouts_Collect copy32 (c_verifier exEnv) (exTimeouts 2) (exNewView 2) = Inr (True, exTimeouts 3)"
  by (simp_all add: Timeouts_Collect_def exTimeouts_def exNewView_def Let_def upt_rec ex_newView_verifies ex_merge
      fcard_finsert_if fcard_fempty word_less_nat_alt flip: exView_def)

lemma ex_two_timeouts: "acts exEnv exReplica (exReplica\<lparr>timeouts := exTimeouts 2\<rparr>)"
proof -
  have "act exEnv exReplica (exReplica\<lparr>timeouts := exTimeouts 0\<rparr>)"
    by (rule move.timeouts_start [where v = 3])
      (simp add: Timeouts_Start_def Timeouts_Reset_def exReplica_def NewTimeouts_def exTimeouts_def AggregatedSignature_zero_def)
  moreover have "act exEnv (exReplica\<lparr>timeouts := exTimeouts 0\<rparr>) (exReplica\<lparr>timeouts := exTimeouts 1\<rparr>)"
    using move.timeouts_collect [of exEnv "exReplica\<lparr>timeouts := exTimeouts 0\<rparr>"] ex_timeouts_collect(1) by simp
  moreover have "act exEnv (exReplica\<lparr>timeouts := exTimeouts 1\<rparr>) (exReplica\<lparr>timeouts := exTimeouts 2\<rparr>)"
    using move.timeouts_collect [of exEnv "exReplica\<lparr>timeouts := exTimeouts 1\<rparr>"] ex_timeouts_collect(2) by simp
  ultimately show ?thesis by (meson r_into_rtranclp rtranclp_trans)
qed

lemma ex_timeout:
  obtains c where "onNewView exEnv (exReplica\<lparr>timeouts := exTimeouts 2\<rparr>) (exNewView 2) = Inr c"
    and "timeoutCert c = t_Cert (exTimeouts 3)"
proof -
  let ?c = "exReplica\<lparr>timeouts := exTimeouts 2\<rparr>" and ?n = "exNewView 2"
  have "replicaInv exEnv ?c" by (rule replica.acts_replicaInv [OF exEnv_replica ex_two_timeouts ex_first(2)])
  then have "sane ?c" by (rule replicaInv_sane) (simp add: exReplica_def)
  then obtain c where c: "onNewView exEnv ?c ?n = Inr c"
    using running.runs_onNewView [OF exEnv_running, of ?c ?n] by (auto simp: runs_def exNewView_def)
  let ?d = "?c\<lparr>timeouts := exTimeouts 3, timeoutCert := t_Cert (exTimeouts 3)\<rparr>"
  obtain tc where tc: "t_Cert (exTimeouts 3) = Some tc" "TimeoutCertificate_View tc = 3" by (simp add: exTimeouts_def)
  have same: "updatePrepare exEnv ?c exGenesisHeader exCert = Inr ?c" by (simp add: updatePrepare_def exReplica_def)
  have lead: "getLeader ?c (NewView_View ?n + 1) = Inr 0" by (simp add: getLeader_def exReplica_def exNewView_def)
  have simps: "cid ?c = 0" "store ?c = exStore" "view exReplica = 3" "NewView_View ?n = 3" "NewView_Cert ?n = Some exCert"
    "Certificate_Block exCert = exHash" "timeouts ?c = exTimeouts 2"
    by (simp_all add: exReplica_def exNewView_def exCert_def)
  obtain d where d: "syncView exEnv ?d (prepare ?d) (t_Cert (exTimeouts 3)) = Inr d" and last: "nextRoundFalse d = Inr c"
    using c ex_headers(1) same ex_timeouts_collect(3)
    unfolding onNewView_def lead by (auto simp: simps Let_def elim!: rbind_InrE)
  obtain s where jump: "nextRoundFalse (?d\<lparr>view := 4, store := s\<rparr>) = Inr d"
    using d by (auto simp: syncView_def tc jumpToView_def exReplica_def elim!: rbind_InrE)
  have "timeoutCert d = Some tc" "view d = 4"
    using timeoutCert_kept [OF jump, of tc] durable_nextRoundFalse [OF jump] tc by (auto simp: durable_def)
  then have "timeoutCert c = Some tc" using timeoutCert_kept [OF last, of tc] tc by simp
  with c tc that show thesis by simp
qed

section \<open>A run of the node\<close>

lemma ex_run:
  obtains n where "run exEnv call (nodeOf exReplica) [Received (NewProposalMsg exProposal), Delivered exDelivery] n"
    and "n_consensus n = exVoted\<lparr>progress := Progress_zero\<rparr>"
proof -
  let ?m = "NewProposalMsg exProposal" and ?n0 = "nodeOf exReplica"
  have fresh: "progress exReplica = Progress_zero" by (simp add: exReplica_def)
  let ?n1 = "?n0\<lparr>n_received := [?m]\<rparr>" and ?n2 = "?n0\<lparr>n_consensus := exVoted\<rparr>"
  have call: "call ?n0 ?n1"
    by (rule call.step [where err = None and ctxDone = False and msg = ?m]) (simp add: Node_Step_def nodeOf_def)
  have take1: "takeProgress ?n1 = ?n1"
    by (simp add: takeProgress_def nodeOf_def fresh Progress_zero_def Progress_Reset_def Let_def exReplica_def)
  have recv: "iterate exEnv (Received ?m) ?n1 = Some (Inr ?n2)"
    unfolding iterate_def take1
    using ex_vote(1) by (simp add: select_def withConsensus_def nodeOf_def)
  let ?c = "exVoted\<lparr>progress := Progress_zero\<rparr>"
  have take2: "takeProgress ?n2 = ?n0\<lparr>n_consensus := ?c, r_toSend := exDelivery, r_messages := True\<rparr>"
    by (simp add: takeProgress_def nodeOf_def ex_vote(2) Progress_Reset_def Progress_zero_def exDelivery_def Let_def)
  have del: "iterate exEnv (Delivered exDelivery) ?n2 = Some (Inr (?n0\<lparr>n_consensus := ?c, n_deliver := [exDelivery]\<rparr>))"
    unfolding iterate_def take2 by (simp add: select_def nodeOf_def)
  have "run exEnv call ?n0 ([] @ [Received ?m]) ?n2"
    by (rule run.looped [OF run.called [where app = call, OF run.here call] recv])
  then have "run exEnv call ?n0 (([] @ [Received ?m]) @ [Delivered exDelivery])
      (?n0\<lparr>n_consensus := ?c, n_deliver := [exDelivery]\<rparr>)"
    using del by (rule run.looped)
  then show thesis using that by simp
qed

section \<open>A certificate nobody verified\<close>

lemma ex_hashes_differ: "Header_Hash copy32 exHeader \<noteq> exHash"
proof -
  have "varint 2 = [2]" "varint 3 = [3]" by (simp_all add: varint.simps)
  then have "Header_MarshalToSizedBuffer exGenesisHeader ! 1 = 2" "Header_MarshalToSizedBuffer exHeader ! 1 = 3"
    by (simp_all add: Header_MarshalToSizedBuffer_def putVarint_def exGenesisHeader_def exHeader_def)
  moreover have "1 < length (Header_MarshalToSizedBuffer exGenesisHeader)" "1 < length (Header_MarshalToSizedBuffer exHeader)"
    using sovTypes_bounds(1) [of 2]
    by (simp_all add: Header_MarshalToSizedBuffer_def putVarint_def exGenesisHeader_def exHeader_def)
  ultimately have "Header_Hash copy32 exGenesisHeader ! 1 = 2" "Header_Hash copy32 exHeader ! 1 = 3"
    by (simp_all add: Header_Hash_def copy32_def nth_append)
  then show ?thesis by (auto simp: exHash_def)
qed

definition exForged :: NewView where
  "exForged = \<lparr>NewView_View = 7, NewView_Voter = 99, NewView_Sig = [],
     NewView_Cert = Some \<lparr>Certificate_Block = Header_Hash copy32 exHeader, Certificate_Sig = None\<rparr>\<rparr>"

section \<open>A block to synchronize\<close>

definition exBlockCert :: Certificate where
  "exBlockCert = \<lparr>Certificate_Block = Header_Hash copy32 exHeader,
     Certificate_Sig = Some \<lparr>AggregatedSignature_Voters = [0, 1, 2],
       AggregatedSignature_Sig = Some (concat (map (\<lambda>k. domain @ Header_Hash copy32 exHeader @ [k]) [1, 2, 3]))\<rparr>\<rparr>"

definition exBlock :: Block where
  "exBlock = \<lparr>Block_Header = Some exHeader, Block_Data = Some Data_zero, Block_Cert = Some exBlockCert\<rparr>"

lemma exBlock_certified: "certifiedBy exEnv (Header_Hash copy32 exHeader) (Certificate_Sig exBlockCert)"
  by (simp add: certifiedBy_def exBlockCert_def exEnv_def nodeEnv_def exConf_def NewBLS12381Verifier_def
      BLS12381Verifier_VerifyAggregated_def symBLS_def Let_def word_le_nat_alt)

lemma exBlock_sizes: "Certificate_Size exBlockCert < 2 ^ 32" "Certificate_wf exBlockCert" "Data_Size Data_zero = 0"
proof -
  have "sum_list (map sovTypes [0, 1, 2]) \<le> 30"
    using sovTypes_bounds(2) [of 0] sovTypes_bounds(2) [of 1] sovTypes_bounds(2) [of 2] by simp
  moreover have "length domain = 8" by (simp add: domain_def)
  ultimately have "AggregatedSignature_Size (the (Certificate_Sig exBlockCert)) \<le> 1000"
    using size_bounds(2) [of "sum_list (map sovTypes [0, 1, 2])"]
      size_bounds(3) [of "concat (map (\<lambda>k. domain @ Header_Hash copy32 exHeader @ [k]) [1, 2, 3])"]
    by (simp add: AggregatedSignature_Size_def exBlockCert_def)
  then show "Certificate_Size exBlockCert < 2 ^ 32"
    using size_bounds(2) [of "AggregatedSignature_Size (the (Certificate_Sig exBlockCert))"]
      size_bounds(3) [of "Header_Hash copy32 exHeader"]
    by (simp add: Certificate_Size_def exBlockCert_def sizeMsg_def)
  show "Certificate_wf exBlockCert"
    by (simp add: Certificate_wf_def AggregatedSignature_wf_def exBlockCert_def)
  show "Data_Size Data_zero = 0" by (simp add: Data_Size_def Data_zero_def)
qed

section \<open>A network\<close>

text \<open>Replicas 0, 1 and 2 are honest, replica 3 is not.\<close>

definition exNet :: "(bytes \<Rightarrow> bytes option) Net" where
  "exNet = \<lparr>net_env = (\<lambda>_. exEnv),
     net_verifier = idealVerifier copy32 exGenesisHeader [0, 1, 2, 3] {0, 1, 2} (c_verifier exEnv),
     net_replicas = [0, 1, 2, 3], net_honest = {0, 1, 2}, net_hash = copy32,
     net_headers = {exGenesisHeader, exHeader}, net_genesis = exGenesisHeader\<rparr>"

interpretation exnet: network exNet
proof
  fix i L k a h
  show "replica (net_env exNet i) \<and> blake2s (net_env exNet i) = net_hash exNet" by (simp add: exNet_def exEnv_replica)
  show "distinct (net_replicas exNet)" by (simp add: exNet_def)
  have "{0, 1, 2, 3 :: uint64} - {0, 1, 2} = {3}" by auto
  then show "3 * card (set (net_replicas exNet) - net_honest exNet) < length (net_replicas exNet)" by (simp add: exNet_def)
  show "inj_on (Header_Hash (net_hash exNet)) (net_headers exNet)"
    using ex_hashes_differ by (auto simp: exNet_def exHash_def)
  show "net_genesis exNet \<in> net_headers exNet" by (simp add: exNet_def)
  have "length (Header_Hash copy32 h) \<noteq> length (Header_Parent exGenesisHeader)"
    by (simp add: exGenesisHeader_def Header_zero_def)
  then have "Header_Hash copy32 h \<noteq> Header_Parent exGenesisHeader" by metis
  then show "Header_Hash (net_hash exNet) h \<noteq> Header_Parent (net_genesis exNet)" by (simp add: exNet_def)
  assume "v_VerifyAggregated (net_verifier exNet L) k a"
  then have "v_VerifyAggregated (idealVerifier (net_hash exNet) (net_genesis exNet) (net_replicas exNet) (net_honest exNet)
      (c_verifier exEnv) L) k a" by (simp add: exNet_def)
  then show "k = Header_Hash (net_hash exNet) (net_genesis exNet) \<or> quorumFor exNet L k" by (rule idealVerifier_unforgeable)
qed

lemma exNet_boots: obtains g0 where "\<forall>i \<in> net_honest exNet. booted exNet i (g0 i)" and "g0 0 = exReplica"
proof -
  have "\<exists>c. newConsensus exEnv exStore i [0, 1, 2, 3] = Inr c" for i
    using replica.ImportGenesis_start [OF exEnv_replica ex_import, of exGenesisHeader exCert _ i "[0, 1, 2, 3]"] ex_sizes ex_empty ex_intact
    by (auto simp: exGenesis_def exCert_def exHash_def)
  then obtain f where f: "newConsensus exEnv exStore i [0, 1, 2, 3] = Inr (f i)" for i by metis
  have "booted exNet i (f i)" for i
    unfolding booted_def
    by (intro exI [of _ memDB] exI [of _ exGenesis] exI [of _ exStore] exI [of _ exCert])
      (use f ex_import ex_empty ex_sizes in \<open>simp add: exNet_def exGenesis_def exCert_def exHash_def\<close>)
  moreover have "f 0 = exReplica" using f [of 0] ex_first(1) by simp
  ultimately show ?thesis using that [of f] by blast
qed

lemma exNet_running: "running (envAt exNet 0 L)"
proof -
  have "envAt exNet 0 L = memNode (\<lambda>x. x) (BLS12381Signer_Sign symBLS 1) (net_verifier exNet L)"
    by (simp add: envAt_def exNet_def exEnv_memNode memNode_def)
  then show ?thesis using memrun.running_axioms by metis
qed

text \<open>The proposal is delivered to replica 0.\<close>

lemma exNet_step:
  assumes "g 0 = exReplica"
  obtains c L where "net exNet (g, []) (g(0 := c), L)" and "Step (envAt exNet 0 []) (NewProposalMsg exProposal) exReplica = Inr c"
proof -
  have "\<exists>c. Step (envAt exNet 0 []) (NewProposalMsg exProposal) exReplica = Inr c"
    using running.runs_Step [OF exNet_running ex_sane, of "NewProposalMsg exProposal"]
    by (auto simp: runs_def wholeMessage_def wholeProposal_def msg_defs exProposal_def exCert_def)
  then obtain c where c: "Step (envAt exNet 0 []) (NewProposalMsg exProposal) exReplica = Inr c" ..
  have "admits (admitted exNet 0) (envAt exNet 0 []) exHeader"
    by (auto simp: admits_def admitted_def exNet_def)
  then have ok: "messageOk (admitted exNet 0) (envAt exNet 0 []) exReplica (NewProposalMsg exProposal)"
    using ex_small by (simp add: messageOk_def smallMessage_def msg_defs exProposal_def)
  have "acts (envAt exNet 0 []) exReplica c"
    using replica.Step_acts [OF envAt_replica c ex_small] by (simp add: exNet_def exEnv_replica)
  then obtain ms where ms: "emits exReplica ms c" using acts_emits by blast
  have "net exNet (g, []) (g(0 := c), [] @ votesIn ms)"
    by (rule net.turn) (use turn.step [OF c ok] ms assms in \<open>simp_all add: exNet_def\<close>)
  then show ?thesis using that c by simp
qed

end
