(* ===== verification/Finality.thy ===== *)
theory Finality
  imports Totality
begin

text \<open>
  Progress of the commit: a replica that learns three certified blocks in consecutive views
  commits the first of them, unless it has committed something higher before. This is the
  converse of the three-chain property of \<^verbatim>\<open>Safety\<close>.
\<close>

definition fullBlock :: "('db, 'z) cenv \<Rightarrow> Block \<Rightarrow> Header \<Rightarrow> bool" where
  "fullBlock E b h \<longleftrightarrow> Block_Header b = Some h \<and> Block_Data b \<noteq> None \<and> Header_Size h < 2 ^ 63 \<and>
     (\<exists>cert. Block_Cert b = Some cert \<and> certifiedBy E (hashOf E h) (Certificate_Sig cert))"

text \<open>What a synchronized block leaves of the committed block: at least the grandparent it completes.\<close>

definition commitCaughtUp :: "('db, 'z) cenv \<Rightarrow> 'db consensus \<Rightarrow> Header \<Rightarrow> bool" where
  "commitCaughtUp E c h \<longleftrightarrow> (\<forall>g gg. GetHeader E (store c) (Header_Parent h) = Inr g \<longrightarrow>
     GetHeader E (store c) (Header_Parent g) = Inr gg \<longrightarrow>
     Header_View h - Header_View g = 1 \<longrightarrow> Header_View g - Header_View gg = 1 \<longrightarrow>
     Header_View gg \<le> Header_View (commit c))"

text \<open>A new committed block is announced.\<close>

lemma acts_announces:
  "acts E c c' \<Longrightarrow> commit c' = commit c \<or> commit c' \<in> set (finalized (progress c'))"
proof (induction rule: rtranclp_induct)
  case (step d d')
  have "set (finalized (progress d)) \<subseteq> set (finalized (progress d')) \<and>
      (commit d' = commit d \<or> commit d' \<in> set (finalized (progress d')))"
    using step(2) by cases (auto simp: finalized_def AddHeader_def AddMessage_def)
  with step.IH show ?case by auto
qed simp

context running
begin

lemma update_commits:
  assumes "update E c h = Inr c'"
  shows "commitCaughtUp E c' h" and "Header_View (commit c) \<le> Header_View (commit c')"
    and "GetHeader E (store c') k = GetHeader E (store c) k"
proof -
  show same: "GetHeader E (store c') k = GetHeader E (store c) k" for k
    using assms by (auto simp: update_def updateLocked_def updateCommit_def elim!: rbind_InrE
        split: sum.splits if_splits dest!: GetHeader_SetTag [where h = k])
  show "Header_View (commit c) \<le> Header_View (commit c')"
    using assms by (auto simp: update_def updateLocked_def updateCommit_def elim!: rbind_InrE split: sum.splits if_splits)
  show "commitCaughtUp E c' h"
    using assms unfolding commitCaughtUp_def same
    by (auto simp: update_def updateLocked_def updateCommit_def elim!: rbind_InrE split: sum.splits if_splits)
qed

lemma GetHeader_SaveBlock:
  assumes "SaveBlock E s b = Inr (Inr s')" and "Block_Header b = Some h" and "Header_Size h < 2 ^ 63"
  shows "GetHeader E s' (hashOf E h) = Inr h" and "k \<noteq> hashOf E h \<Longrightarrow> GetHeader E s' k = GetHeader E s k"
proof -
  obtain cert data s1 s2 where s1: "SaveHeader E s h = Inr s1"
    and s2: "SaveCertificate E s1 cert = Inr s2" and s3: "SaveData E s2 (hashOf E h) data = Inr s'"
    using assms(1,2) by (auto simp: SaveBlock_def ebind_Inr_Inr_iff rbind_Inr_iff)
  show "GetHeader E s' (hashOf E h) = Inr h" and "k \<noteq> hashOf E h \<Longrightarrow> GetHeader E s' k = GetHeader E s k"
    using GetHeader_SaveHeader [OF s1] GetHeader_SaveCertificate [OF s2] GetHeader_SaveData [OF s3] assms(3) by simp_all
qed

lemma syncBlock_commits:
  assumes "sane c" and "fullBlock E b h"
  obtains c' where "syncBlock E c b = Inr (True, c')" and "sane c'"
    and "Header_View (commit c) \<le> Header_View (commit c')"
    and "Header_View h \<le> Header_View (commit c) \<or> commitCaughtUp E c' h \<and> GetHeader E (store c') (hashOf E h) = Inr h \<and>
      (\<forall>k. k \<noteq> hashOf E h \<longrightarrow> GetHeader E (store c') k = GetHeader E (store c) k)"
proof (cases "Header_View h \<le> Header_View (commit c)")
  case True
  then show thesis using assms that [of c] by (auto simp: fullBlock_def syncBlock_def)
next
  case False
  obtain cert data where b: "Block_Header b = Some h" "Block_Cert b = Some cert" "Block_Data b = Some data"
    and h: "Header_Size h < 2 ^ 63" and cert: "certifiedBy E (hashOf E h) (Certificate_Sig cert)"
    using assms(2) by (auto simp: fullBlock_def)
  obtain s where s: "SaveBlock E (store c) b = Inr (Inr s)"
    using runs_SaveBlock [of b "store c"] b by (auto simp: runs_def)
  obtain c1 where c1: "updatePrepare E (c\<lparr>store := s\<rparr>) h cert = Inr c1" "sane c1"
    using runs_updatePrepare [of "c\<lparr>store := s\<rparr>" h cert] assms(1) by (auto simp: runs_def)
  obtain c' where c': "update E c1 h = Inr c'" "sane c'" using runs_update [OF c1(2), of h] by (auto simp: runs_def)
  have sync: "syncBlock E c b = Inr (True, c')"
    using b s c1 c' False cert by (auto simp: syncBlock_def verifyAggregated_def certifiedBy_def)
  have "commit c1 = commit c" using c1(1) by (auto simp: updatePrepare_def elim!: rbind_InrE split: if_splits)
  moreover have "GetHeader E (store c') k = GetHeader E s k" for k
    using update_commits(3) [OF c'(1)] GetHeader_updatePrepare [OF c1(1)] by simp
  moreover have "GetHeader E s (hashOf E h) = Inr h" "k \<noteq> hashOf E h \<Longrightarrow> GetHeader E s k = GetHeader E (store c) k" for k
    using GetHeader_SaveBlock [OF s b(1) h] by blast+
  ultimately show thesis using that [OF sync c'(2)] update_commits(1,2) [OF c'(1)] by simp
qed

text \<open>Three blocks in a row.\<close>

lemma three_chain_commits:
  assumes "sane c" and full: "fullBlock E b1 h1" "fullBlock E b2 h2" "fullBlock E b3 h3"
    and links: "Header_Parent h2 = hashOf E h1" "Header_Parent h3 = hashOf E h2"
    and views: "Header_View h2 = Header_View h1 + 1" "Header_View h3 = Header_View h2 + 1"
      "Header_View h1 < Header_View h2" "Header_View h2 < Header_View h3"
    and hashes: "distinct [hashOf E h1, hashOf E h2, hashOf E h3]"
  shows "\<exists>c'. syncBlocks E c [b1, b2, b3] = Inr c' \<and> sane c' \<and> Header_View h1 \<le> Header_View (commit c')"
proof -
  obtain c1 where c1: "syncBlock E c b1 = Inr (True, c1)" "sane c1" "Header_View (commit c) \<le> Header_View (commit c1)"
    and new1: "Header_View h1 \<le> Header_View (commit c) \<or> GetHeader E (store c1) (hashOf E h1) = Inr h1"
    by (rule syncBlock_commits [OF assms(1) full(1)]) blast
  obtain c2 where c2: "syncBlock E c1 b2 = Inr (True, c2)" "sane c2" "Header_View (commit c1) \<le> Header_View (commit c2)"
    and new2: "Header_View h2 \<le> Header_View (commit c1) \<or> GetHeader E (store c2) (hashOf E h2) = Inr h2 \<and>
      (\<forall>k. k \<noteq> hashOf E h2 \<longrightarrow> GetHeader E (store c2) k = GetHeader E (store c1) k)"
    by (rule syncBlock_commits [OF c1(2) full(2)]) blast
  obtain c3 where c3: "syncBlock E c2 b3 = Inr (True, c3)" "sane c3" "Header_View (commit c2) \<le> Header_View (commit c3)"
    and new3: "Header_View h3 \<le> Header_View (commit c2) \<or> commitCaughtUp E c3 h3 \<and>
      (\<forall>k. k \<noteq> hashOf E h3 \<longrightarrow> GetHeader E (store c3) k = GetHeader E (store c2) k)"
    by (rule syncBlock_commits [OF c2(2) full(3)]) blast
  have "Header_View h1 \<le> Header_View (commit c3)"
  proof (rule ccontr)
    assume low: "\<not> Header_View h1 \<le> Header_View (commit c3)"
    then have "GetHeader E (store c1) (hashOf E h1) = Inr h1" "\<not> Header_View h2 \<le> Header_View (commit c1)"
      "\<not> Header_View h3 \<le> Header_View (commit c2)"
      using new1 c1(3) c2(3) c3(3) views(3,4) by (meson order.trans order.strict_implies_order)+
    then have "GetHeader E (store c3) (hashOf E h2) = Inr h2" "GetHeader E (store c3) (hashOf E h1) = Inr h1" "commitCaughtUp E c3 h3"
      using new2 new3 hashes by auto
    then have "Header_View h1 \<le> Header_View (commit c3)" using links views(1,2) by (simp add: commitCaughtUp_def)
    with low show False by simp
  qed
  then show ?thesis using c1 c2 c3 by (intro exI [of _ c3]) simp
qed

end

end
