(* ===== verification/ExampleChain.thy ===== *)
theory ExampleChain
  imports Example Finality
begin

text \<open>
  Three blocks in consecutive views on top of the example's genesis block, each with a
  certificate of three replicas, and a node that learns them and announces the first as
  final.
\<close>

definition exChild :: "Header \<Rightarrow> Header" where
  "exChild h = Header_zero\<lparr>Header_View := Header_View h + 1, Header_ParentView := Header_View h,
     Header_Parent := Header_Hash copy32 h\<rparr>"

definition exCertified :: "Header \<Rightarrow> Block" where
  "exCertified h = \<lparr>Block_Header = Some h, Block_Data = Some Data_zero,
     Block_Cert = Some \<lparr>Certificate_Block = Header_Hash copy32 h,
       Certificate_Sig = Some \<lparr>AggregatedSignature_Voters = [0, 1, 2],
         AggregatedSignature_Sig = Some (concat (map (\<lambda>k. domain @ Header_Hash copy32 h @ [k]) [1, 2, 3]))\<rparr>\<rparr>\<rparr>"

definition exThird :: Header where "exThird = exChild exGenesisHeader"
definition exFourth :: Header where "exFourth = exChild exThird"
definition exFifth :: Header where "exFifth = exChild exFourth"

definition exSync :: Message where
  "exSync = NewSyncMsg [exCertified exThird, exCertified exFourth, exCertified exFifth]"

lemma exChild_full: "fullBlock exEnv (exCertified (exChild h)) (exChild h)"
proof -
  have "Header_Size (exChild h) < 2 ^ 63" by (rule Header_Size_small) (simp_all add: exChild_def Header_zero_def)
  then show ?thesis
    by (simp add: fullBlock_def exCertified_def certifiedBy_def exEnv_def nodeEnv_def exConf_def NewBLS12381Verifier_def
        BLS12381Verifier_VerifyAggregated_def symBLS_def Let_def word_le_nat_alt memEnv_def)
qed

lemma exChild_hash:
  assumes "Header_View (exChild h) < 128" and "Header_View (exChild h) \<noteq> 0"
  shows "Header_Hash copy32 (exChild h) ! 1 = ucast (Header_View (exChild h))"
proof -
  have "varint (Header_View (exChild h)) = [ucast (Header_View (exChild h))]" using assms by (simp add: varint.simps)
  then have "Header_MarshalToSizedBuffer (exChild h) ! 1 = ucast (Header_View (exChild h))"
    "1 < length (Header_MarshalToSizedBuffer (exChild h))"
    using assms by (simp_all add: Header_MarshalToSizedBuffer_def putVarint_def)
  then show ?thesis by (simp add: Header_Hash_def copy32_def nth_append)
qed

lemma ex_views [simp]: "Header_View exThird = 3" "Header_View exFourth = 4" "Header_View exFifth = 5"
  by (simp_all add: exThird_def exFourth_def exFifth_def exChild_def exGenesisHeader_def)

lemma ex_chain_hashes: "distinct [hashOf exEnv exThird, hashOf exEnv exFourth, hashOf exEnv exFifth]"
proof -
  have "hashOf exEnv exThird ! 1 = 3" "hashOf exEnv exFourth ! 1 = 4" "hashOf exEnv exFifth ! 1 = 5"
    using exChild_hash [of exGenesisHeader] exChild_hash [of exThird] exChild_hash [of exFourth]
    by (simp_all flip: exThird_def exFourth_def exFifth_def)
  then show ?thesis by auto
qed

lemma ex_chain:
  "fullBlock exEnv (exCertified exThird) exThird" "fullBlock exEnv (exCertified exFourth) exFourth"
  "fullBlock exEnv (exCertified exFifth) exFifth"
  "Header_Parent exFourth = hashOf exEnv exThird" "Header_Parent exFifth = hashOf exEnv exFourth"
  using exChild_full by (auto simp: exThird_def exFourth_def exFifth_def) (simp_all add: exChild_def)

lemma exSync_small: "smallEvent (Received exSync)"
  using ex_chain(1-3) by (simp add: exSync_def smallMessage_def msg_defs smallBlock_def fullBlock_def)

lemma exSync_commits:
  obtains c where "Step exEnv exSync exReplica = Inr c" and "3 \<le> Header_View (commit c)"
proof -
  obtain c where "syncBlocks exEnv exReplica [exCertified exThird, exCertified exFourth, exCertified exFifth] = Inr c"
    and "Header_View exThird \<le> Header_View (commit c)"
    using running.three_chain_commits [OF exEnv_running ex_sane ex_chain _ _ _ _ ex_chain_hashes] by auto
  then show thesis using that [of c] by (simp add: exSync_def Step_def dispatch_def msg_defs onSync_def)
qed

text \<open>The node takes the blocks and announces the new final block.\<close>

lemma exSync_run:
  obtains n bs where "run exEnv call (nodeOf exReplica) [Received exSync, BlocksOut bs] n" and "finalHeaders bs \<noteq> []"
proof -
  obtain c where c: "Step exEnv exSync exReplica = Inr c" "3 \<le> Header_View (commit c)" by (rule exSync_commits)
  let ?n0 = "nodeOf exReplica" and ?bs = "Events (progress c)"
  let ?n1 = "?n0\<lparr>n_received := [exSync]\<rparr>" and ?n2 = "?n0\<lparr>n_consensus := c\<rparr>"
  have "acts exEnv exReplica c"
    using replica.Step_acts [OF exEnv_replica c(1)] exSync_small by simp
  moreover have "commit c \<noteq> commit exReplica" using c(2) by (auto simp: exReplica_def exGenesisHeader_def)
  ultimately have "commit c \<in> set (finalized (progress c))" using acts_announces by blast
  then have bs: "finalHeaders ?bs \<noteq> []" by (auto simp: finalHeaders_def finalized_def filter_empty_conv)
  have call: "call ?n0 ?n1"
    by (rule call.step [where err = None and ctxDone = False and msg = exSync]) (simp add: Node_Step_def nodeOf_def)
  have take: "takeProgress ?n1 = ?n1"
    by (simp add: takeProgress_def nodeOf_def Progress_zero_def Progress_Reset_def Let_def exReplica_def)
  have recv: "iterate exEnv (Received exSync) ?n1 = Some (Inr ?n2)"
    unfolding iterate_def take using c(1) by (simp add: select_def withConsensus_def nodeOf_def)
  have "?bs \<noteq> []" using bs by (auto simp: finalHeaders_def)
  then have taken: "r_blocks (takeProgress ?n2)" "n_blocks (takeProgress ?n2) = []" "r_toUpdate (takeProgress ?n2) = ?bs"
    by (simp_all add: takeProgress_def nodeOf_def Let_def)
  then obtain n where out: "iterate exEnv (BlocksOut ?bs) ?n2 = Some (Inr n)"
    by (simp add: iterate_def select_def nodeOf_def)
  have "run exEnv call ?n0 (([] @ [Received exSync]) @ [BlocksOut ?bs]) n"
    by (rule run.looped [OF run.looped [OF run.called [where app = call, OF run.here call] recv] out])
  then show thesis using that [of ?bs n] bs by simp
qed

end
