(* ===== verification/Rounds.thy ===== *)
theory Rounds
  imports Quorums Finality
begin

text \<open>
  A view that goes well. A replica votes for the proposal of the view's leader as soon as it
  knows the parent, and the leader of the next view, once a quorum of these votes has
  reached it, has the block certified, is in the next view and asks for data to propose.
  This is the converse of what \<^verbatim>\<open>Safety\<close> and \<^verbatim>\<open>Quorums\<close> say of votes and certificates.
\<close>

section \<open>A vote for a timely proposal\<close>

text \<open>
  A proposal without time-out certificate that extends a certified block in the next view; and
  when it comes in time: the replica knows the parent and nothing certified above it, and has
  not voted in the view.
\<close>

definition offered :: "('db, 'z) cenv \<Rightarrow> 'db consensus \<Rightarrow> Proposal \<Rightarrow> Header \<Rightarrow> Header \<Rightarrow> bool" where
  "offered E c p h parent \<longleftrightarrow>
     Proposal_Header p = Some h \<and> Proposal_Data p \<noteq> None \<and> Proposal_Timeout p = None \<and> Header_Size h < 2 ^ 63 \<and>
     (\<exists>cert. Proposal_ParentCert p = Some cert \<and> Certificate_Block cert = Header_Parent h \<and>
        certifiedBy E (Header_Parent h) (Certificate_Sig cert)) \<and>
     (\<exists>l. getLeader c (Header_View h) = Inr l \<and> v_Verify (c_verifier E) l (hashOf E h) (Proposal_Sig p)) \<and>
     Header_View h = Header_View parent + 1 \<and> Header_View parent < Header_View h"

definition timely :: "('db, 'z) cenv \<Rightarrow> 'db consensus \<Rightarrow> Proposal \<Rightarrow> Header \<Rightarrow> Header \<Rightarrow> bool" where
  "timely E c p h parent \<longleftrightarrow> offered E c p h parent \<and> GetHeader E (store c) (Header_Parent h) = Inr parent \<and>
     view c \<le> Header_View h \<and> voted c < Header_View h \<and>
     (Header_View (prepare c) < Header_View parent \<or> prepare c = parent)"

lemma act_majority: "move P E c c' \<Longrightarrow> vt_majority (votes c') = vt_majority (votes c)"
  by (induction rule: move.induct)
    (auto simp: Votes_Reset_def Votes_Start_def Votes_Collect_def Let_def elim!: rbind_InrE split: option.splits if_splits)

lemma acts_majority: "moves P E c c' \<Longrightarrow> vt_majority (votes c') = vt_majority (votes c)"
  by (induction rule: rtranclp_induct) (simp_all add: act_majority)

lemma updatePrepare_views:
  "updatePrepare E c h cert = Inr c' \<Longrightarrow> view c' = view c \<and> voted c' = voted c \<and>
    prepare c' = (if Header_View h > Header_View (prepare c) then h else prepare c) \<and>
    prepareCert c' = (if Header_View h > Header_View (prepare c) then cert else prepareCert c)"
  by (auto simp: updatePrepare_def elim!: rbind_InrE split: if_splits)

lemma syncView_views:
  "syncView E c h None = Inr c' \<Longrightarrow> voted c' = voted c \<and> commit c' = commit c \<and>
    view c' = (if Header_View h \<ge> view c then Header_View h + 1 else view c)"
  by (auto simp: syncView_def jumpToView_def durable_def elim!: rbind_InrE dest!: durable_nextRoundFalse split: if_splits)

lemma update_views: "update E c h = Inr c' \<Longrightarrow> view c' = view c \<and> voted c' = voted c \<and> prepare c' = prepare c"
  by (auto simp: update_def updateLocked_def updateCommit_def elim!: rbind_InrE split: if_splits sum.splits)

lemma stepOwn_Nil: "stepOwn step [] = Inr"
  by (rule ext) simp

lemma getLeader_cong: "replicas c' = replicas c \<Longrightarrow> getLeader c' v = getLeader c v"
  by (simp add: getLeader_def)

lemma nextRoundFalse_waits:
  assumes "nextRoundFalse c = Inr c'" and "getLeader c (view c) = Inr (cid c)"
  shows "waitingData c' \<and> Progress_WaitingData (progress c')"
proof -
  obtain d where d: "leaderTimeouts (enterView c) = Inr d"
    and c': "rbind (getLeader d (view d)) (\<lambda>l. if cid d = l then Inr (awaitData d) else Inr d) = Inr c'"
    using assms(1) by (auto simp: nextRoundFalse_def nextRoundWith_def elim!: rbind_InrE)
  have "durable d = durable c" using durable_leaderTimeouts [OF d] by simp
  then have "getLeader d (view d) = Inr (cid d)" using assms(2) getLeader_cong [of d c] by (simp add: durable_def)
  then show ?thesis using c' by (auto simp: awaitData_def)
qed

lemma nextRoundFalse_resets:
  assumes "nextRoundFalse c = Inr c'"
  shows "vt_Cert (votes c') = None"
proof -
  have "vt_Cert (votes (enterView c)) = None"
    by (simp add: enterView_def resetTimeout_def Votes_Reset_def Let_def split: option.split)
  then show ?thesis
    using assms by (auto simp: nextRoundFalse_def nextRoundWith_def leaderTimeouts_def awaitData_def Let_def
        elim!: rbind_InrE split: if_splits)
qed

text \<open>Most of what a handler does sends no message and brings no time-out certificate.\<close>

definition quiet :: "'db consensus \<Rightarrow> 'db consensus \<Rightarrow> bool" where
  "quiet c c' \<longleftrightarrow> Messages (progress c') = Messages (progress c) \<and> (timeoutCert c = None \<longrightarrow> timeoutCert c' = None)"

lemma quiet_trans [trans]: "quiet a b \<Longrightarrow> quiet b c \<Longrightarrow> quiet a c"
  by (simp add: quiet_def)

lemma quiet_nextRoundFalse: "nextRoundFalse c = Inr c' \<Longrightarrow> quiet c c'"
  by (auto simp: quiet_def nextRoundFalse_def nextRoundWith_def leaderTimeouts_def enterView_def resetTimeout_def awaitData_def
      Let_def elim!: rbind_InrE split: if_splits option.splits)

lemma quiet_updatePrepare: "updatePrepare E c h cert = Inr c' \<Longrightarrow> quiet c c'"
  by (auto simp: quiet_def updatePrepare_def AddHeader_def elim!: rbind_InrE split: if_splits)

lemma quiet_syncView: "syncView E c h tc = Inr c' \<Longrightarrow> quiet c c'"
  by (auto simp: syncView_def jumpToView_def elim!: rbind_InrE dest!: quiet_nextRoundFalse split: if_splits option.splits)
    (simp_all add: quiet_def)

lemma quiet_update: "update E c h = Inr c' \<Longrightarrow> quiet c c'"
  by (auto simp: quiet_def update_def updateLocked_def updateCommit_def AddHeader_def elim!: rbind_InrE split: if_splits sum.splits)

lemma quiet_persistProposal: "persistProposal E c p = Inr c' \<Longrightarrow> quiet c c'"
  by (auto simp: quiet_def persistProposal_def elim!: rbind_InrE)

text \<open>The three ways a vote is handled: it is for another leader, it is counted, or it completes a quorum.\<close>

lemma onVote_cases:
  assumes "onVote E c v = Inr c'"
  obtains vs where "c' = c\<lparr>votes := vs\<rparr>" | "c' = c"
  | vs cert s h c2 c3 where "Votes_Collect (c_verifier E) (votes c) v = Inr (True, vs)" and "vt_Header vs = Some h"
    and "SaveCertificate E (store c) cert = Inr s" and "updatePrepare E (c\<lparr>votes := vs, store := s\<rparr>) h cert = Inr c2"
    and "syncView E c2 h None = Inr c3" and "nextRoundFalse c3 = Inr c'"
  using assms unfolding onVote_def by (auto simp: Let_def elim!: rbind_InrE split: if_splits)

lemma quiet_onVote:
  assumes "onVote E c v = Inr c'"
  shows "quiet c c'"
  using assms
proof (cases rule: onVote_cases)
  case (3 vs cert s h c2 c3)
  have "quiet c (c\<lparr>votes := vs, store := s\<rparr>)" by (simp add: quiet_def)
  also note quiet_updatePrepare [OF 3(4)]
  also note quiet_syncView [OF 3(5)]
  also note quiet_nextRoundFalse [OF 3(6)]
  finally show ?thesis .
qed (simp_all add: quiet_def)

text \<open>What \<^verbatim>\<open>sendVote\<close> does once the view is stored and the vote signed.\<close>

definition withVote :: "('db, 'z) cenv \<Rightarrow> 'db consensus \<Rightarrow> Header \<Rightarrow> 'db \<Rightarrow> uint64 \<Rightarrow> Vote \<Rightarrow> 'db consensus" where
  "withVote E c h s l v = c\<lparr>voted := Header_View h, store := s, votes := Votes_Start (blake2s E) (votes c) h,
     progress := AddMessage (progress c) (NewVoteMsg v) (Some [l])\<rparr>"

lemma sendVote_withVote:
  assumes "SaveVoted E (store c) (Header_View h) = Inr s" and "c_signer E [] (hashOf E h) = Inr sig"
    and "getLeader c (Header_View h + 1) = Inr l"
    and v: "v = \<lparr>Vote_Block = hashOf E h, Vote_View = Header_View h, Vote_Voter = cid c, Vote_Sig = sig\<rparr>"
  shows "sendVote E c h = (if cid c = l then onVote E (withVote E c h s l v) v else Inr (withVote E c h s l v))"
  using assms(1-3) getLeader_cong [of "c\<lparr>voted := Header_View h, store := s, votes := Votes_Start (blake2s E) (votes c) h\<rparr>" c]
  by (simp add: v withVote_def sendVote_def sendMsgWith_def stepLeaf_def dispatch_def msg_defs Let_def stepOwn_Nil)

text \<open>Messages handled one after the other.\<close>

fun steps :: "('db, 'z) cenv \<Rightarrow> Message list \<Rightarrow> 'db consensus \<Rightarrow> 'db consensus result" where
  "steps E [] c = Inr c"
| "steps E (m # ms) c = rbind (Step E m c) (steps E ms)"

lemma Step_vote [simp]: "Step E (NewVoteMsg v) c = onVote E c v"
  by (simp add: Step_def dispatch_def msg_defs)

text \<open>The leader of the next view while it collects the votes for a block of its view.\<close>

definition tallying :: "('db, 'z) cenv \<Rightarrow> Header \<Rightarrow> uint64 fset \<Rightarrow> 'db consensus \<Rightarrow> bool" where
  "tallying E h voters c \<longleftrightarrow> sane c \<and> view c = Header_View h \<and> Header_View (prepare c) < Header_View h \<and>
     getLeader c (Header_View h + 1) = Inr (cid c) \<and> vt_Header (votes c) = Some h \<and> vt_votes (votes c) = voters \<and>
     (\<exists>cert. vt_Cert (votes c) = Some cert \<and> Certificate_Block cert = hashOf E h)"

context running
begin

lemma tally_vote:
  assumes "tallying E h voters c" and v: "Vote_Block v = hashOf E h" "Vote_View v = Header_View h"
    "Vote_Voter v |\<notin>| voters" "v_Verify (c_verifier E) (Vote_Voter v) (hashOf E h) (Vote_Sig v)"
  shows "fcard (finsert (Vote_Voter v) voters) < vt_majority (votes c) \<Longrightarrow>
      \<exists>c'. onVote E c v = Inr c' \<and> tallying E h (finsert (Vote_Voter v) voters) c' \<and>
        vt_majority (votes c') = vt_majority (votes c) \<and> cid c' = cid c"
    and "vt_majority (votes c) \<le> fcard (finsert (Vote_Voter v) voters) \<Longrightarrow>
      \<exists>c'. onVote E c v = Inr c' \<and> prepare c' = h \<and> view c' = Header_View h + 1 \<and>
        waitingData c' \<and> Progress_WaitingData (progress c') \<and> vt_Cert (votes c') = None"
proof -
  obtain cert a where t: "sane c" "view c = Header_View h" "Header_View (prepare c) < Header_View h"
    "getLeader c (Header_View h + 1) = Inr (cid c)" "vt_Header (votes c) = Some h" "vt_votes (votes c) = voters"
    "vt_Cert (votes c) = Some cert" "Certificate_Block cert = hashOf E h" "Certificate_Sig cert = Some a"
    using assms(1) saneD(1) [of c] by (auto simp: tallying_def votesSane_def)
  let ?cert = "cert\<lparr>Certificate_Sig := Some (v_Merge (c_verifier E) a (Vote_Voter v) (Vote_Sig v))\<rparr>"
  let ?vs = "(votes c)\<lparr>vt_votes := finsert (Vote_Voter v) voters, vt_Cert := Some ?cert\<rparr>"
  have coll: "Votes_Collect (c_verifier E) (votes c) v = Inr (vt_majority (votes c) \<le> fcard (finsert (Vote_Voter v) voters), ?vs)"
    using t v by (simp add: Votes_Collect_def Let_def)
  have "sane (c\<lparr>votes := ?vs\<rparr>)" using t by (simp add: votesSane_def)
  then show "\<exists>c'. onVote E c v = Inr c' \<and> tallying E h (finsert (Vote_Voter v) voters) c' \<and>
        vt_majority (votes c') = vt_majority (votes c) \<and> cid c' = cid c"
    if "fcard (finsert (Vote_Voter v) voters) < vt_majority (votes c)"
    using that t v coll getLeader_cong [of "c\<lparr>votes := ?vs\<rparr>" c] by (simp add: onVote_def tallying_def)
  assume quorum: "vt_majority (votes c) \<le> fcard (finsert (Vote_Voter v) voters)"
  obtain c' where c': "onVote E c v = Inr c'" using runs_onVote [OF t(1)] by (auto simp: runs_def)
  then obtain s c2 c3 where c2: "updatePrepare E (c\<lparr>votes := ?vs, store := s\<rparr>) h ?cert = Inr c2"
    and c3: "syncView E c2 h None = Inr c3" and last: "nextRoundFalse c3 = Inr c'"
    using t v coll quorum by (auto simp: onVote_def Let_def elim!: rbind_InrE)
  have "prepare c' = h" "view c' = view c3"
    using durable_nextRoundFalse [OF last] durable_syncView [OF c3] updatePrepare_views [OF c2] t by (auto simp: durable_def)
  moreover have view: "view c3 = Header_View h + 1" using syncView_views [OF c3] updatePrepare_views [OF c2] t by simp
  moreover have "cid c3 = cid c" "replicas c3 = replicas c"
    using acts_config [OF syncView_acts [OF c3]] c2 by (auto simp: updatePrepare_def elim!: rbind_InrE split: if_splits)
  then have "getLeader c3 (view c3) = Inr (cid c3)" using t(4) view getLeader_cong [of c3 c] by simp
  ultimately show "\<exists>c'. onVote E c v = Inr c' \<and> prepare c' = h \<and> view c' = Header_View h + 1 \<and>
      waitingData c' \<and> Progress_WaitingData (progress c') \<and> vt_Cert (votes c') = None"
    using c' nextRoundFalse_waits [OF last] nextRoundFalse_resets [OF last] by auto
qed

lemma timely_accepted:
  assumes inv: "replicaInv E c" "replicas c \<noteq> []" and timely: "timely E c p h parent"
  obtains d where "Step E (NewProposalMsg p) c = sendVote E d h" and "acts E c d" and "sane d"
    and "view d = Header_View h" and "voted d < Header_View h" and "prepare d = parent"
    and "quiet c d"
    and "commitCaughtUp E (d\<lparr>store := store c\<rparr>) parent" and "GetHeader E (store d) (hashOf E h) = Inr h"
    and "\<And>k. k \<noteq> hashOf E h \<Longrightarrow> GetHeader E (store d) k = GetHeader E (store c) k"
proof -
  obtain cert where p: "Proposal_Header p = Some h" "Proposal_ParentCert p = Some cert" "Proposal_Timeout p = None"
    and data: "Proposal_Data p \<noteq> None" and small: "Header_Size h < 2 ^ 63"
    and cert: "Certificate_Block cert = Header_Parent h" "certifiedBy E (Header_Parent h) (Certificate_Sig cert)"
    and parent: "GetHeader E (store c) (Header_Parent h) = Inr parent"
    and views: "Header_View h = Header_View parent + 1" "Header_View parent < Header_View h" "view c \<le> Header_View h"
      "voted c < Header_View h" "Header_View (prepare c) < Header_View parent \<or> prepare c = parent"
    using timely by (auto simp: timely_def offered_def)
  have sane: "sane c" by (rule replicaInv_sane [OF inv])
  have check: "checkProposal E c h cert None (Proposal_Sig p) = Inr (Accepted parent)"
    using timely p cert parent by (auto simp: timely_def offered_def checkProposal_def verifyAggregated_def certifiedBy_def)
  obtain c1 where c1: "updatePrepare E c parent cert = Inr c1" "sane c1"
    using runs_updatePrepare [OF sane] by (auto simp: runs_def)
  obtain c2 where c2: "syncView E c1 parent None = Inr c2" "sane c2"
    using runs_syncView [OF c1(2)] by (auto simp: runs_def)
  obtain c3 where c3: "update E c2 parent = Inr c3" "sane c3" using runs_update [OF c2(2)] by (auto simp: runs_def)
  obtain d where d: "persistProposal E c3 p = Inr d" "sane d"
    using runs_persistProposal [OF c3(2), of p] p data by (auto simp: runs_def)
  note per = persistProposal_acts [where P = "\<lambda>_ _. True", OF d(1) p(1) small TrueI]
  have heads: "GetHeader E (store c2) (Header_Parent h) = Inr parent"
    using parent GetHeader_syncView [OF c2(1)] GetHeader_updatePrepare [OF c1(1)] by simp
  have prep: "prepare c1 = parent" using updatePrepare_views [OF c1(1)] views(5) by auto
  then have prep2: "prepare c2 = parent" "prepare c3 = parent"
    using prepare_syncView [OF c2(1)] update_views [OF c3(1)] by simp_all
  note upd = update_acts [OF c3(1) heads cert(2)]
  have "view c2 = Header_View h"
    using syncView_views [OF c2(1)] updatePrepare_views [OF c1(1)] views(1-3) by (auto simp: not_le) (metis inc_le order.antisym)
  then have vw: "view c3 = Header_View h" "voted c3 < Header_View h"
    using update_views [OF c3(1)] syncView_views [OF c2(1)] updatePrepare_views [OF c1(1)] views(4) by simp_all
  have same: "GetHeader E (store c3) k = GetHeader E (store c) k" for k
    using update_commits(3) [OF c3(1)] GetHeader_syncView [OF c2(1)] GetHeader_updatePrepare [OF c1(1)] by simp
  have "commit d = commit c3" using d(1) by (auto simp: persistProposal_def elim!: rbind_InrE)
  then have final: "commitCaughtUp E (d\<lparr>store := store c\<rparr>) parent"
    using update_commits(1) [OF c3(1)] by (simp add: commitCaughtUp_def same)
  have d_is: "prepare d = parent" "view d = Header_View h" "voted d < Header_View h"
    using d(1) per(4) prep2(2) vw by (auto simp: persistProposal_def elim!: rbind_InrE)
  have "hashOf E parent = Header_Parent h" using inv(1) parent by (simp add: replicaInv_def intact_def)
  moreover have "\<exists>x. GetHeader E (store d) (Header_Parent h) = Inr x"
    using per(2,3) upd(2) heads prep2(1) by (cases "Header_Parent h = hashOf E h") simp_all
  ultimately have "safeNode E d h" using d_is(1) by (auto simp: safeNode_def)
  then have "Step E (NewProposalMsg p) c = sendVote E d h"
    using p check c1(1) c2(1) c3(1) d(1) vw d_is
    by (simp add: Step_def dispatch_def msg_defs onProposal_def)
  moreover have "acts E c d"
  proof -
    have "acts E c c1" using updatePrepare_acts [OF c1(1)] parent by blast
    also have "acts E c1 c2" by (rule syncView_acts [OF c2(1)])
    also have "acts E c2 c3" using upd(1) prep2(1) by simp
    also have "acts E c3 d" by (rule per(1))
    finally show ?thesis .
  qed
  moreover have "quiet c d"
    using quiet_updatePrepare [OF c1(1)] quiet_syncView [OF c2(1)] quiet_update [OF c3(1)] quiet_persistProposal [OF d(1)]
    by (blast intro: quiet_trans)
  ultimately show thesis using that d(2) d_is final per(2,3) same by simp
qed

section \<open>Counting votes\<close>

lemma timely_votes:
  assumes "replicaInv E c" "replicas c \<noteq> []" "timely E c p h parent" and "getLeader c (Header_View h + 1) = Inr l"
  obtains c' v where "Step E (NewProposalMsg p) c = Inr c'" and "voteFor E (cid c) h v"
    and "emits c [\<lparr>Recipients = Some [l], MsgTo_Message = NewVoteMsg v\<rparr>] c'"
    and "timeoutCert c = None \<Longrightarrow> timeoutCert c' = None"
    and "l = cid c \<Longrightarrow> v_Verify (c_verifier E) (cid c) (hashOf E h) (Vote_Sig v) \<Longrightarrow> 1 < vt_majority (votes c) \<Longrightarrow>
      tallying E h {|cid c|} c' \<and> vt_majority (votes c') = vt_majority (votes c)"
proof -
  obtain d where d: "Step E (NewProposalMsg p) c = sendVote E d h" "acts E c d" "sane d"
    "view d = Header_View h" "voted d < Header_View h" "prepare d = parent" "quiet c d"
    by (rule timely_accepted [OF assms(1-3)])
  have config: "cid d = cid c" "getLeader d (Header_View h + 1) = Inr l"
    using acts_config [OF d(2)] getLeader_cong [of d c] assms(4) by simp_all
  obtain s where s: "SaveVoted E (store d) (Header_View h) = Inr s" using runs_saves(3) by (auto simp: runs_def)
  obtain sig where sig: "c_signer E [] (hashOf E h) = Inr sig"
    using runs_sign [of "hashOf E h"] by (auto simp: runs_def digest_lengths)
  let ?v = "\<lparr>Vote_Block = hashOf E h, Vote_View = Header_View h, Vote_Voter = cid c, Vote_Sig = sig\<rparr>"
  let ?d = "withVote E d h s l ?v"
  have leader: "getLeader ?d (Header_View h + 1) = Inr l" using config getLeader_cong [of ?d d] by (simp add: withVote_def)
  have sane: "sane ?d" using d(3) by (simp add: withVote_def)
  have "Step E (NewProposalMsg p) c = (if cid c = l then onVote E ?d ?v else Inr ?d)"
    using sendVote_withVote [OF s sig config(2), of ?v] d(1) config(1) by simp
  moreover obtain e where e: "onVote E ?d ?v = Inr e" using runs_onVote [OF sane] by (auto simp: runs_def)
  moreover define c' where "c' = (if cid c = l then e else ?d)"
  ultimately have c': "Step E (NewProposalMsg p) c = Inr c'" "c' = (if cid c = l then e else ?d)"
    by (simp_all only: if_distrib [of Inr])
  have "quiet ?d c'" using quiet_onVote [OF e] c'(2) by (simp add: quiet_def split: if_splits)
  then have "emits c [\<lparr>Recipients = Some [l], MsgTo_Message = NewVoteMsg ?v\<rparr>] c'" "timeoutCert c = None \<Longrightarrow> timeoutCert c' = None"
    using d(7) by (simp_all add: quiet_def emits_def AddMessage_def withVote_def)
  moreover have "voteFor E (cid c) h ?v" using sig by (simp add: voteFor_def)
  moreover have "tallying E h {|cid c|} c' \<and> vt_majority (votes c') = vt_majority (votes c)"
    if own: "l = cid c" "v_Verify (c_verifier E) (cid c) (hashOf E h) sig" "1 < vt_majority (votes c)"
  proof -
    have "replicaInv E d" by (rule acts_replicaInv [OF d(2) assms(1)])
    then have "vt_votes (votes d) = {||}" using d(4,5) by (auto simp: replicaInv_def votesReady_def split: option.splits)
    moreover have "Header_View parent < Header_View h" using assms(3) unfolding timely_def offered_def by blast
    ultimately have "tallying E h {||} ?d"
      using sane d(4,6) leader config own(1) by (simp add: tallying_def Votes_Start_def withVote_def)
    moreover have "vt_majority (votes ?d) = vt_majority (votes c)" using acts_majority [OF d(2)] by (simp add: Votes_Start_def withVote_def)
    ultimately show ?thesis using tally_vote(1) [of h "{||}" ?d ?v] own e c'(2) by (simp add: fcard_finsert_if fcard_fempty)
  qed
  ultimately show thesis using c'(1) that [of c' ?v] by simp
qed

section \<open>A chain of proposals\<close>

text \<open>A vote leaves headers, votes and the committed block alone.\<close>

lemma onVote_keeps:
  assumes "onVote E c v = Inr c'"
  shows "voted c' = voted c \<and> commit c' = commit c \<and> GetHeader E (store c') k = GetHeader E (store c) k"
  using assms
proof (cases rule: onVote_cases)
  case (3 vs cert s h c2 c3)
  have "durable c' = durable c3" by (rule durable_nextRoundFalse [OF 3(6)])
  moreover have "commit c2 = commit c" using 3(4) by (auto simp: updatePrepare_def elim!: rbind_InrE split: if_splits)
  ultimately show ?thesis
    using updatePrepare_views [OF 3(4)] syncView_views [OF 3(5)] GetHeader_syncView [OF 3(5)]
      GetHeader_updatePrepare [OF 3(4)] GetHeader_SaveCertificate [OF 3(3)] by (simp add: durable_def)
qed simp_all

lemma onVote_views:
  assumes "onVote E c v = Inr c'" and "vt_Header (votes c) = Some h"
    and "Header_View (prepare c) < Header_View h" and "view c = Header_View h"
  shows "prepare c' = prepare c \<and> view c' = view c \<or> prepare c' = h \<and> view c' = Header_View h + 1"
  using assms(1)
proof (cases rule: onVote_cases)
  case (3 vs cert s h' c2 c3)
  have "h' = h" using Votes_Collect_fields(1) [OF 3(1)] 3(2) assms(2) by simp
  note here = 3(4,5) [unfolded this]
  have "durable c' = durable c3" by (rule durable_nextRoundFalse [OF 3(6)])
  moreover have "prepare c3 = prepare c2" using durable_syncView [OF here(2)] by (simp add: durable_def)
  ultimately show ?thesis
    using updatePrepare_views [OF here(1)] syncView_views [OF here(2)] assms(3,4) by (simp add: durable_def)
qed simp_all

lemma timely_step:
  assumes "replicaInv E c" "replicas c \<noteq> []" "timely E c p h parent"
  obtains c' where "Step E (NewProposalMsg p) c = Inr c'" and "acts E c c'"
    and "commitCaughtUp E (c'\<lparr>store := store c\<rparr>) parent" and "GetHeader E (store c') (hashOf E h) = Inr h"
    and "\<And>k. k \<noteq> hashOf E h \<Longrightarrow> GetHeader E (store c') k = GetHeader E (store c) k"
    and "voted c' = Header_View h"
    and "prepare c' = parent \<and> view c' = Header_View h \<or> prepare c' = h \<and> view c' = Header_View h + 1"
proof -
  obtain d where d: "Step E (NewProposalMsg p) c = sendVote E d h" "acts E c d" "sane d"
    "view d = Header_View h" "voted d < Header_View h" "prepare d = parent"
    "commitCaughtUp E (d\<lparr>store := store c\<rparr>) parent" "GetHeader E (store d) (hashOf E h) = Inr h"
    and frame: "\<And>k. k \<noteq> hashOf E h \<Longrightarrow> GetHeader E (store d) k = GetHeader E (store c) k"
    by (rule timely_accepted [OF assms]) blast
  have p: "offered E c p h parent" using assms(3) by (simp add: timely_def)
  obtain c' where c': "Step E (NewProposalMsg p) c = Inr c'"
    using runs_sendVote [OF d(3), of h] d(1) by (auto simp: runs_def)
  have acts: "acts E c c'"
    by (rule Step_acts [OF c']) (use p in \<open>simp add: smallMessage_def smallProposal_def msg_defs offered_def\<close>)
  obtain s where s: "SaveVoted E (store d) (Header_View h) = Inr s" using runs_saves(3) by (auto simp: runs_def)
  obtain sig where sig: "c_signer E [] (hashOf E h) = Inr sig"
    using runs_sign [of "hashOf E h"] by (auto simp: runs_def digest_lengths)
  have "replicas d \<noteq> []" using assms(2) acts_config [OF d(2)] by simp
  then obtain l where l: "getLeader d (Header_View h + 1) = Inr l" by (simp add: getLeader_def)
  define v where "v = \<lparr>Vote_Block = hashOf E h, Vote_View = Header_View h, Vote_Voter = cid d, Vote_Sig = sig\<rparr>"
  have out: "c' = withVote E d h s l v \<or> onVote E (withVote E d h s l v) v = Inr c'"
    using c' d(1) sendVote_withVote [OF s sig l v_def] by (auto split: if_splits)
  have low: "Header_View parent < Header_View h" using p unfolding offered_def by blast
  have "voted c' = Header_View h \<and> commit c' = commit d \<and> GetHeader E (store c') k = GetHeader E (store d) k \<and>
      (prepare c' = parent \<and> view c' = Header_View h \<or> prepare c' = h \<and> view c' = Header_View h + 1)" for k
    using out
  proof
    assume "c' = withVote E d h s l v"
    then show ?thesis using d(4,6) GetHeader_SaveVoted [OF s] by (simp add: withVote_def)
  next
    assume "onVote E (withVote E d h s l v) v = Inr c'"
    from onVote_views [OF this, of h] onVote_keeps [OF this, of k] show ?thesis
      using d(4,6) low GetHeader_SaveVoted [OF s] by (simp add: Votes_Start_def withVote_def)
  qed
  note after = this
  have "commitCaughtUp E (c'\<lparr>store := store c\<rparr>) parent" using d(7) after by (simp add: commitCaughtUp_def)
  then show thesis using that [OF c' acts] after d(8) frame by simp
qed

lemma offered_cong: "replicas c' = replicas c \<Longrightarrow> offered E c' p h parent = offered E c p h parent"
  using getLeader_cong [of c' c] by (simp add: offered_def)

lemma timely_next:
  assumes "replicaInv E c" "replicas c \<noteq> []" "timely E c p h parent"
    and "offered E c p' h' h" and "Header_Parent h' = hashOf E h"
  obtains c' where "Step E (NewProposalMsg p) c = Inr c'" and "acts E c c'" and "timely E c' p' h' h"
    and "GetHeader E (store c') (hashOf E h) = Inr h"
    and "\<And>k. k \<noteq> hashOf E h \<Longrightarrow> GetHeader E (store c') k = GetHeader E (store c) k"
proof -
  obtain c' where c': "Step E (NewProposalMsg p) c = Inr c'" "acts E c c'" "GetHeader E (store c') (hashOf E h) = Inr h"
    "voted c' = Header_View h" "prepare c' = parent \<and> view c' = Header_View h \<or> prepare c' = h \<and> view c' = Header_View h + 1"
    and frame: "\<And>k. k \<noteq> hashOf E h \<Longrightarrow> GetHeader E (store c') k = GetHeader E (store c) k"
    by (rule timely_step [OF assms(1-3)]) blast
  have "offered E c' p' h' h" using assms(4) offered_cong acts_config [OF c'(2)] by blast
  moreover have "Header_View h' = Header_View h + 1" "Header_View h < Header_View h'" "Header_View parent < Header_View h"
    using assms(3,4) unfolding timely_def offered_def by blast+
  ultimately have "timely E c' p' h' h" using c'(3-5) assms(5) by (auto simp: timely_def)
  then show thesis using that c'(1-3) frame by blast
qed

lemma timely_chain_commits:
  assumes "replicaInv E c" "replicas c \<noteq> []" "timely E c p1 h1 h0"
    and offers: "offered E c p2 h2 h1" "offered E c p3 h3 h2" "offered E c p4 h4 h3"
    and links: "Header_Parent h2 = hashOf E h1" "Header_Parent h3 = hashOf E h2" "Header_Parent h4 = hashOf E h3"
    and hashes: "distinct [hashOf E h1, hashOf E h2, hashOf E h3]"
  shows "\<exists>c'. steps E (map NewProposalMsg [p1, p2, p3, p4]) c = Inr c' \<and> Header_View h1 \<le> Header_View (commit c') \<and>
    (commit c' = commit c \<or> commit c' \<in> set (finalized (progress c')))"
proof -
  have kept: "replicaInv E d" "replicas d \<noteq> []" "offered E d p h q = offered E c p h q" if "acts E c d" for d p h q
    using acts_replicaInv [OF that assms(1)] acts_config [OF that] assms(2) offered_cong [of d c] by simp_all
  obtain c1 where c1: "Step E (NewProposalMsg p1) c = Inr c1" "acts E c c1" "timely E c1 p2 h2 h1"
    "GetHeader E (store c1) (hashOf E h1) = Inr h1"
    by (rule timely_next [OF assms(1-3) offers(1) links(1)]) blast
  obtain c2 where c2: "Step E (NewProposalMsg p2) c1 = Inr c2" "acts E c1 c2" "timely E c2 p3 h3 h2"
    "GetHeader E (store c2) (hashOf E h2) = Inr h2"
    and frame2: "\<And>k. k \<noteq> hashOf E h2 \<Longrightarrow> GetHeader E (store c2) k = GetHeader E (store c1) k"
    by (rule timely_next [OF _ _ c1(3) _ links(2)]) (use kept [OF c1(2)] offers in simp_all)
  have to2: "acts E c c2" by (rule acts_trans [OF c1(2) c2(2)])
  obtain c3 where c3: "Step E (NewProposalMsg p3) c2 = Inr c3" "acts E c2 c3" "timely E c3 p4 h4 h3"
    and frame3: "\<And>k. k \<noteq> hashOf E h3 \<Longrightarrow> GetHeader E (store c3) k = GetHeader E (store c2) k"
    by (rule timely_next [OF _ _ c2(3) _ links(3)]) (use kept [OF to2] offers in simp_all)
  have to3: "acts E c c3" by (rule acts_trans [OF to2 c3(2)])
  obtain c4 where c4: "Step E (NewProposalMsg p4) c3 = Inr c4" "acts E c3 c4" "commitCaughtUp E (c4\<lparr>store := store c3\<rparr>) h3"
    by (rule timely_step [OF _ _ c3(3)]) (use kept [OF to3] in simp_all)
  have "GetHeader E (store c3) (hashOf E h2) = Inr h2" "GetHeader E (store c3) (hashOf E h1) = Inr h1"
    using frame3 frame2 c2(4) c1(4) hashes by simp_all
  moreover have "Header_View h2 = Header_View h1 + 1" "Header_View h3 = Header_View h2 + 1"
    using offers(1,2) unfolding offered_def by blast+
  ultimately have "Header_View h1 \<le> Header_View (commit c4)" using c4(3) links by (simp add: commitCaughtUp_def)
  moreover have "commit c4 = commit c \<or> commit c4 \<in> set (finalized (progress c4))"
    by (rule acts_announces [OF acts_trans [OF to3 c4(2)]])
  ultimately show ?thesis using c1(1) c2(1) c3(1) c4(1) by (intro exI [of _ c4]) simp
qed

section \<open>A whole view\<close>

text \<open>
  The votes that are missing for a quorum: the last one certifies the block. The state
  before the last vote is kept for what is known of certificates.
\<close>

lemma tally_votes:
  assumes "tallying E h voters c" and "\<forall>v \<in> set vs. Vote_Block v = hashOf E h \<and> Vote_View v = Header_View h \<and>
      Vote_Voter v |\<notin>| voters \<and> v_Verify (c_verifier E) (Vote_Voter v) (hashOf E h) (Vote_Sig v)"
    and "distinct (map Vote_Voter vs)" and "vs \<noteq> []" and "fcard voters + length vs = vt_majority (votes c)"
  shows "\<exists>d c'. steps E (map NewVoteMsg (butlast vs)) c = Inr d \<and> acts E c d \<and> Header_View (prepare d) < Header_View h \<and>
    onVote E d (last vs) = Inr c' \<and> steps E (map NewVoteMsg vs) c = Inr c' \<and>
    prepare c' = h \<and> view c' = Header_View h + 1 \<and> waitingData c' \<and> Progress_WaitingData (progress c') \<and> vt_Cert (votes c') = None"
  using assms
proof (induction vs arbitrary: voters c)
  case (Cons v vs)
  have v: "Vote_Block v = hashOf E h" "Vote_View v = Header_View h" "Vote_Voter v |\<notin>| voters"
    "v_Verify (c_verifier E) (Vote_Voter v) (hashOf E h) (Vote_Sig v)" using Cons.prems(2) by auto
  have card: "fcard (finsert (Vote_Voter v) voters) = Suc (fcard voters)" using v(3) by (rule fcard_finsert_disjoint)
  show ?case
  proof (cases vs)
    case Nil
    then obtain c' where "onVote E c v = Inr c'" "prepare c' = h" "view c' = Header_View h + 1" "waitingData c'" "Progress_WaitingData (progress c')"
      "vt_Cert (votes c') = None"
      using tally_vote(2) [OF Cons.prems(1) v] Cons.prems(5) card by auto
    then show ?thesis using Nil Cons.prems(1) by (intro exI [of _ c] exI [of _ c']) (simp add: tallying_def)
  next
    case (Cons w ws)
    then obtain c1 where c1: "onVote E c v = Inr c1" "tallying E h (finsert (Vote_Voter v) voters) c1"
      "vt_majority (votes c1) = vt_majority (votes c)"
      using tally_vote(1) [OF Cons.prems(1) v] Cons.prems(5) card by auto
    have "\<exists>d c'. steps E (map NewVoteMsg (butlast vs)) c1 = Inr d \<and> acts E c1 d \<and> Header_View (prepare d) < Header_View h \<and>
      onVote E d (last vs) = Inr c' \<and> steps E (map NewVoteMsg vs) c1 = Inr c' \<and>
      prepare c' = h \<and> view c' = Header_View h + 1 \<and> waitingData c' \<and> Progress_WaitingData (progress c') \<and> vt_Cert (votes c') = None"
    proof (rule Cons.IH [OF c1(2)])
      have "\<forall>x \<in> set vs. Vote_Voter x \<noteq> Vote_Voter v" using Cons.prems(3) by (auto simp: image_iff)
      then show "\<forall>x \<in> set vs. Vote_Block x = hashOf E h \<and> Vote_View x = Header_View h \<and>
          Vote_Voter x |\<notin>| finsert (Vote_Voter v) voters \<and> v_Verify (c_verifier E) (Vote_Voter x) (hashOf E h) (Vote_Sig x)"
        using Cons.prems(2) by simp
    qed (use Cons.prems(3,5) c1(3) card \<open>vs = w # ws\<close> in simp_all)
    moreover have "acts E c c1" by (rule onVote_acts [OF c1(1)])
    ultimately show ?thesis using c1(1) \<open>vs = w # ws\<close> by (auto intro: acts_trans)
  qed
qed simp

end

text \<open>
  The honest replicas of a view, one of them the leader of the next: each of them votes for
  the timely proposal, and the leader certifies it when the votes of a quorum are in.
\<close>

definition attending :: "('db, 'z) cenv \<Rightarrow> 'db consensus \<Rightarrow> (bytes \<Rightarrow> bytes) \<Rightarrow> uint64 list \<Rightarrow> uint64 \<Rightarrow>
    Proposal \<Rightarrow> Header \<Rightarrow> Header \<Rightarrow> bool" where
  "attending E c H rs i p h parent \<longleftrightarrow> running E \<and> blake2s E = H \<and> replicaInv E c \<and> cid c = i \<and> replicas c = rs \<and>
     timely E c p h parent"

lemma attending_votes:
  assumes "attending E c H rs i p h parent" and "getLeader c (Header_View h + 1) = Inr j"
    and "\<And>sig. c_signer E [] (Header_Hash H h) = Inr sig \<Longrightarrow> good sig"
  shows "\<exists>c' v. Step E (NewProposalMsg p) c = Inr c' \<and>
    emits c [\<lparr>Recipients = Some [j], MsgTo_Message = NewVoteMsg v\<rparr>] c' \<and>
    Vote_Block v = Header_Hash H h \<and> Vote_View v = Header_View h \<and> Vote_Voter v = i \<and> good (Vote_Sig v) \<and>
    (j = i \<longrightarrow> v_Verify (c_verifier E) i (Header_Hash H h) (Vote_Sig v) \<longrightarrow> 1 < vt_majority (votes c) \<longrightarrow>
      tallying E h {|i|} c' \<and> vt_majority (votes c') = vt_majority (votes c))"
proof -
  have a: "running E" "Header_Hash H h = hashOf E h" "replicaInv E c" "cid c = i" "timely E c p h parent"
    using assms(1) by (auto simp: attending_def)
  have "replicas c \<noteq> []" using assms(2) by (auto simp: getLeader_def)
  from running.timely_votes [OF a(1,3) this a(5) assms(2)]
  obtain c' v where "Step E (NewProposalMsg p) c = Inr c'" and "voteFor E (cid c) h v"
    and "emits c [\<lparr>Recipients = Some [j], MsgTo_Message = NewVoteMsg v\<rparr>] c'"
    and "j = cid c \<Longrightarrow> v_Verify (c_verifier E) (cid c) (hashOf E h) (Vote_Sig v) \<Longrightarrow> 1 < vt_majority (votes c) \<Longrightarrow>
      tallying E h {|cid c|} c' \<and> vt_majority (votes c') = vt_majority (votes c)" by blast
  then show ?thesis using assms(3) a(2,4) by (intro exI [of _ c'] exI [of _ v]) (simp add: voteFor_def)
qed

lemma attended_view_certifies:
  fixes E :: "uint64 \<Rightarrow> ('db, 'z) cenv"
  assumes "\<forall>i \<in> set (j # is). attending (E i) (g i) H rs i p h parent" and "getLeader (g j) (Header_View h + 1) = Inr j"
    and "\<forall>i \<in> set (j # is). \<forall>sig. c_signer (E i) [] (Header_Hash H h) = Inr sig \<longrightarrow>
      v_Verify (c_verifier (E j)) i (Header_Hash H h) sig"
    and "distinct (j # is)" and "is \<noteq> []" and "vt_majority (votes (g j)) = length (j # is)"
  shows "\<exists>g' v c'. (\<forall>i \<in> set (j # is). Step (E i) (NewProposalMsg p) (g i) = Inr (g' i) \<and>
      emits (g i) [\<lparr>Recipients = Some [j], MsgTo_Message = NewVoteMsg (v i)\<rparr>] (g' i)) \<and>
    steps (E j) (map (\<lambda>i. NewVoteMsg (v i)) is) (g' j) = Inr c' \<and> prepare c' = h \<and> view c' = Header_View h + 1 \<and>
    waitingData c' \<and> Progress_WaitingData (progress c')"
proof -
  let ?voted = "\<lambda>i c' v. Step (E i) (NewProposalMsg p) (g i) = Inr c' \<and>
    emits (g i) [\<lparr>Recipients = Some [j], MsgTo_Message = NewVoteMsg v\<rparr>] c' \<and>
    Vote_Block v = Header_Hash H h \<and> Vote_View v = Header_View h \<and> Vote_Voter v = i \<and>
    v_Verify (c_verifier (E j)) i (Header_Hash H h) (Vote_Sig v) \<and>
    (j = i \<longrightarrow> v_Verify (c_verifier (E i)) i (Header_Hash H h) (Vote_Sig v) \<longrightarrow> 1 < vt_majority (votes (g i)) \<longrightarrow>
      tallying (E i) h {|i|} c' \<and> vt_majority (votes c') = vt_majority (votes (g i)))"
  have "\<forall>i \<in> set (j # is). \<exists>c' v. ?voted i c' v"
  proof
    fix i assume i: "i \<in> set (j # is)"
    have rs: "replicas (g i) = rs" "replicas (g j) = rs" using i assms(1) by (auto simp: attending_def)
    then have leader: "getLeader (g i) (Header_View h + 1) = Inr j" using assms(2) getLeader_cong [of "g i" "g j"] by simp
    show "\<exists>c' v. ?voted i c' v"
      using attending_votes [OF _ leader, of "E i" H rs i p parent
          "v_Verify (c_verifier (E j)) i (Header_Hash H h)"] i assms(1,3) by blast
  qed
  then obtain g' v where v: "\<forall>i \<in> set (j # is). ?voted i (g' i) (v i)" by metis
  have run: "running (E j)" "blake2s (E j) = H" using assms(1) by (simp_all add: attending_def)
  have len: "0 < length is" using assms(5) by simp
  then have start: "tallying (E j) h {|j|} (g' j)" "vt_majority (votes (g' j)) = length (j # is)" using v assms(6) by simp_all
  have names: "map (\<lambda>i. Vote_Voter (v i)) is = is" using v by (intro map_idI) simp
  have "\<exists>d c'. steps (E j) (map NewVoteMsg (butlast (map v is))) (g' j) = Inr d \<and> acts (E j) (g' j) d \<and>
      Header_View (prepare d) < Header_View h \<and> onVote (E j) d (last (map v is)) = Inr c' \<and>
      steps (E j) (map NewVoteMsg (map v is)) (g' j) = Inr c' \<and>
      prepare c' = h \<and> view c' = Header_View h + 1 \<and> waitingData c' \<and> Progress_WaitingData (progress c') \<and>
      vt_Cert (votes c') = None"
  proof (rule running.tally_votes [OF run(1) start(1)])
    show "distinct (map Vote_Voter (map v is))" using assms(4) names by (simp add: comp_def)
    show "\<forall>x \<in> set (map v is). Vote_Block x = hashOf (E j) h \<and> Vote_View x = Header_View h \<and>
      Vote_Voter x |\<notin>| {|j|} \<and> v_Verify (c_verifier (E j)) (Vote_Voter x) (hashOf (E j) h) (Vote_Sig x)"
      using v run(2) assms(4) by auto
  qed (use assms(5) start(2) in \<open>simp_all add: fcard_finsert_if fcard_fempty\<close>)
  then show ?thesis using v by (intro exI [of _ g'] exI [of _ v]) (auto simp: comp_def)
qed

end
