(* ===== verification/ExampleView.thy ===== *)
theory ExampleView
  imports ExampleChain Rounds
begin

text \<open>
  The replicas 0, 1 and 2 of the example in view 3: each of them has started from the genesis
  block and gets the proposal of replica 3, and replica 0 leads view 4. Then the proposals of
  the views 3 to 6 in a row, as replica 0 gets them.
\<close>

definition exEnvOf :: "uint64 \<Rightarrow> (bytes \<Rightarrow> bytes option) CEnv" where
  "exEnvOf i = nodeEnv symBLS (memEnv copy32) (ucast i + 1) exConf"

definition exReplicaOf :: "uint64 \<Rightarrow> (bytes \<Rightarrow> bytes option) consensus" where
  "exReplicaOf i = exReplica\<lparr>cid := i\<rparr>"

text \<open>The environments differ in the signing key only, which the store does not use.\<close>

lemma exEnvOf_signer: "exEnvOf i = exEnv\<lparr>c_signer := BLS12381Signer_Sign symBLS (ucast i + 1)\<rparr>"
  by (simp add: exEnvOf_def exEnv_def nodeEnv_def)

lemma GetHeader_signer [simp]: "GetHeader (E\<lparr>c_signer := f\<rparr>) s k = GetHeader E s k"
  by (simp add: GetHeader_def dbGet_def)

lemma absOf_signer [simp]: "absOf (E\<lparr>c_signer := f\<rparr>) s = absOf E s"
proof -
  have "dbGet (E\<lparr>c_signer := f\<rparr>) s = dbGet E s" by (simp add: dbGet_def fun_eq_iff)
  then show ?thesis by (simp add: absOf_def GetCertificate_def GetData_def GetTag_def GetView_def GetVoted_def cong: if_cong)
qed

lemma replicaInv_signer [simp]: "replicaInv (E\<lparr>c_signer := f\<rparr>) c = replicaInv E c"
  by (simp add: replicaInv_def intact_def persisted_def tagged_def votesReady_def cong: option.case_cong)

lemma exReplicaOf_inv: "replicaInv (exEnvOf i) (exReplicaOf i)"
proof -
  have "replicaInv E (c\<lparr>cid := i\<rparr>) = replicaInv E c" for E :: "(bytes \<Rightarrow> bytes option) CEnv" and c
    by (simp add: replicaInv_def persisted_def votesReady_def split: option.split)
  then show ?thesis using ex_first(2) by (simp add: exEnvOf_signer exReplicaOf_def)
qed

lemma exEnvOf_running: "running (exEnvOf i)"
proof -
  have "exEnvOf i = memNode (\<lambda>x. x) (BLS12381Signer_Sign symBLS (ucast i + 1))
      (NewBLS12381Verifier symBLS (majorityOf [1, 2, 3, 4 :: byte]) [1, 2, 3, 4])"
    unfolding exEnvOf_signer exEnv_memNode by (simp add: memNode_def)
  then show ?thesis by (simp add: memrun.running_axioms)
qed

lemma ex_timely: "timely (exEnvOf i) (exReplicaOf i) exProposal exHeader exGenesisHeader"
  using exAgg_verifies ex_leader_verifies ex_headers(1) ex_sizes(2)
  by (simp add: timely_def offered_def exEnvOf_signer exReplicaOf_def exReplica_def exProposal_def exHeader_def exGenesisHeader_def
      exCert_def certifiedBy_def getLeader_def)

lemma ex_attending: "attending (exEnvOf i) (exReplicaOf i) copy32 [0, 1, 2, 3] i exProposal exHeader exGenesisHeader"
  using exEnvOf_running exReplicaOf_inv ex_timely
  by (simp add: attending_def) (simp add: exEnvOf_signer exReplicaOf_def exReplica_def)

lemma ex_signs_verify:
  assumes "i \<in> {0, 1, 2}" and "c_signer (exEnvOf i) [] (Header_Hash copy32 exHeader) = Inr sig"
  shows "v_Verify (c_verifier (exEnvOf 0)) i (Header_Hash copy32 exHeader) sig"
proof -
  have "sig = domain @ Header_Hash copy32 exHeader @ [ucast i + 1]"
    using assms(2) by (simp add: exEnvOf_signer BLS12381Signer_Sign_def symBLS_def)
  then show ?thesis using assms(1) ex_vote_verifies by (auto simp: exEnvOf_signer)
qed

section \<open>Four views\<close>

definition exOffer :: "byte \<Rightarrow> Certificate \<Rightarrow> Header \<Rightarrow> Proposal" where
  "exOffer key cert h = \<lparr>Proposal_Header = Some h, Proposal_Data = Some Data_zero,
     Proposal_Sig = domain @ Header_Hash copy32 h @ [key], Proposal_ParentCert = Some cert, Proposal_Timeout = None\<rparr>"

definition exCertOf :: "Header \<Rightarrow> Certificate" where
  "exCertOf h = \<lparr>Certificate_Block = Header_Hash copy32 h, Certificate_Sig = Some \<lparr>AggregatedSignature_Voters = [0, 1, 2],
     AggregatedSignature_Sig = Some (concat (map (\<lambda>k. domain @ Header_Hash copy32 h @ [k]) [1, 2, 3]))\<rparr>\<rparr>"

definition exSixth :: Header where "exSixth = exChild exFifth"

lemma exCertOf_certifies: "certifiedBy exEnv (Header_Hash copy32 h) (Certificate_Sig (exCertOf h))"
  by (simp add: exCertOf_def certifiedBy_def exEnv_def nodeEnv_def exConf_def NewBLS12381Verifier_def
      BLS12381Verifier_VerifyAggregated_def symBLS_def Let_def word_le_nat_alt)

lemma ex_offered:
  assumes "getLeader exReplica (Header_View h + 1) = Inr l"
    and "v_Verify (c_verifier exEnv) l (Header_Hash copy32 (exChild h)) (domain @ Header_Hash copy32 (exChild h) @ [key])"
    and "Certificate_Block cert = Header_Hash copy32 h" and "certifiedBy exEnv (Header_Hash copy32 h) (Certificate_Sig cert)"
    and "Header_View h < Header_View h + 1"
  shows "offered exEnv exReplica (exOffer key cert (exChild h)) (exChild h) h"
proof -
  have "Header_Size (exChild h) < 2 ^ 63" by (rule Header_Size_small) (simp_all add: exChild_def Header_zero_def)
  moreover have "Header_View (exChild h) = Header_View h + 1" "Header_Parent (exChild h) = Header_Hash copy32 h"
    by (simp_all add: exChild_def)
  ultimately show ?thesis using assms by (simp add: offered_def exOffer_def)
qed

lemma ex_verifies:
  assumes "length m = 32" and "i < 4"
  shows "v_Verify (c_verifier exEnv) (of_nat i) m (domain @ m @ [of_nat i + 1])"
proof -
  have "i = 0 \<or> i = 1 \<or> i = 2 \<or> i = 3" using assms(2) by auto
  then show ?thesis
    using assms(1) by (auto simp: exEnv_def nodeEnv_def exConf_def NewBLS12381Verifier_def BLS12381Verifier_Verify_def
        symBLS_def Let_def word_le_nat_alt)
qed

lemma ex_offers:
  "offered exEnv exReplica (exOffer 4 exCert exThird) exThird exGenesisHeader"
  "offered exEnv exReplica (exOffer 1 (exCertOf exThird) exFourth) exFourth exThird"
  "offered exEnv exReplica (exOffer 2 (exCertOf exFourth) exFifth) exFifth exFourth"
  "offered exEnv exReplica (exOffer 3 (exCertOf exFifth) exSixth) exSixth exFifth"
proof -
  have genesis: "Certificate_Block exCert = Header_Hash copy32 exGenesisHeader"
    "certifiedBy exEnv (Header_Hash copy32 exGenesisHeader) (Certificate_Sig exCert)"
    using exAgg_verifies by (simp_all add: exCert_def exHash_def certifiedBy_def)
  have block: "Certificate_Block (exCertOf h) = Header_Hash copy32 h" for h by (simp add: exCertOf_def)
  have leader: "getLeader exReplica 3 = Inr 3" "getLeader exReplica 4 = Inr 0" "getLeader exReplica 5 = Inr 1" "getLeader exReplica 6 = Inr 2"
    by (simp_all add: getLeader_def exReplica_def)
  note sig = ex_verifies [OF exHash_length(2)]
  show "offered exEnv exReplica (exOffer 4 exCert exThird) exThird exGenesisHeader"
    unfolding exThird_def using ex_offered [OF _ _ genesis, of 3 4] sig [of 3] leader by (simp add: exGenesisHeader_def)
  show "offered exEnv exReplica (exOffer 1 (exCertOf exThird) exFourth) exFourth exThird"
    unfolding exFourth_def using ex_offered [OF _ _ block exCertOf_certifies, of exThird 0 1] sig [of 0] leader by simp
  show "offered exEnv exReplica (exOffer 2 (exCertOf exFourth) exFifth) exFifth exFourth"
    unfolding exFifth_def using ex_offered [OF _ _ block exCertOf_certifies, of exFourth 1 2] sig [of 1] leader by simp
  show "offered exEnv exReplica (exOffer 3 (exCertOf exFifth) exSixth) exSixth exFifth"
    unfolding exSixth_def using ex_offered [OF _ _ block exCertOf_certifies, of exFifth 2 3] sig [of 2] leader by simp
qed

lemma ex_first_timely: "timely exEnv exReplica (exOffer 4 exCert exThird) exThird exGenesisHeader"
  using ex_offers(1) ex_headers(1)
  by (simp add: timely_def exReplica_def) (simp add: exThird_def exChild_def exHash_def exGenesisHeader_def)

lemma ex_four_views:
  "\<exists>c. steps exEnv (map NewProposalMsg [exOffer 4 exCert exThird, exOffer 1 (exCertOf exThird) exFourth,
      exOffer 2 (exCertOf exFourth) exFifth, exOffer 3 (exCertOf exFifth) exSixth]) exReplica = Inr c \<and>
    3 \<le> Header_View (commit c) \<and> commit c \<in> set (finalized (progress c))"
proof -
  have some: "replicas exReplica \<noteq> []" and old: "\<not> 3 \<le> Header_View (commit exReplica)"
    by (simp_all add: exReplica_def exGenesisHeader_def)
  have link: "Header_Parent exSixth = hashOf exEnv exFifth" by (simp add: exSixth_def exChild_def)
  obtain c where "steps exEnv (map NewProposalMsg [exOffer 4 exCert exThird, exOffer 1 (exCertOf exThird) exFourth,
      exOffer 2 (exCertOf exFourth) exFifth, exOffer 3 (exCertOf exFifth) exSixth]) exReplica = Inr c"
    and "Header_View exThird \<le> Header_View (commit c)" and "commit c = commit exReplica \<or> commit c \<in> set (finalized (progress c))"
    using running.timely_chain_commits [OF exEnv_running ex_first(2) some ex_first_timely ex_offers(2-4) ex_chain(4,5) link ex_chain_hashes] by blast
  then show ?thesis using old by (intro exI [of _ c]) auto
qed

end
