(* ===== verification/Application.thy ===== *)
theory Application
  imports Streams Deployment
begin

text \<open>
  \<^verbatim>\<open>entryPoint\<close> of \<^verbatim>\<open>hotstuff-node/main.go\<close>: the goroutine between the node, the
  connections and the reader of confirmations. It selects among the node's channels and the
  channel of incoming messages, and works off what the selected case asks for, one send on a
  channel after the other, each of which may block. The node's event loop and the
  connections run beside it: a step of the program is a step of any of them. \<open>app_todo\<close> is
  the rest of the case the goroutine is in; with nothing left it is back at its
  \<^verbatim>\<open>select\<close>. \<^verbatim>\<open>main\<close> passes a context that is never cancelled.
\<close>

section \<open>The program\<close>

datatype task =
    StartNode
  | ToNode Message
  | ToPeer nat Message
  | Propose NodeData
  | Confirm

record 'db App =
  app_node :: "'db Node"
  app_todo :: "task list"
  app_out :: "nat \<Rightarrow> Message list"
  app_in :: "Message list"
  app_confirmed :: nat

text \<open>The capacities of \<^verbatim>\<open>arrayOfChannels\<close>, \<^verbatim>\<open>inMsgsChan\<close> and \<^verbatim>\<open>totalConfirmed\<close>.\<close>

definition MSGS_CAPACITY :: nat where
  "MSGS_CAPACITY = 1000"

definition CONFIRMED_CAPACITY :: nat where
  "CONFIRMED_CAPACITY = 100"

text \<open>
  \<^verbatim>\<open>dispatchMessage\<close>: a message without recipients goes to every node in order, the node's
  own copy to \<^verbatim>\<open>Step\<close>.
\<close>

definition sendTo :: "nat \<Rightarrow> Message \<Rightarrow> nat \<Rightarrow> task" where
  "sendTo idx m rx = (if rx = idx then ToNode m else ToPeer rx m)"

definition recipientsOf :: "MsgTo \<Rightarrow> uint64 list" where
  "recipientsOf m = (case Recipients m of None \<Rightarrow> [] | Some ids \<Rightarrow> ids)"

definition dispatchMessage :: "nat \<Rightarrow> MsgTo \<Rightarrow> task list" where
  "dispatchMessage idx m =
     (if length (recipientsOf m) = 0
      then map (sendTo idx (MsgTo_Message m)) [0..<NUMBER_OF_NODES]
      else map (\<lambda>rx. sendTo idx (MsgTo_Message m) (unat rx)) (recipientsOf m))"

text \<open>One task: its possible outcomes, and none while it blocks.\<close>

fun doTask :: "task \<Rightarrow> 'db App \<Rightarrow> 'db App result list" where
  "doTask StartNode a = [rbind (Node_Start (app_node a)) (\<lambda>n. Inr (a\<lparr>app_node := n\<rparr>))]"
| "doTask (ToNode m) a = map (\<lambda>(err, n). Inr (a\<lparr>app_node := n\<rparr>)) (Node_Step False m (app_node a))"
| "doTask (Propose d) a = map (\<lambda>(err, n). Inr (a\<lparr>app_node := n\<rparr>)) (Node_Send False d (app_node a))"
| "doTask (ToPeer rx m) a =
     (if NUMBER_OF_NODES \<le> rx then [Inl IndexOutOfRange]
      else if length (app_out a rx) < MSGS_CAPACITY then [Inr (a\<lparr>app_out := (app_out a)(rx := app_out a rx @ [m])\<rparr>)]
      else [])"
| "doTask Confirm a =
     (if app_confirmed a < CONFIRMED_CAPACITY then [Inr (a\<lparr>app_confirmed := app_confirmed a + 1\<rparr>)] else [])"

datatype appEvent =
    Loop event
  | Work task
  | ReadReady
  | ReadMessages "MsgTo list"
  | ReadBlocks "BlockEvent list"
  | ReadPeer Message
  | Arrived Message
  | Departed nat Message

text \<open>The steps of the program of node \<open>idx\<close>, which proposes \<open>data\<close> whenever it is asked to.\<close>

inductive appStep :: "('db, 'z) cenv \<Rightarrow> nat \<Rightarrow> NodeData \<Rightarrow> 'db App \<Rightarrow> appEvent \<Rightarrow> 'db App \<Rightarrow> bool" for E idx data where
  loop: "iterate E e (app_node a) = Some (Inr n) \<Longrightarrow> appStep E idx data a (Loop e) (a\<lparr>app_node := n\<rparr>)"
| work: "app_todo a = t # ts \<Longrightarrow> Inr a' \<in> set (doTask t (a\<lparr>app_todo := ts\<rparr>)) \<Longrightarrow> appStep E idx data a (Work t) a'"
| ready: "app_todo a = [] \<Longrightarrow> n_waitingData (app_node a) = x # rest \<Longrightarrow>
    appStep E idx data a ReadReady (a\<lparr>app_node := (app_node a)\<lparr>n_waitingData := rest\<rparr>, app_todo := [Propose data]\<rparr>)"
| messages: "app_todo a = [] \<Longrightarrow> n_deliver (app_node a) = ms # rest \<Longrightarrow>
    appStep E idx data a (ReadMessages ms)
      (a\<lparr>app_node := (app_node a)\<lparr>n_deliver := rest\<rparr>, app_todo := concat (map (dispatchMessage idx) ms)\<rparr>)"
| blocks: "app_todo a = [] \<Longrightarrow> n_blocks (app_node a) = bs # rest \<Longrightarrow>
    appStep E idx data a (ReadBlocks bs)
      (a\<lparr>app_node := (app_node a)\<lparr>n_blocks := rest\<rparr>, app_todo := map (\<lambda>_. Confirm) (filter BlockEvent_Finalized bs)\<rparr>)"
| peer: "app_todo a = [] \<Longrightarrow> app_in a = m # rest \<Longrightarrow>
    appStep E idx data a (ReadPeer m) (a\<lparr>app_in := rest, app_todo := [ToNode m]\<rparr>)"
| arrived: "length (app_in a) < MSGS_CAPACITY \<Longrightarrow> appStep E idx data a (Arrived m) (a\<lparr>app_in := app_in a @ [m]\<rparr>)"
| departed: "app_out a rx = m # rest \<Longrightarrow> appStep E idx data a (Departed rx m) (a\<lparr>app_out := (app_out a)(rx := rest)\<rparr>)"

inductive appRun :: "('db, 'z) cenv \<Rightarrow> nat \<Rightarrow> NodeData \<Rightarrow> 'db App \<Rightarrow> appEvent list \<Rightarrow> 'db App \<Rightarrow> bool" for E idx data where
  start: "appRun E idx data a [] a"
| more: "appRun E idx data a tr b \<Longrightarrow> appStep E idx data b e c \<Longrightarrow> appRun E idx data a (tr @ [e]) c"

text \<open>A step before a run.\<close>

lemma appRun_then:
  assumes "appStep E idx data b e c" and "appRun E idx data c tr d"
  shows "appRun E idx data b (e # tr) d"
  using assms(2,1)
proof (induction rule: appRun.induct)
  case (start a)
  then show ?case using appRun.more [OF appRun.start] by fastforce
next
  case (more a tr c e' d)
  then show ?case using appRun.more [of E idx data b "e # tr" c e' d] by simp
qed

text \<open>Where it starts: \<^verbatim>\<open>node.Start()\<close>, then an empty message.\<close>

definition entryPoint :: "'db Node \<Rightarrow> 'db App" where
  "entryPoint n = \<lparr>app_node = n, app_todo = [StartNode, ToNode Message_zero], app_out = (\<lambda>_. []), app_in = [], app_confirmed = 0\<rparr>"

section \<open>The program runs the node\<close>

fun nodeEvents :: "appEvent list \<Rightarrow> event list" where
  "nodeEvents [] = []"
| "nodeEvents (Loop e # tr) = e # nodeEvents tr"
| "nodeEvents (_ # tr) = nodeEvents tr"

lemma nodeEvents_append [simp]: "nodeEvents (xs @ ys) = nodeEvents xs @ nodeEvents ys"
  by (induction xs rule: nodeEvents.induct) simp_all

text \<open>No case of the program reads \<^verbatim>\<open>Missing()\<close>.\<close>

lemma doTask_call:
  assumes "Inr a' \<in> set (doTask t a)"
  shows "app_node a' = app_node a \<or> callUnread (app_node a) (app_node a')"
proof (cases t)
  case StartNode
  then show ?thesis using assms by (auto simp: callUnread_def Node_Start_def intro: call.start elim!: rbind_InrE split: if_splits)
next
  case (ToNode m)
  then obtain err where n: "(err, app_node a') \<in> set (Node_Step False m (app_node a))" using assms by auto
  then have "call (app_node a) (app_node a')" by (rule call.step)
  then show ?thesis using n by (auto simp: callUnread_def Node_Step_def split: if_splits)
next
  case (Propose d)
  then obtain err where n: "(err, app_node a') \<in> set (Node_Send False d (app_node a))" using assms by auto
  then have "call (app_node a) (app_node a')" by (rule call.send)
  then show ?thesis using n by (auto simp: callUnread_def Node_Send_def split: if_splits)
qed (use assms in \<open>auto split: if_splits\<close>)

lemma appStep_run:
  assumes "appStep E idx data b e c" and "run E callUnread n tr (app_node b)"
  shows "run E callUnread n (tr @ nodeEvents [e]) (app_node c)"
  using assms(1)
proof cases
  case (loop e' m)
  then show ?thesis using run.looped [OF assms(2), of e' m] by simp
next
  case (work t ts)
  then show ?thesis using doTask_call [OF work(3)] assms(2) run.called [OF assms(2)] by auto
next
  case (ready x rest)
  then show ?thesis using run.called [OF assms(2)] call.ready [OF ready(4)] by (simp add: callUnread_def)
next
  case (messages ms rest)
  then show ?thesis using run.called [OF assms(2)] call.messages [OF messages(4)] by (simp add: callUnread_def)
next
  case (blocks bs rest)
  then show ?thesis using run.called [OF assms(2)] call.blocks [OF blocks(4)] by (simp add: callUnread_def)
qed (use assms(2) in simp_all)

lemma appRun_run: "appRun E idx data a tr b \<Longrightarrow> run E callUnread (app_node a) (nodeEvents tr) (app_node b)"
  by (induction rule: appRun.induct) (auto intro: run.here dest: appStep_run)

section \<open>What passes through the program\<close>

text \<open>The messages a list of tasks puts on the channel of one peer, and those its connection takes.\<close>

fun peerMessages :: "nat \<Rightarrow> task list \<Rightarrow> Message list" where
  "peerMessages rx [] = []"
| "peerMessages rx (ToPeer rx' m # ts) = (if rx' = rx then m # peerMessages rx ts else peerMessages rx ts)"
| "peerMessages rx (_ # ts) = peerMessages rx ts"

fun departures :: "nat \<Rightarrow> appEvent list \<Rightarrow> Message list" where
  "departures rx [] = []"
| "departures rx (Departed rx' m # tr) = (if rx' = rx then m # departures rx tr else departures rx tr)"
| "departures rx (_ # tr) = departures rx tr"

definition copies :: "nat \<Rightarrow> nat \<Rightarrow> MsgTo list \<Rightarrow> Message list" where
  "copies idx rx ms = peerMessages rx (concat (map (dispatchMessage idx) ms))"

fun confirmations :: "task list \<Rightarrow> nat" where
  "confirmations [] = 0"
| "confirmations (Confirm # ts) = Suc (confirmations ts)"
| "confirmations (_ # ts) = confirmations ts"

lemma peerMessages_append [simp]: "peerMessages rx (ts @ us) = peerMessages rx ts @ peerMessages rx us"
  by (induction ts rule: peerMessages.induct [of _ rx]) simp_all

lemma departures_append [simp]: "departures rx (tr @ us) = departures rx tr @ departures rx us"
  by (induction tr rule: departures.induct [of _ rx]) simp_all

lemma copies_append [simp]: "copies idx rx (ms @ ns) = copies idx rx ms @ copies idx rx ns"
  by (simp add: copies_def)

lemma copies_Nil [simp]: "copies idx rx [] = []"
  by (simp add: copies_def)

lemma confirmations_append [simp]: "confirmations (ts @ us) = confirmations ts + confirmations us"
  by (induction ts rule: confirmations.induct) simp_all

lemma sendTo_confirms [simp]: "confirmations (map (\<lambda>x. sendTo idx m (f x)) xs) = 0"
  by (induction xs) (simp_all add: sendTo_def)

lemma dispatchMessage_confirms [simp]: "confirmations (concat (map (dispatchMessage idx) ms)) = 0"
  using sendTo_confirms [of idx _ "\<lambda>x. x"] by (induction ms) (simp_all add: dispatchMessage_def)

lemma confirms_peerMessages [simp]:
  "peerMessages rx (map (\<lambda>_. Confirm) bs) = []" "confirmations (map (\<lambda>_. Confirm) bs) = length bs"
  by (induction bs) simp_all

lemma takeProgress_channels [simp]:
  "n_deliver (takeProgress n) = n_deliver n" "n_blocks (takeProgress n) = n_blocks n"
  by (simp_all add: takeProgress_def Let_def)

lemma iterate_channels:
  assumes "iterate E e n = Some (Inr n')"
  shows "n_deliver n' @ [] = n_deliver n @ (case e of Delivered ms \<Rightarrow> [ms] | _ \<Rightarrow> [])"
    and "n_blocks n' @ [] = n_blocks n @ (case e of BlocksOut bs \<Rightarrow> [bs] | _ \<Rightarrow> [])"
  using assms
  by (cases e; auto simp: iterate_def select_def withConsensus_Inr split: if_splits list.splits)+

lemma iterate_pending:
  assumes "iterate E e n = Some (Inr n')"
  shows "concat (n_deliver n') = concat (n_deliver n) @ delivered [e]"
    and "concat (n_blocks n') = concat (n_blocks n) @ announced [e]"
  using iterate_channels [OF assms] by (cases e; simp)+

text \<open>
  The messages for one peer on their way through the program, from the connection back to
  the node, and the final blocks that are not confirmed yet.
\<close>

definition inTransit :: "nat \<Rightarrow> nat \<Rightarrow> 'db App \<Rightarrow> Message list" where
  "inTransit idx rx a = app_out a rx @ peerMessages rx (app_todo a) @ copies idx rx (concat (n_deliver (app_node a)))"

definition unconfirmed :: "'db App \<Rightarrow> nat" where
  "unconfirmed a = confirmations (app_todo a) + length (finalHeaders (concat (n_blocks (app_node a))))"

lemma doTask_channels:
  assumes "Inr a' \<in> set (doTask t (a\<lparr>app_todo := ts\<rparr>))"
  shows "n_deliver (app_node a') = n_deliver (app_node a)" and "n_blocks (app_node a') = n_blocks (app_node a)"
    and "app_todo a' = ts" and "app_out a' rx = app_out a rx @ peerMessages rx [t]"
    and "app_confirmed a' = app_confirmed a + confirmations [t]"
    and "app_confirmed a \<le> CONFIRMED_CAPACITY \<Longrightarrow> app_confirmed a' \<le> CONFIRMED_CAPACITY"
  using assms
  by (cases t; auto simp: Node_Start_def Node_Step_def Node_Send_def elim!: rbind_InrE split: if_splits)+

lemma appStep_transit:
  assumes "appStep E idx data a e b"
  shows "departures rx [e] @ inTransit idx rx b = inTransit idx rx a @ copies idx rx (delivered (nodeEvents [e]))"
  using assms
proof cases
  case (loop e' n)
  then show ?thesis using iterate_pending(1) [OF loop(3)] by (simp add: inTransit_def)
next
  case (work t ts)
  have "peerMessages rx (t # ts) = peerMessages rx [t] @ peerMessages rx ts" by (cases t) simp_all
  then show ?thesis using work doTask_channels [OF work(3)] by (simp add: inTransit_def)
qed (auto simp: inTransit_def copies_def)

lemma appStep_confirmed:
  assumes "appStep E idx data a e b"
  shows "app_confirmed b + unconfirmed b = app_confirmed a + unconfirmed a + length (finalHeaders (announced (nodeEvents [e])))"
    and "app_confirmed a \<le> CONFIRMED_CAPACITY \<Longrightarrow> app_confirmed b \<le> CONFIRMED_CAPACITY"
proof -
  show "app_confirmed b + unconfirmed b = app_confirmed a + unconfirmed a + length (finalHeaders (announced (nodeEvents [e])))"
    using assms
  proof cases
    case (loop e' n)
    then show ?thesis using iterate_pending(2) [OF loop(3)] by (simp add: unconfirmed_def)
  next
    case (work t ts)
    have "confirmations (t # ts) = confirmations [t] + confirmations ts" by (cases t) simp_all
    then show ?thesis using work doTask_channels [OF work(3)] by (simp add: unconfirmed_def finalHeaders_def)
  qed (auto simp: unconfirmed_def finalHeaders_def)
  show "app_confirmed a \<le> CONFIRMED_CAPACITY \<Longrightarrow> app_confirmed b \<le> CONFIRMED_CAPACITY"
    using assms by cases (auto dest: doTask_channels(6))
qed

lemma appRun_transit:
  "appRun E idx data a tr b \<Longrightarrow>
    departures rx tr @ inTransit idx rx b = inTransit idx rx a @ copies idx rx (delivered (nodeEvents tr))"
proof (induction rule: appRun.induct)
  case (more a tr b e c)
  have "departures rx tr @ departures rx [e] @ inTransit idx rx c =
      (departures rx tr @ inTransit idx rx b) @ copies idx rx (delivered (nodeEvents [e]))"
    by (simp only: appStep_transit [OF more.hyps(2)] append_assoc)
  then show ?case using more.IH by simp
qed simp

lemma appRun_confirmed:
  "appRun E idx data a tr b \<Longrightarrow>
    app_confirmed b + unconfirmed b = app_confirmed a + unconfirmed a + length (finalHeaders (announced (nodeEvents tr))) \<and>
    (app_confirmed a \<le> CONFIRMED_CAPACITY \<longrightarrow> app_confirmed b \<le> CONFIRMED_CAPACITY)"
proof (induction rule: appRun.induct)
  case (more a tr b e c)
  then show ?case using appStep_confirmed [OF more.hyps(2)] by simp
qed (simp add: finalHeaders_def)

text \<open>The goroutine of \<^verbatim>\<open>entryPoint\<close>: its own steps, as opposed to those that run beside it.\<close>

fun ofEntryPoint :: "appEvent \<Rightarrow> bool" where
  "ofEntryPoint (Loop e) = False"
| "ofEntryPoint (Arrived m) = False"
| "ofEntryPoint (Departed rx m) = False"
| "ofEntryPoint _ = True"

definition stuck :: "'db App \<Rightarrow> bool" where
  "stuck a \<longleftrightarrow> app_confirmed a = CONFIRMED_CAPACITY \<and> app_todo a \<noteq> [] \<and> hd (app_todo a) = Confirm"

lemma appStep_stuck:
  assumes "appStep E idx data a e b" and "stuck a"
  shows "\<not> ofEntryPoint e" and "stuck b"
  using assms by (cases; auto simp: stuck_def)+

lemma appRun_stuck: "appRun E idx data a tr b \<Longrightarrow> stuck a \<Longrightarrow> list_all (\<lambda>e. \<not> ofEntryPoint e) tr \<and> stuck b"
  by (induction rule: appRun.induct) (auto dest: appStep_stuck)

text \<open>The same for the channel of a peer that nobody takes messages from.\<close>

definition jammed :: "nat \<Rightarrow> 'db App \<Rightarrow> bool" where
  "jammed rx a \<longleftrightarrow> rx < NUMBER_OF_NODES \<and> length (app_out a rx) = MSGS_CAPACITY \<and>
     (\<exists>m ts. app_todo a = ToPeer rx m # ts)"

lemma appStep_jammed:
  assumes "appStep E idx data a e b" and "jammed rx a" and "departures rx [e] = []"
  shows "\<not> ofEntryPoint e" and "jammed rx b"
  using assms by (cases; auto simp: jammed_def split: if_splits)+

lemma appRun_jammed:
  "appRun E idx data a tr b \<Longrightarrow> jammed rx a \<Longrightarrow> departures rx tr = [] \<Longrightarrow>
    list_all (\<lambda>e. \<not> ofEntryPoint e) tr \<and> jammed rx b"
  by (induction rule: appRun.induct) (auto dest: appStep_jammed)

section \<open>No task panics\<close>

text \<open>
  Votes and new-view messages go to the leader of a view, which is one of the replicas, and
  everything else is broadcast; \<^verbatim>\<open>Start\<close> is called once.
\<close>

definition addressed :: "uint64 list \<Rightarrow> MsgTo \<Rightarrow> bool" where
  "addressed rs m \<longleftrightarrow> set (recipientsOf m) \<subseteq> set rs"

fun inRange :: "task \<Rightarrow> bool" where
  "inRange (ToPeer rx m) = (rx < NUMBER_OF_NODES)"
| "inRange _ = True"

lemma acts_addressed:
  "acts E c c' \<Longrightarrow> list_all (addressed (replicas c)) (Messages (progress c)) \<Longrightarrow>
    list_all (addressed (replicas c')) (Messages (progress c'))"
proof (induction rule: rtranclp_induct)
  case (step d d')
  from step(2) act_config [OF step(2)] step.IH [OF step.prems] show ?case
    by cases (simp_all add: AddHeader_def AddMessage_def addressed_def recipientsOf_def)
qed

lemma takeProgress_outbox: "set (outbox (takeProgress n)) \<subseteq> set (outbox n)"
  by (auto simp: takeProgress_def outbox_def Progress_Reset_def Let_def)

definition appSafe :: "'db App \<Rightarrow> bool" where
  "appSafe a \<longleftrightarrow>
     (\<forall>i \<in> set (replicas (n_consensus (app_node a))). unat i < NUMBER_OF_NODES) \<and>
     list_all (addressed (replicas (n_consensus (app_node a)))) (outbox (app_node a) @ concat (n_deliver (app_node a))) \<and>
     list_all inRange (app_todo a) \<and>
     (StartNode \<in> set (app_todo a) \<longrightarrow> \<not> n_startClosed (app_node a) \<and> StartNode \<notin> set (tl (app_todo a)))"

lemma dispatchMessage_inRange:
  assumes "\<forall>i \<in> set rs. unat i < NUMBER_OF_NODES" and "list_all (addressed rs) ms"
  shows "list_all inRange (concat (map (dispatchMessage idx) ms))"
    and "StartNode \<notin> set (concat (map (dispatchMessage idx) ms))"
  using assms by (fastforce simp: list_all_iff dispatchMessage_def sendTo_def addressed_def)+

lemma appSafe_task:
  assumes "appSafe a" and "app_todo a = t # ts"
  shows "r \<in> set (doTask t (a\<lparr>app_todo := ts\<rparr>)) \<Longrightarrow> \<exists>a'. r = Inr a'"
    and "Inr a' \<in> set (doTask t (a\<lparr>app_todo := ts\<rparr>)) \<Longrightarrow> appSafe a'"
  using assms
  by (cases t; auto simp: appSafe_def outbox_def Node_Start_def Node_Step_def Node_Send_def
      elim!: rbind_InrE split: if_splits)+

context replica
begin

lemma iterate_addressed:
  assumes "iterate E e n = Some (Inr n')" and "smallEvent e"
    and "list_all (addressed (replicas (n_consensus n))) (outbox n @ concat (n_deliver n))"
  shows "list_all (addressed (replicas (n_consensus n'))) (outbox n' @ concat (n_deliver n'))"
    and "replicas (n_consensus n') = replicas (n_consensus n)" and "n_startClosed n' = n_startClosed n"
proof -
  let ?n = "takeProgress n"
  have sel: "select E e ?n = Some (Inr n')" using assms(1) by (auto simp: iterate_def split: if_splits)
  note moved = select_cases [OF sel assms(2)]
  obtain p where c: "n_consensus ?n = (n_consensus n)\<lparr>progress := p\<rparr>" using takeProgress_consensus by blast
  show rs: "replicas (n_consensus n') = replicas (n_consensus n)" using acts_config [OF moved(1)] by (simp add: c)
  have "list_all (addressed (replicas (n_consensus n))) (outbox ?n)"
    using assms(3) takeProgress_outbox [of n] by (auto simp: list_all_iff)
  then have before: "list_all (addressed (replicas (n_consensus ?n))) (Messages (progress (n_consensus ?n)))"
    "list_all (addressed (replicas (n_consensus n))) (delivered [e] @ r_toSend n')"
    using moved(3) by (simp_all add: outbox_def c)
  then show "list_all (addressed (replicas (n_consensus n'))) (outbox n' @ concat (n_deliver n'))"
    using acts_addressed [OF moved(1) before(1)] assms(3) iterate_pending(1) [OF assms(1)] by (simp add: outbox_def rs)
  have "n_startClosed n' = n_startClosed ?n"
    using sel by (cases e) (auto simp: select_def withConsensus_Inr split: if_splits list.splits)
  then show "n_startClosed n' = n_startClosed n" by (simp add: takeProgress_def Let_def split: if_splits)
qed

lemma appStep_safe:
  assumes "appStep E idx data a e b" and "appSafe a" and "list_all smallEvent (nodeEvents [e])"
  shows "appSafe b"
  using assms(1)
proof cases
  case (loop e' n)
  then show ?thesis using iterate_addressed [OF loop(3)] assms(2,3) by (simp add: appSafe_def)
next
  case (work t ts)
  then show ?thesis using appSafe_task(2) [OF assms(2)] by blast
next
  case (messages ms rest)
  then show ?thesis
    using dispatchMessage_inRange [of "replicas (n_consensus (app_node a))" ms idx] assms(2)
    by (auto simp: appSafe_def outbox_def)
qed (use assms(2) in \<open>auto simp: appSafe_def outbox_def list_all_iff\<close>)

lemma appRun_safe:
  "appRun E idx data a tr b \<Longrightarrow> appSafe a \<Longrightarrow> list_all smallEvent (nodeEvents tr) \<Longrightarrow> appSafe b"
  by (induction rule: appRun.induct) (auto dest: appStep_safe)

end

lemma entryPoint_safe:
  assumes "NewNode B db s priv conf = Inr n" and "length (conf_Replicas conf) \<le> NUMBER_OF_NODES"
    and "replica (nodeEnv B db priv conf)"
  shows "appSafe (entryPoint n)"
proof -
  obtain c where c: "newConsensus (nodeEnv B db priv conf) s (ownIndex (conf_ID conf) (conf_Replicas conf) 0 0)
      (replicaIds (conf_Replicas conf)) = Inr c" and n: "n = nodeOf c"
    using assms(1) by (auto simp: NewNode_def elim!: rbind_InrE)
  note fields = replica.newConsensus_fields [OF assms(3) c]
  have "unat (of_nat i :: uint64) < NUMBER_OF_NODES" if "i < length (conf_Replicas conf)" for i
    using that assms(2) by (simp add: unat_of_nat NUMBER_OF_NODES_def)
  then show ?thesis
    using fields by (auto simp: appSafe_def entryPoint_def n nodeOf_def outbox_def replicaIds_def Progress_zero_def)
qed

end
