(* ===== verification/ExampleProgram.thy ===== *)
theory ExampleProgram
  imports Example Application
begin

text \<open>
  The deployed program around the example replica: from its start over the proposal that
  arrives from a peer to the vote that leaves for the next leader.
\<close>

definition exData :: NodeData where
  "exData = \<lparr>nd_State = [], nd_Root = [], nd_Data = Some Data_zero\<rparr>"

definition exRun :: "appEvent list" where
  "exRun = [Work StartNode, Work (ToNode Message_zero), Loop (Received Message_zero),
     Arrived (NewProposalMsg exProposal), ReadPeer (NewProposalMsg exProposal), Work (ToNode (NewProposalMsg exProposal)),
     Loop (Received (NewProposalMsg exProposal)), Loop (Delivered exDelivery), ReadMessages exDelivery,
     Work (ToPeer 0 (NewVoteMsg (exVote 0))), Departed 0 (NewVoteMsg (exVote 0))]"

lemma ex_takes:
  "progress c = Progress_zero \<Longrightarrow> takeProgress ((nodeOf c)\<lparr>n_startClosed := True, n_received := ms\<rparr>) =
    (nodeOf c)\<lparr>n_startClosed := True, n_received := ms\<rparr>"
  by (simp add: takeProgress_def nodeOf_def Progress_zero_def Progress_Reset_def Let_def)

lemma ex_program:
  obtains b where "appRun exEnv 1 data (entryPoint (nodeOf exReplica)) exRun b" and "app_confirmed b = 0"
proof -
  let ?p = "NewProposalMsg exProposal" and ?v = "NewVoteMsg (exVote 0)"
  let ?a = "\<lambda>n todo ins outs. \<lparr>app_node = n, app_todo = todo, app_out = outs, app_in = ins, app_confirmed = 0\<rparr>"
  let ?n = "(nodeOf exReplica)\<lparr>n_startClosed := True\<rparr>" and ?none = "\<lambda>_ :: nat. [] :: Message list"
  let ?c = "exVoted\<lparr>progress := Progress_zero\<rparr>"
  let ?n2 = "?n\<lparr>n_consensus := exVoted\<rparr>" and ?n3 = "?n\<lparr>n_consensus := ?c\<rparr>"
  have fresh: "progress exReplica = Progress_zero" by (simp add: exReplica_def)
  have zero: "iterate exEnv (Received Message_zero) (?n\<lparr>n_received := [Message_zero]\<rparr>) = Some (Inr ?n)"
    unfolding iterate_def ex_takes [OF fresh]
    by (simp add: select_def withConsensus_def nodeOf_def Step_def dispatch_def Message_zero_def)
  have vote: "iterate exEnv (Received ?p) (?n\<lparr>n_received := [?p]\<rparr>) = Some (Inr ?n2)"
    unfolding iterate_def ex_takes [OF fresh] using ex_vote(1) by (simp add: select_def withConsensus_def nodeOf_def)
  have take2: "takeProgress ?n2 = ?n3\<lparr>r_toSend := exDelivery, r_messages := True\<rparr>"
    by (simp add: takeProgress_def nodeOf_def ex_vote(2) Progress_Reset_def Progress_zero_def exDelivery_def Let_def)
  have give: "iterate exEnv (Delivered exDelivery) ?n2 = Some (Inr (?n3\<lparr>n_deliver := [exDelivery]\<rparr>))"
    unfolding iterate_def take2 by (simp add: select_def nodeOf_def)
  have send: "concat (map (dispatchMessage 1) exDelivery) = [ToPeer 0 ?v]"
    by (simp add: exDelivery_def dispatchMessage_def recipientsOf_def sendTo_def)
  have "appRun exEnv 1 data (entryPoint (nodeOf exReplica)) exRun (?a ?n3 [] [] ?none)"
    unfolding exRun_def
  proof (intro appRun_then)
    show "appStep exEnv 1 data (entryPoint (nodeOf exReplica)) (Work StartNode) (?a ?n [ToNode Message_zero] [] ?none)"
      by (rule appStep.work) (simp_all add: entryPoint_def Node_Start_def nodeOf_def)
    show "appStep exEnv 1 data (?a ?n [ToNode Message_zero] [] ?none) (Work (ToNode Message_zero))
        (?a (?n\<lparr>n_received := [Message_zero]\<rparr>) [] [] ?none)"
      by (rule appStep.work) (simp_all add: Node_Step_def nodeOf_def)
    show "appStep exEnv 1 data (?a (?n\<lparr>n_received := [Message_zero]\<rparr>) [] [] ?none) (Loop (Received Message_zero)) (?a ?n [] [] ?none)"
      using appStep.loop [of exEnv "Received Message_zero" "?a (?n\<lparr>n_received := [Message_zero]\<rparr>) [] [] ?none"] zero by simp
    show "appStep exEnv 1 data (?a ?n [] [] ?none) (Arrived ?p) (?a ?n [] [?p] ?none)"
      using appStep.arrived [of "?a ?n [] [] ?none" exEnv 1 data ?p] by (simp add: MSGS_CAPACITY_def)
    show "appStep exEnv 1 data (?a ?n [] [?p] ?none) (ReadPeer ?p) (?a ?n [ToNode ?p] [] ?none)"
      using appStep.peer [of "?a ?n [] [?p] ?none" ?p "[]" exEnv 1 data] by simp
    show "appStep exEnv 1 data (?a ?n [ToNode ?p] [] ?none) (Work (ToNode ?p)) (?a (?n\<lparr>n_received := [?p]\<rparr>) [] [] ?none)"
      by (rule appStep.work) (simp_all add: Node_Step_def nodeOf_def)
    show "appStep exEnv 1 data (?a (?n\<lparr>n_received := [?p]\<rparr>) [] [] ?none) (Loop (Received ?p)) (?a ?n2 [] [] ?none)"
      using appStep.loop [of exEnv "Received ?p" "?a (?n\<lparr>n_received := [?p]\<rparr>) [] [] ?none"] vote by simp
    show "appStep exEnv 1 data (?a ?n2 [] [] ?none) (Loop (Delivered exDelivery)) (?a (?n3\<lparr>n_deliver := [exDelivery]\<rparr>) [] [] ?none)"
      using appStep.loop [of exEnv "Delivered exDelivery" "?a ?n2 [] [] ?none"] give by simp
    show "appStep exEnv 1 data (?a (?n3\<lparr>n_deliver := [exDelivery]\<rparr>) [] [] ?none) (ReadMessages exDelivery)
        (?a ?n3 [ToPeer 0 ?v] [] ?none)"
      using appStep.messages [of "?a (?n3\<lparr>n_deliver := [exDelivery]\<rparr>) [] [] ?none" exDelivery "[]" exEnv 1 data] send
      by (simp add: nodeOf_def)
    show "appStep exEnv 1 data (?a ?n3 [ToPeer 0 ?v] [] ?none) (Work (ToPeer 0 ?v)) (?a ?n3 [] [] (?none(0 := [?v])))"
      by (rule appStep.work) (simp_all add: NUMBER_OF_NODES_def MSGS_CAPACITY_def)
    show "appStep exEnv 1 data (?a ?n3 [] [] (?none(0 := [?v]))) (Departed 0 ?v) (?a ?n3 [] [] ?none)"
      using appStep.departed [of "?a ?n3 [] [] (?none(0 := [?v]))" 0 ?v "[]" exEnv 1 data] by (simp add: fun_upd_idem)
    show "appRun exEnv 1 data (?a ?n3 [] [] ?none) [] (?a ?n3 [] [] ?none)" by (rule appRun.start)
  qed
  then show thesis using that by simp
qed

end
