(* ===== verification/Synchrony.thy ===== *)
theory Synchrony
  imports Rounds Node
begin

text \<open>
  The network in lock step. The leader of a view proposes the data it is given, the other
  replicas that take part handle the proposal, and the leader of the next view handles their
  votes, in any order. One such view leads to the next: the block is certified by the votes,
  and the certificate is what the next leader proposes with. After four of them every
  replica that takes part has committed the first block.
\<close>

section \<open>A view in lock step\<close>

text \<open>What a replica has sent between two states: broadcasts, and what is for one replica alone.\<close>

definition sent :: "'db consensus \<Rightarrow> 'db consensus \<Rightarrow> MsgTo list" where
  "sent c c' = drop (length (Messages (progress c))) (Messages (progress c'))"

definition broadcasts :: "MsgTo list \<Rightarrow> Message list" where
  "broadcasts ms = map MsgTo_Message (filter (\<lambda>m. Recipients m = None) ms)"

definition lettersTo :: "uint64 \<Rightarrow> MsgTo list \<Rightarrow> Message list" where
  "lettersTo j ms = map MsgTo_Message (filter (\<lambda>m. Recipients m = Some [j]) ms)"

lemma sent_emits: "emits c ms c' \<Longrightarrow> sent c c' = ms"
  by (simp add: sent_def emits_def)

definition leaderOf :: "uint64 list \<Rightarrow> uint64 \<Rightarrow> uint64" where
  "leaderOf rs v = rs ! (unat v mod length rs)"

lemma getLeader_leaderOf: "replicas c \<noteq> [] \<Longrightarrow> getLeader c v = Inr (leaderOf (replicas c) v)"
  by (simp add: getLeader_def leaderOf_def)

text \<open>Within as many consecutive views as there are replicas, every replica leads.\<close>

lemma every_replica_leads:
  assumes "replicas c \<noteq> []" and "unat v + length (replicas c) < 2 ^ 64" and "r \<in> set (replicas c)"
  shows "\<exists>k < length (replicas c). getLeader c (v + of_nat k) = Inr r"
proof -
  let ?n = "length (replicas c)"
  obtain i where i: "i < ?n" "replicas c ! i = r" using assms(3) by (auto simp: in_set_conv_nth)
  define k where "k = (if unat v mod ?n \<le> i then i - unat v mod ?n else ?n - unat v mod ?n + i)"
  have n: "0 < ?n" using assms(1) by simp
  have mod_less: "unat v mod ?n < ?n" using n by simp
  have k: "k < ?n" using i(1) mod_less by (auto simp: k_def)
  have "(unat v mod ?n + k) mod ?n = i" using i(1) mod_less by (auto simp: k_def)
  then have "(unat v + k) mod ?n = i" by (simp add: mod_add_left_eq)
  moreover have "unat (v + of_nat k) = unat v + k"
    using assms(2) k by (simp add: unat_word_ariths(1) unat_of_nat_64)
  ultimately have "getLeader c (v + of_nat k) = Inr r" using n i(2) by (simp add: getLeader_def)
  with k show ?thesis by blast
qed

fun deliver :: "(uint64 \<Rightarrow> ('db, 'z) cenv) \<Rightarrow> Message list \<Rightarrow> uint64 list \<Rightarrow> (uint64 \<Rightarrow> 'db consensus) \<Rightarrow>
    (uint64 \<Rightarrow> 'db consensus) result" where
  "deliver E ms [] g = Inr g"
| "deliver E ms (i # is) g = rbind (steps (E i) ms (g i)) (\<lambda>c. deliver E ms is (g(i := c)))"

text \<open>\<open>Q\<close> are the replicas that take part, \<open>order\<close> the others in the order in which their votes reach the next leader.\<close>

definition lockstep :: "(uint64 \<Rightarrow> ('db, 'z) cenv) \<Rightarrow> uint64 list \<Rightarrow> uint64 list \<Rightarrow> uint64 \<Rightarrow> NodeData \<Rightarrow> uint64 list \<Rightarrow>
    (uint64 \<Rightarrow> 'db consensus) \<Rightarrow> (uint64 \<Rightarrow> 'db consensus) result" where
  "lockstep E rs Q v d order g =
     (let j = leaderOf rs v; j' = leaderOf rs (v + 1)
      in rbind (Send (E j) (nd_State d) (nd_Root d) (nd_Data d) (g j)) (\<lambda>c.
         rbind (deliver E (broadcasts (sent (g j) c)) (removeAll j Q) (g(j := c))) (\<lambda>g1.
         rbind (steps (E j') (concat (map (\<lambda>i. lettersTo j' (sent (g i) (g1 i))) order)) (g1 j')) (\<lambda>c'.
         Inr (g1(j' := c'))))))"

fun locksteps :: "(uint64 \<Rightarrow> ('db, 'z) cenv) \<Rightarrow> uint64 list \<Rightarrow> uint64 list \<Rightarrow> uint64 \<Rightarrow> (NodeData \<times> uint64 list) list \<Rightarrow>
    (uint64 \<Rightarrow> 'db consensus) \<Rightarrow> (uint64 \<Rightarrow> 'db consensus) result" where
  "locksteps E rs Q v [] g = Inr g"
| "locksteps E rs Q v ((d, order) # vs) g = rbind (lockstep E rs Q v d order g) (locksteps E rs Q (v + 1) vs)"

text \<open>The header a leader proposes on top of another, and the chain of a list of data, newest first.\<close>

definition nextHeader :: "(bytes \<Rightarrow> bytes) \<Rightarrow> NodeData \<Rightarrow> Header \<Rightarrow> Header" where
  "nextHeader H d h = \<lparr>Header_View = Header_View h + 1, Header_Parent = Header_Hash H h, Header_ParentView = Header_View h,
     Header_DataRoot = nd_Root d, Header_StateRoot = nd_State d\<rparr>"

fun chainOf :: "(bytes \<Rightarrow> bytes) \<Rightarrow> NodeData list \<Rightarrow> Header list \<Rightarrow> Header list" where
  "chainOf H [] hs = hs"
| "chainOf H (d # ds) hs = chainOf H ds (nextHeader H d (hd hs) # hs)"

lemma deliver_each:
  assumes "\<forall>i \<in> set is. steps (E i) ms (g i) = Inr (f i)" and "distinct is"
  shows "deliver E ms is g = Inr (\<lambda>i. if i \<in> set is then f i else g i)"
  using assms
proof (induction "is" arbitrary: g)
  case (Cons i "is")
  have "deliver E ms is (g(i := f i)) = Inr (\<lambda>k. if k \<in> set is then f k else (g(i := f i)) k)"
    by (rule Cons.IH) (use Cons.prems in auto)
  moreover have "(\<lambda>k. if k \<in> set is then f k else (g(i := f i)) k) = (\<lambda>k. if k \<in> set (i # is) then f k else g k)"
    using Cons.prems(2) by auto
  ultimately show ?case using Cons.prems(1) by simp
qed simp

section \<open>The states between views\<close>

text \<open>
  A replica that has followed the chain \<open>h # hs\<close> so far: it knows its headers, is not ahead
  of it, and has committed the fourth block from the top.
\<close>

definition follows :: "('db, 'z) cenv \<Rightarrow> uint64 list \<Rightarrow> (bytes \<Rightarrow> AggregatedSignature \<Rightarrow> bool) \<Rightarrow> uint64 \<Rightarrow>
    Header \<Rightarrow> Header list \<Rightarrow> 'db consensus \<Rightarrow> bool" where
  "follows E rs good i h hs c \<longleftrightarrow> replicaInv E c \<and> certifying.collectorsOk E (majorityOf rs) good c \<and> cid c = i \<and>
     replicas c = rs \<and> timeoutCert c = None \<and> view c \<le> Header_View h + 1 \<and> voted c \<le> Header_View h \<and>
     (prepare c = h \<or> Header_View (prepare c) < Header_View h) \<and>
     (\<forall>x \<in> set (h # hs). GetHeader E (store c) (hashOf E x) = Inr x) \<and>
     (2 < length hs \<longrightarrow> Header_View (hs ! 2) \<le> Header_View (commit c))"

text \<open>The leader of the next view has the top of the chain certified and waits for data.\<close>

definition leads :: "('db, 'z) cenv \<Rightarrow> Header \<Rightarrow> 'db consensus \<Rightarrow> bool" where
  "leads E h c \<longleftrightarrow> waitingData c \<and> view c = Header_View h + 1 \<and> prepare c = h \<and>
     Certificate_Block (prepareCert c) = hashOf E h \<and> certifiedBy E (hashOf E h) (Certificate_Sig (prepareCert c))"

definition synced :: "(uint64 \<Rightarrow> ('db, 'z) cenv) \<Rightarrow> uint64 list \<Rightarrow> uint64 list \<Rightarrow> (bytes \<Rightarrow> AggregatedSignature \<Rightarrow> bool) \<Rightarrow>
    Header \<Rightarrow> Header list \<Rightarrow> (uint64 \<Rightarrow> 'db consensus) \<Rightarrow> bool" where
  "synced E rs Q good h hs g \<longleftrightarrow> (\<forall>i \<in> set Q. follows (E i) rs good i h hs (g i)) \<and>
     (let j = leaderOf rs (Header_View h + 1) in leads (E j) h (g j))"

text \<open>
  The data and the vote orders of the views to come: the leaders take part, and every other
  replica's vote reaches the next leader.
\<close>

fun fitting :: "uint64 list \<Rightarrow> uint64 list \<Rightarrow> uint64 \<Rightarrow> (NodeData \<times> uint64 list) list \<Rightarrow> bool" where
  "fitting rs Q v [] \<longleftrightarrow> True"
| "fitting rs Q v ((d, order) # vs) \<longleftrightarrow> leaderOf rs v \<in> set Q \<and> leaderOf rs (v + 1) \<in> set Q \<and>
     distinct order \<and> set order = set Q - {leaderOf rs (v + 1)} \<and>
     nd_Data d \<noteq> None \<and> length (nd_State d) + length (nd_Root d) < 2 ^ 62 \<and> fitting rs Q (v + 1) vs"

fun chained :: "(bytes \<Rightarrow> bytes) \<Rightarrow> Header list \<Rightarrow> bool" where
  "chained H (h # p # hs) \<longleftrightarrow> Header_Parent h = Header_Hash H p \<and> Header_View h = Header_View p + 1 \<and> chained H (p # hs)"
| "chained H _ \<longleftrightarrow> True"

lemma chainOf_ends: "\<exists>zs. chainOf H ds hs = zs @ hs"
proof (induction ds arbitrary: hs)
  case (Cons d ds)
  obtain zs where "chainOf H ds (nextHeader H d (hd hs) # hs) = zs @ nextHeader H d (hd hs) # hs" using Cons.IH by blast
  then show ?case by (intro exI [of _ "zs @ [nextHeader H d (hd hs)]"]) simp
qed simp

lemma chained_chainOf: "chained H hs \<Longrightarrow> hs \<noteq> [] \<Longrightarrow> chained H (chainOf H ds hs)"
proof (induction ds arbitrary: hs)
  case (Cons d ds)
  have "chained H (nextHeader H d (hd hs) # hs)" using Cons.prems by (cases hs) (simp_all add: nextHeader_def)
  then show ?case using Cons.IH by simp
qed simp

lemma chainOf_top:
  "hs \<noteq> [] \<Longrightarrow> length (chainOf H ds hs) = length ds + length hs \<and> Header_View (hd (chainOf H ds hs)) = Header_View (hd hs) + of_nat (length ds)"
  by (induction ds arbitrary: hs) (simp_all add: nextHeader_def)

lemma chained_view: "chained H hs \<Longrightarrow> k < length hs \<Longrightarrow> Header_View (hd hs) = Header_View (hs ! k) + of_nat k"
proof (induction k arbitrary: hs)
  case (Suc k)
  then obtain h p t where hs: "hs = h # p # t" by (cases hs; cases "tl hs") auto
  then show ?case using Suc.IH [of "p # t"] Suc.prems by simp
qed (simp add: hd_conv_nth)

lemma view_room:
  assumes "unat (v :: uint64) + 1 < 2 ^ 64"
  shows "v < v + 1" and "unat (v + 1) = unat v + 1"
proof -
  show "unat (v + 1) = unat v + 1" using assms by (simp add: unat_word_ariths)
  then show "v < v + 1" by (simp add: word_less_nat_alt)
qed

context running
begin

text \<open>Votes change nothing once the collector is empty.\<close>

lemma late_votes: "vt_Cert (votes c) = None \<Longrightarrow> replicas c \<noteq> [] \<Longrightarrow> steps E (map NewVoteMsg vs) c = Inr c"
proof (induction vs)
  case (Cons v vs)
  have "c\<lparr>votes := votes c\<rparr> = c" by (cases c) simp
  then have "onVote E c v = Inr c" using Cons.prems by (simp add: onVote_def Votes_Collect_def getLeader_def Let_def)
  then show ?case using Cons by simp
qed simp

lemma votes_keep:
  "steps E (map NewVoteMsg vs) c = Inr c' \<Longrightarrow> acts E c c' \<and> quiet c c' \<and> voted c' = voted c \<and> commit c' = commit c \<and>
    (\<forall>k. GetHeader E (store c') k = GetHeader E (store c) k)"
proof (induction vs arbitrary: c)
  case (Cons v vs)
  then obtain d where d: "onVote E c v = Inr d" "steps E (map NewVoteMsg vs) d = Inr c'"
    by (auto elim!: rbind_InrE)
  note first = onVote_acts [OF d(1)] quiet_onVote [OF d(1)] onVote_keeps [OF d(1)] and rest = Cons.IH [OF d(2)]
  then show ?case by (auto intro: acts_trans quiet_trans)
qed (simp add: quiet_def)

lemma steps_append: "steps E (ms @ ns) c = rbind (steps E ms c) (steps E ns)"
proof (induction ms arbitrary: c)
  case (Cons m ms)
  then show ?case by (cases "Step E m c") simp_all
qed simp

text \<open>Asked for data, the leader proposes the next header and handles the proposal like everyone else.\<close>

lemma leader_proposes:
  assumes "leads E h c" and "timeoutCert c = None" and "replicas c \<noteq> []" and "leaderOf (replicas c) (Header_View h + 1) = cid c"
    and "voted c \<le> Header_View h" and "Header_View h < Header_View h + 1" and "GetHeader E (store c) (hashOf E h) = Inr h"
    and "nd_Data d \<noteq> None" and "length (nd_State d) + length (nd_Root d) < 2 ^ 62"
    and sig: "\<And>sig. c_signer E [] (hashOf E h') = Inr sig \<Longrightarrow> v_Verify (c_verifier E) (cid c) (hashOf E h') sig"
    and h': "h' = nextHeader (blake2s E) d h"
  obtains p where
    "Send E (nd_State d) (nd_Root d) (nd_Data d) c =
      Step E (NewProposalMsg p) (c\<lparr>waitingData := False, progress := AddMessage (progress c) (NewProposalMsg p) None\<rparr>)"
    and "timely E (c\<lparr>waitingData := False, progress := AddMessage (progress c) (NewProposalMsg p) None\<rparr>) p h' h"
proof -
  have lead: "waitingData c" "view c = Header_View h + 1" "prepare c = h" "Certificate_Block (prepareCert c) = hashOf E h"
    "certifiedBy E (hashOf E h) (Certificate_Sig (prepareCert c))" using assms(1) by (auto simp: leads_def)
  obtain sg where sg: "c_signer E [] (hashOf E h') = Inr sg"
    using runs_sign [of "hashOf E h'"] by (auto simp: runs_def digest_lengths)
  define p where "p = \<lparr>Proposal_Header = Some h', Proposal_Data = nd_Data d, Proposal_Sig = sg,
    Proposal_ParentCert = Some (prepareCert c), Proposal_Timeout = None\<rparr>"
  let ?c = "c\<lparr>waitingData := False, progress := AddMessage (progress c) (NewProposalMsg p) None\<rparr>"
  have hd: "h' = \<lparr>Header_View = view c, Header_Parent = hashOf E (prepare c), Header_ParentView = Header_View (prepare c),
      Header_DataRoot = nd_Root d, Header_StateRoot = nd_State d\<rparr>" using lead by (simp add: h' nextHeader_def)
  have "Send E (nd_State d) (nd_Root d) (nd_Data d) c = Step E (NewProposalMsg p) ?c"
    using lead(1) sg assms(2) unfolding hd by (simp add: Send_def sendMsg_def sendMsgWith_def Let_def p_def hd)
  moreover have "Header_Size h' < 2 ^ 63"
    by (rule Header_Size_small) (use assms(9) in \<open>simp_all add: h' nextHeader_def Header_Hash_def hash_len\<close>)
  then have "offered E ?c p h' h"
    using lead assms(3,4,6,8) sig [OF sg] getLeader_leaderOf [of ?c]
    by (simp add: offered_def p_def h' nextHeader_def)
  then have "timely E ?c p h' h"
    using lead assms(5-7) by (auto simp: timely_def h' nextHeader_def)
  ultimately show thesis using that by blast
qed

end

context certifying
begin

lemma collectorsOk_majority: "collectorsOk c \<Longrightarrow> vt_majority (votes c) = majority"
  by (simp add: collectorsOk_def votes.collecting_def)

end

section \<open>The first view\<close>

text \<open>
  The genesis block, certified by a quorum, and a replica that has imported it into a store
  that did not know it and has been started.
\<close>

definition genesisBlock :: "('db, 'z) cenv \<Rightarrow> Block \<Rightarrow> Header \<Rightarrow> bool" where
  "genesisBlock E b h \<longleftrightarrow> Block_Header b = Some h \<and> Header_Size h < 2 ^ 63 \<and>
     (\<exists>cert. Block_Cert b = Some cert \<and> Certificate_Size cert < 2 ^ 63 \<and> Certificate_wf cert \<and>
        Certificate_Block cert = hashOf E h \<and> certifiedBy E (hashOf E h) (Certificate_Sig cert))"

definition launched :: "('db, 'z) cenv \<Rightarrow> uint64 list \<Rightarrow> Block \<Rightarrow> Header \<Rightarrow> uint64 \<Rightarrow> 'db consensus \<Rightarrow> bool" where
  "launched E rs b h i c \<longleftrightarrow>
     (\<exists>s s' c0 e. intact E s \<and> GetHeader E s (hashOf E h) = Inl e \<and> ImportGenesis E s b = Inr (Inr s') \<and>
        newConsensus E s' i rs = Inr c0 \<and> Start E c0 = Inr c)"

lemma Start_nextRoundFalse: "Start E c = nextRoundFalse c"
  by (simp add: Start_def nextRound_def nextRoundFalse_def nextRoundWith_def)

context certifying
begin

lemma launched_follows:
  assumes "launched E rs b h i c" and "genesisBlock E b h" and "majority = majorityOf rs" and "rs \<noteq> []"
  shows "follows E rs good i h [] c" and "i = leaderOf rs (Header_View h + 1) \<Longrightarrow> leads E h c"
proof -
  obtain s s' c0 e where s: "intact E s" "GetHeader E s (hashOf E h) = Inl e" "ImportGenesis E s b = Inr (Inr s')"
    and c0: "newConsensus E s' i rs = Inr c0" and c: "Start E c0 = Inr c" using assms(1) by (auto simp: launched_def)
  obtain cert where b: "Block_Header b = Some h" "Header_Size h < 2 ^ 63" "Block_Cert b = Some cert" "Certificate_Size cert < 2 ^ 63"
    "Certificate_wf cert" "Certificate_Block cert = hashOf E h" and cert: "certifiedBy E (hashOf E h) (Certificate_Sig cert)"
    using assms(2) by (auto simp: genesisBlock_def)
  have f: "view c0 = Header_View h + 1" "voted c0 = Header_View h" "prepare c0 = h" "prepareCert c0 = cert" "replicaInv E c0"
    using ImportGenesis_start [OF s(3) b(1,3) s(2) b(2,4-6) s(1), of i rs] c0 by auto
  have "timeoutCert c0 = None" using c0 by (auto simp: newConsensus_def elim!: rbind_InrE)
  note new = newConsensus_fields [OF c0] this
  have known: "GetHeader E (store c0) (hashOf E h) = Inr h"
    using ImportGenesis_abs(4) [OF s(3) b(1,3) s(2) b(2,4-6)] new by (simp add: GetHeader_abs)
  note round = c [unfolded Start_nextRoundFalse]
  have kept: "durable c = durable c0" "quiet c0 c" by (rule durable_nextRoundFalse [OF round], rule quiet_nextRoundFalse [OF round])
  have acts: "acts E c0 c" by (rule Start_acts [OF c])
  have cfg: "cid c = i" "replicas c = rs" using acts_config [OF acts] new by simp_all
  show "follows E rs good i h [] c"
    using f kept new known cfg acts_replicaInv [OF acts f(5)]
      acts_collectorsOk [OF acts f(5) newConsensus_collectorsOk [OF c0 assms(3)]]
    by (auto simp: follows_def durable_def quiet_def assms(3))
  show "leads E h c" if "i = leaderOf rs (Header_View h + 1)"
  proof -
    have "getLeader c0 (view c0) = Inr (cid c0)" using getLeader_leaderOf [of c0] new f(1) assms(4) that by simp
    then show ?thesis using nextRoundFalse_waits [OF round] f kept b(6) cert by (simp add: leads_def durable_def)
  qed
qed

end

section \<open>From one view to the next\<close>

text \<open>
  What the replicas that take part have in common: the digest, the verifier, and keys whose
  signatures it accepts; and they are a quorum.
\<close>

locale synchronous =
  fixes E :: "uint64 \<Rightarrow> ('db, 'z) CEnv_scheme" and rs Q :: "uint64 list" and H :: "bytes \<Rightarrow> bytes"
    and V :: Verifier and good :: "bytes \<Rightarrow> AggregatedSignature \<Rightarrow> bool"
  assumes runs: "i \<in> set Q \<Longrightarrow> running (E i)"
    and certs: "i \<in> set Q \<Longrightarrow> certifying (E i) (majorityOf rs) good"
    and hash: "i \<in> set Q \<Longrightarrow> blake2s (E i) = H"
    and verifies: "i \<in> set Q \<Longrightarrow> c_verifier (E i) = V"
    and signs: "i \<in> set Q \<Longrightarrow> length m = 32 \<Longrightarrow> c_signer (E i) [] m = Inr sig \<Longrightarrow> v_Verify V i m sig"
    and part: "distinct Q" "majorityOf rs \<le> length Q" "2 \<le> length rs"
begin

lemma quorum_large: "1 < majorityOf rs" "rs \<noteq> []"
  using part(3) by (auto simp: majorityOf_def)

lemma replica_at: "i \<in> set Q \<Longrightarrow> replica (E i)"
  using runs by (simp add: running_def)

lemma signs_header:
  assumes i: "i \<in> set Q" and "c_signer (E i) [] (Header_Hash H h) = Inr sig"
  shows "v_Verify V i (Header_Hash H h) sig"
proof (rule signs [OF i _ assms(2)])
  show "length (Header_Hash H h) = 32"
    using replica.hash_len [OF replica_at [OF i]] by (simp add: Header_Hash_def hash [OF i])
qed

text \<open>A replica that handles the proposal on top of the chain votes for it and follows the longer chain.\<close>

lemma voter_step:
  assumes i: "i \<in> set Q" and c: "follows (E i) rs good i h hs c" and timely: "timely (E i) c p h' h"
    and chain: "chained H (h # hs)" and fresh: "Header_Hash H h' \<notin> Header_Hash H ` set (h # hs)"
    and room: "Header_View h' < Header_View h' + 1" and j: "j = leaderOf rs (Header_View h' + 1)"
  obtains c' v where "Step (E i) (NewProposalMsg p) c = Inr c'"
    and "emits c [\<lparr>Recipients = Some [j], MsgTo_Message = NewVoteMsg v\<rparr>] c'"
    and "Vote_Block v = Header_Hash H h'" "Vote_View v = Header_View h'" "Vote_Voter v = i" "v_Verify V i (Header_Hash H h') (Vote_Sig v)"
    and "follows (E i) rs good i h' (h # hs) c'" and "i = j \<Longrightarrow> tallying (E i) h' {|i|} c'"
proof -
  note H = hash [OF i] and run = runs [OF i]
  have f: "replicaInv (E i) c" "cid c = i" "replicas c = rs" "timeoutCert c = None" "replicas c \<noteq> []"
    "certifying.collectorsOk (E i) (majorityOf rs) good c" "\<And>x. x \<in> set (h # hs) \<Longrightarrow> GetHeader (E i) (store c) (Header_Hash H x) = Inr x"
    using c quorum_large(2) by (auto simp: follows_def H)
  have leader: "getLeader c (Header_View h' + 1) = Inr j" using getLeader_leaderOf [OF f(5)] f(3) j by simp
  obtain c' where c': "Step (E i) (NewProposalMsg p) c = Inr c'" "acts (E i) c c'"
    "commitCaughtUp (E i) (c'\<lparr>store := store c\<rparr>) h" "GetHeader (E i) (store c') (Header_Hash H h') = Inr h'"
    "voted c' = Header_View h'" "prepare c' = h \<and> view c' = Header_View h' \<or> prepare c' = h' \<and> view c' = Header_View h' + 1"
    and frame: "\<And>k. k \<noteq> Header_Hash H h' \<Longrightarrow> GetHeader (E i) (store c') k = GetHeader (E i) (store c) k"
    by (rule running.timely_step [OF run f(1,5) timely]) (simp add: H)
  obtain v where v: "voteFor (E i) i h' v" "emits c [\<lparr>Recipients = Some [j], MsgTo_Message = NewVoteMsg v\<rparr>] c'"
    and no_tc: "timeoutCert c' = None"
    and tally: "j = i \<Longrightarrow> v_Verify (c_verifier (E i)) i (Header_Hash H h') (Vote_Sig v) \<Longrightarrow> 1 < vt_majority (votes c) \<Longrightarrow>
      tallying (E i) h' {|i|} c'"
    by (rule running.timely_votes [OF run f(1,5) timely leader]) (use c'(1) f(2,4) in \<open>simp add: H\<close>)
  have "Vote_Block v = Header_Hash H h'" "Vote_View v = Header_View h'" "Vote_Voter v = i" "v_Verify V i (Header_Hash H h') (Vote_Sig v)"
    using v(1) signs_header [OF i] by (auto simp: voteFor_def H)
  moreover from this(4) have "v_Verify (c_verifier (E i)) i (Header_Hash H h') (Vote_Sig v)" by (simp add: verifies [OF i])
  then have "tallying (E i) h' {|i|} c'" if "i = j"
    using tally [OF that [symmetric]] certifying.collectorsOk_majority [OF certs [OF i] f(6)] quorum_large(1) by simp
  moreover have "follows (E i) rs good i h' (h # hs) c'"
  proof -
    have known: "\<forall>x \<in> set (h' # h # hs). GetHeader (E i) (store c') (hashOf (E i) x) = Inr x"
      using c'(4) frame f(7) fresh by (auto simp: H image_iff)
    have "Header_View ((h # hs) ! 2) \<le> Header_View (commit c')" if long: "2 < length (h # hs)"
    proof -
      obtain a b t where hs: "hs = a # b # t" using long by (cases hs; cases "tl hs") auto
      then show ?thesis using c'(3) chain f(7) by (simp add: commitCaughtUp_def)
    qed
    moreover have "Header_View h < Header_View h'" using timely unfolding timely_def offered_def by blast
    moreover have "replicaInv (E i) c'" by (rule replica.acts_replicaInv [OF replica_at [OF i] c'(2) f(1)])
    moreover have "certifying.collectorsOk (E i) (majorityOf rs) good c'"
      by (rule certifying.acts_collectorsOk [OF certs [OF i] c'(2) f(1,6)])
    ultimately show ?thesis
      using known c'(5,6) no_tc acts_config [OF c'(2)] f(2,3) room by (auto simp: follows_def)
  qed
  ultimately show thesis using that c'(1) v(2) by blast
qed

text \<open>The next leader makes a certificate of the votes and waits for data.\<close>

lemma leader_tallies:
  assumes j: "j \<in> set Q" and c: "follows (E j) rs good j h hs c" and tally: "tallying (E j) h {|j|} c"
    and vs: "\<forall>v \<in> set vs. Vote_Block v = Header_Hash H h \<and> Vote_View v = Header_View h \<and> Vote_Voter v \<noteq> j \<and>
      v_Verify V (Vote_Voter v) (Header_Hash H h) (Vote_Sig v)"
    and voters: "distinct (map Vote_Voter vs)" "majorityOf rs \<le> Suc (length vs)"
  shows "\<exists>c'. steps (E j) (map NewVoteMsg vs) c = Inr c' \<and> follows (E j) rs good j h hs c' \<and> leads (E j) h c'"
proof -
  note H = hash [OF j] and run = runs [OF j]
  let ?n = "majorityOf rs - 1"
  let ?ws = "take ?n vs" and ?rest = "drop ?n vs"
  have f: "replicaInv (E j) c" "certifying.collectorsOk (E j) (majorityOf rs) good c" "replicas c = rs"
    using c by (auto simp: follows_def)
  note maj = certifying.collectorsOk_majority [OF certs [OF j] f(2)]
  have some: "?ws \<noteq> []" "length ?ws = ?n" using quorum_large(1) voters(2) by auto
  obtain d c' where d: "acts (E j) c d" "Header_View (prepare d) < Header_View h" "onVote (E j) d (last ?ws) = Inr c'"
    and c': "steps (E j) (map NewVoteMsg ?ws) c = Inr c'" "prepare c' = h" "view c' = Header_View h + 1" "waitingData c'"
      "vt_Cert (votes c') = None"
    using running.tally_votes [OF run tally, of ?ws] vs voters some maj quorum_large(1)
    by (auto simp: H verifies [OF j] distinct_take take_map [symmetric] fcard_finsert_if fcard_fempty dest!: in_set_takeD)
  note keep = running.votes_keep [OF run c'(1)]
  have "replicas c' = rs" using keep acts_config f(3) by metis
  then have all: "steps (E j) (map NewVoteMsg vs) c = Inr c'"
    using running.steps_append [OF run, of "map NewVoteMsg ?ws" "map NewVoteMsg ?rest" c] c'(1)
      running.late_votes [OF run c'(5), of ?rest] quorum_large(2) by (simp flip: map_append)
  have inv: "replicaInv (E j) d" by (rule replica.acts_replicaInv [OF replica_at [OF j] d(1) f(1)])
  have "certifying.collectorsOk (E j) (majorityOf rs) good d" by (rule certifying.acts_collectorsOk [OF certs [OF j] d(1) f(1,2)])
  moreover have "prepare c' \<noteq> prepare d" using c'(2) d(2) by auto
  ultimately have "Certificate_Block (prepareCert c') = hashOf (E j) h \<and> certifiedBy (E j) (hashOf (E j) h) (Certificate_Sig (prepareCert c'))"
    using certifying.onVote_certificate [OF certs [OF j] d(3) inv] c'(2) by (auto simp: certifiedBy_def)
  then have "leads (E j) h c'" using c' by (simp add: leads_def)
  moreover have "follows (E j) rs good j h hs c'"
    using c c'(2,3) keep acts_config [of _ "E j" c c'] replica.acts_replicaInv [OF replica_at [OF j] _ f(1), of c']
      certifying.acts_collectorsOk [OF certs [OF j] _ f(1,2), of c'] by (auto simp: follows_def quiet_def)
  ultimately show ?thesis using all by blast
qed

text \<open>A proposal that one replica can verify is one that all of them can verify.\<close>

lemma offered_each:
  assumes "i \<in> set Q" "j \<in> set Q" and "replicas c = replicas d" and "offered (E j) d p h parent"
  shows "offered (E i) c p h parent"
proof -
  have "certifiedBy (E i) = certifiedBy (E j)" by (simp add: certifiedBy_def fun_eq_iff verifies assms(1,2))
  then have "offered (E i) c p h parent = offered (E j) d p h parent"
    using getLeader_cong [OF assms(3)] by (simp add: offered_def hash verifies assms(1,2))
  then show ?thesis using assms(4) by simp
qed

lemma follows_timely:
  assumes "i \<in> set Q" and "follows (E i) rs good i h hs c" and "offered (E i) c p h' h" and "Header_Parent h' = Header_Hash H h"
  shows "timely (E i) c p h' h"
proof -
  have views: "Header_View h' = Header_View h + 1" "Header_View h < Header_View h'" using assms(3) unfolding offered_def by blast+
  then have "voted c < Header_View h'" using assms(2) by (auto simp: follows_def)
  then show ?thesis using assms views by (auto simp: timely_def follows_def hash)
qed

lemma follows_asked:
  assumes "i \<in> set Q" and "follows (E i) rs good i h hs c"
  shows "follows (E i) rs good i h hs (c\<lparr>waitingData := b, progress := p\<rparr>)"
proof -
  have "replicaInv (E i) (c\<lparr>waitingData := b\<rparr>) = replicaInv (E i) c"
    by (simp add: replicaInv_def persisted_def votesReady_def cong: option.case_cong)
  then show ?thesis using assms certifying.collectorsOk_def [OF certs [OF assms(1)]] by (simp add: follows_def)
qed

text \<open>The leader proposes, and everyone who takes part votes: what each of them has done after that.\<close>

definition votedFor :: "uint64 \<Rightarrow> Header \<Rightarrow> Header list \<Rightarrow> uint64 \<Rightarrow> 'db consensus \<Rightarrow> Vote \<Rightarrow> bool" where
  "votedFor j' h hs i c v \<longleftrightarrow> Vote_Block v = Header_Hash H h \<and> Vote_View v = Header_View h \<and> Vote_Voter v = i \<and>
     v_Verify V i (Header_Hash H h) (Vote_Sig v) \<and> follows (E i) rs good i h hs c \<and> (i = j' \<longrightarrow> tallying (E i) h {|i|} c)"

lemma view_votes:
  assumes g: "synced E rs Q good h hs g" and j: "j = leaderOf rs (Header_View h + 1)" "j \<in> set Q"
    and data: "nd_Data d \<noteq> None" "length (nd_State d) + length (nd_Root d) < 2 ^ 62"
    and h': "h' = nextHeader H d h" and chain: "chained H (h # hs)" and fresh: "Header_Hash H h' \<notin> Header_Hash H ` set (h # hs)"
    and room: "Header_View h < Header_View h + 1" "Header_View h' < Header_View h' + 1" and j': "j' = leaderOf rs (Header_View h' + 1)"
  obtains p f v where "Send (E j) (nd_State d) (nd_Root d) (nd_Data d) (g j) = Inr (f j)"
    and "\<And>i. i \<in> set Q \<Longrightarrow> i \<noteq> j \<Longrightarrow> Step (E i) (NewProposalMsg p) (g i) = Inr (f i)"
    and "\<And>i. i \<in> set Q \<Longrightarrow> sent (g i) (f i) = (if i = j then [\<lparr>Recipients = None, MsgTo_Message = NewProposalMsg p\<rparr>] else []) @
      [\<lparr>Recipients = Some [j'], MsgTo_Message = NewVoteMsg (v i)\<rparr>]"
    and "\<And>i. i \<in> set Q \<Longrightarrow> votedFor j' h' (h # hs) i (f i) (v i)"
proof -
  have view: "Header_View h' = Header_View h + 1" "Header_Parent h' = Header_Hash H h" by (simp_all add: h' nextHeader_def)
  have fol: "follows (E i) rs good i h hs (g i)" if "i \<in> set Q" for i using g that by (simp add: synced_def)
  have rs: "replicas (g i) = rs" "cid (g i) = i" "timeoutCert (g i) = None" "voted (g i) \<le> Header_View h"
    "GetHeader (E i) (store (g i)) (hashOf (E i) h) = Inr h" if "i \<in> set Q" for i using fol [OF that] by (auto simp: follows_def)
  obtain p where send: "Send (E j) (nd_State d) (nd_Root d) (nd_Data d) (g j) = Step (E j) (NewProposalMsg p)
      ((g j)\<lparr>waitingData := False, progress := AddMessage (progress (g j)) (NewProposalMsg p) None\<rparr>)"
    and own: "timely (E j) ((g j)\<lparr>waitingData := False, progress := AddMessage (progress (g j)) (NewProposalMsg p) None\<rparr>) p h' h"
  proof (rule running.leader_proposes [OF runs [OF j(2)], of h "g j" d h'])
    show "leads (E j) h (g j)" using g by (simp add: synced_def Let_def j(1))
    show "h' = nextHeader (blake2s (E j)) d h" by (simp add: h' hash j(2))
  qed (use rs [OF j(2)] j quorum_large(2) room data signs_header [OF j(2)] in \<open>simp_all add: hash verifies\<close>)
  define s where "s i = (if i = j then (g j)\<lparr>waitingData := False, progress := AddMessage (progress (g j)) (NewProposalMsg p) None\<rparr>
      else g i)" for i
  have s_fol: "follows (E i) rs good i h hs (s i)" if "i \<in> set Q" for i
    using fol [OF that] follows_asked [OF j(2) fol [OF j(2)]] by (simp add: s_def)
  have s_timely: "timely (E i) (s i) p h' h" if "i \<in> set Q" for i
  proof (rule follows_timely [OF that s_fol [OF that] _ view(2)])
    show "offered (E i) (s i) p h' h"
      by (rule offered_each [OF that j(2) _ own [unfolded timely_def, THEN conjunct1]]) (simp add: rs s_def that j(2))
  qed
  have "\<exists>c' v. Step (E i) (NewProposalMsg p) (s i) = Inr c' \<and>
      emits (s i) [\<lparr>Recipients = Some [j'], MsgTo_Message = NewVoteMsg v\<rparr>] c' \<and> votedFor j' h' (h # hs) i c' v" if i: "i \<in> set Q" for i
    by (rule voter_step [OF i s_fol [OF i] s_timely [OF i] chain fresh room(2) j']) (unfold votedFor_def, blast)
  then obtain f v where f: "Step (E i) (NewProposalMsg p) (s i) = Inr (f i)"
      "emits (s i) [\<lparr>Recipients = Some [j'], MsgTo_Message = NewVoteMsg (v i)\<rparr>] (f i)" "votedFor j' h' (h # hs) i (f i) (v i)"
    if "i \<in> set Q" for i by metis
  show thesis
  proof (rule that [of f p v])
    show "Send (E j) (nd_State d) (nd_Root d) (nd_Data d) (g j) = Inr (f j)" using send f(1) [OF j(2)] by (simp add: s_def)
    fix i assume i: "i \<in> set Q"
    show "Step (E i) (NewProposalMsg p) (g i) = Inr (f i)" if "i \<noteq> j" using that f(1) [OF i] by (simp add: s_def)
    show "votedFor j' h' (h # hs) i (f i) (v i)" by (rule f(3) [OF i])
    show "sent (g i) (f i) = (if i = j then [\<lparr>Recipients = None, MsgTo_Message = NewProposalMsg p\<rparr>] else []) @
      [\<lparr>Recipients = Some [j'], MsgTo_Message = NewVoteMsg (v i)\<rparr>]"
      by (rule sent_emits) (use f(2) [OF i] in \<open>auto simp: emits_def s_def AddMessage_def split: if_splits\<close>)
  qed
qed

text \<open>The votes of everyone but the next leader, in any order, are enough for it to lead.\<close>

lemma votes_elect:
  assumes j: "j \<in> set Q" and voted: "\<And>i. i \<in> set Q \<Longrightarrow> votedFor j h hs i (f i) (v i)"
    and order: "distinct order" "set order = set Q - {j}"
  shows "\<exists>c'. steps (E j) (map NewVoteMsg (map v order)) (f j) = Inr c' \<and> follows (E j) rs good j h hs c' \<and> leads (E j) h c'"
proof (rule leader_tallies [OF j])
  have "length order = length Q - 1"
    using order part(1) j distinct_card [of order] distinct_card [of Q] by (simp add: card_Diff_singleton)
  then show "majorityOf rs \<le> Suc (length (map v order))" using part(2) by simp
  have "map (Vote_Voter \<circ> v) order = order" using voted order(2) by (intro map_idI) (simp add: votedFor_def)
  then show "distinct (map Vote_Voter (map v order))" using order(1) by simp
qed (use voted j order(2) in \<open>auto simp: votedFor_def\<close>)

lemma lockstep_next:
  assumes g: "synced E rs Q good h hs g" and fit: "fitting rs Q (Header_View h + 1) ((d, order) # vs)"
    and h': "h' = nextHeader H d h" and chain: "chained H (h # hs)" and fresh: "Header_Hash H h' \<notin> Header_Hash H ` set (h # hs)"
    and room: "Header_View h < Header_View h + 1" "Header_View h' < Header_View h' + 1"
  shows "\<exists>g'. lockstep E rs Q (Header_View h + 1) d order g = Inr g' \<and> synced E rs Q good h' (h # hs) g'"
proof -
  define j j' where "j = leaderOf rs (Header_View h + 1)" and "j' = leaderOf rs (Header_View h' + 1)"
  have after: "leaderOf rs (Header_View h + 1 + 1) = j'" by (simp add: j'_def h' nextHeader_def)
  have j: "j \<in> set Q" "j' \<in> set Q" and order: "distinct order" "set order = set Q - {j'}"
    and data: "nd_Data d \<noteq> None" "length (nd_State d) + length (nd_Root d) < 2 ^ 62"
    using fit after by (auto simp: j_def)
  obtain p f v where send: "Send (E j) (nd_State d) (nd_Root d) (nd_Data d) (g j) = Inr (f j)"
    and step: "\<And>i. i \<in> set Q \<Longrightarrow> i \<noteq> j \<Longrightarrow> Step (E i) (NewProposalMsg p) (g i) = Inr (f i)"
    and sent: "\<And>i. i \<in> set Q \<Longrightarrow> sent (g i) (f i) = (if i = j then [\<lparr>Recipients = None, MsgTo_Message = NewProposalMsg p\<rparr>] else []) @
      [\<lparr>Recipients = Some [j'], MsgTo_Message = NewVoteMsg (v i)\<rparr>]"
    and voted: "\<And>i. i \<in> set Q \<Longrightarrow> votedFor j' h' (h # hs) i (f i) (v i)"
    by (rule view_votes [OF g j_def j(1) data h' chain fresh room j'_def]) blast
  define g1 where "g1 = (\<lambda>i. if i \<in> set (removeAll j Q) then f i else (g(j := f j)) i)"
  have delivered: "deliver E (broadcasts (sent (g j) (f j))) (removeAll j Q) (g(j := f j)) = Inr g1"
    unfolding g1_def
    by (rule deliver_each) (use step j(1) part(1) in \<open>auto simp: sent broadcasts_def distinct_removeAll\<close>)
  have g1: "g1 i = f i" if "i \<in> set Q" for i using that by (simp add: g1_def)
  have "map (\<lambda>i. lettersTo j' (sent (g i) (g1 i))) order = map (\<lambda>i. [NewVoteMsg (v i)]) order"
    using order(2) by (simp add: g1 sent lettersTo_def)
  then have letters: "concat (map (\<lambda>i. lettersTo j' (sent (g i) (g1 i))) order) = map NewVoteMsg (map v order)"
    by (simp only: concat_map_singleton map_map comp_def)
  obtain c' where c': "steps (E j') (map NewVoteMsg (map v order)) (f j') = Inr c'" "follows (E j') rs good j' h' (h # hs) c'"
    "leads (E j') h' c'" using votes_elect [OF j(2) voted order] by blast
  have "lockstep E rs Q (Header_View h + 1) d order g = Inr (g1(j' := c'))"
    unfolding lockstep_def Let_def after j_def [symmetric] using send delivered c'(1) letters g1 [OF j(2)] by simp
  moreover have "synced E rs Q good h' (h # hs) (g1(j' := c'))"
    using voted c'(2,3) g1 by (simp add: synced_def j'_def [symmetric] votedFor_def)
  ultimately show ?thesis by blast
qed

section \<open>Many views\<close>

lemma locksteps_synced:
  assumes "synced E rs Q good h hs g" and "fitting rs Q (Header_View h + 1) vs" and "chained H (h # hs)"
    and "distinct (map (Header_Hash H) (chainOf H (map fst vs) (h # hs)))" and "unat (Header_View h) + length vs + 1 < 2 ^ 64"
  shows "\<exists>g'. locksteps E rs Q (Header_View h + 1) vs g = Inr g' \<and>
    synced E rs Q good (hd (chainOf H (map fst vs) (h # hs))) (tl (chainOf H (map fst vs) (h # hs))) g'"
  using assms
proof (induction vs arbitrary: h hs g)
  case (Cons x vs)
  obtain d order where x: "x = (d, order)" by force
  define h' where "h' = nextHeader H d h"
  have view: "Header_View h' = Header_View h + 1" by (simp add: h'_def nextHeader_def)
  have chain: "chained H (h' # h # hs)" using Cons.prems(3) by (simp add: h'_def nextHeader_def)
  have more: "chainOf H (map fst (x # vs)) (h # hs) = chainOf H (map fst vs) (h' # h # hs)" by (simp add: x h'_def)
  have fit: "fitting rs Q (Header_View h + 1) ((d, order) # vs)" "fitting rs Q (Header_View h' + 1) vs"
    using Cons.prems(2) by (simp_all add: x view)
  have room: "unat (Header_View h) + 1 < 2 ^ 64" "unat (Header_View h') + length vs + 1 < 2 ^ 64"
    using Cons.prems(5) view_room(2) [of "Header_View h"] by (simp_all add: view)
  obtain zs where zs: "chainOf H (map fst vs) (h' # h # hs) = zs @ h' # h # hs" using chainOf_ends by blast
  have fresh: "Header_Hash H h' \<notin> Header_Hash H ` set (h # hs)" using Cons.prems(4) unfolding more zs by auto
  have "Header_View h < Header_View h + 1" "Header_View h' < Header_View h' + 1"
    by (rule view_room; use room in simp)+
  then obtain g1 where g1: "lockstep E rs Q (Header_View h + 1) d order g = Inr g1" "synced E rs Q good h' (h # hs) g1"
    using lockstep_next [OF Cons.prems(1) fit(1) h'_def Cons.prems(3) fresh] by blast
  show ?case
    using Cons.IH [OF g1(2) fit(2) chain] Cons.prems(4) room(2) unfolding more by (simp add: x g1(1) view)
qed simp

text \<open>After three views or more, all but the last three blocks are committed everywhere.\<close>

lemma locksteps_commit:
  assumes "synced E rs Q good h [] g" and "fitting rs Q (Header_View h + 1) vs" and "3 \<le> length vs"
    and "distinct (map (Header_Hash H) (chainOf H (map fst vs) [h]))" and "unat (Header_View h) + length vs + 1 < 2 ^ 64"
  shows "\<exists>g'. locksteps E rs Q (Header_View h + 1) vs g = Inr g' \<and>
    (\<forall>i \<in> set Q. unat (Header_View h) + length vs \<le> unat (Header_View (commit (g' i))) + 3)"
proof -
  let ?hs = "chainOf H (map fst vs) [h]"
  obtain g' where g': "locksteps E rs Q (Header_View h + 1) vs g = Inr g'" "synced E rs Q good (hd ?hs) (tl ?hs) g'"
    using locksteps_synced [OF assms(1,2) _ assms(4,5)] by auto
  have top: "length ?hs = length vs + 1" "Header_View (hd ?hs) = Header_View h + of_nat (length vs)"
    using chainOf_top [of "[h]"] by simp_all
  have "chained H ?hs" by (rule chained_chainOf) simp_all
  then have "Header_View (hd ?hs) = Header_View (?hs ! 3) + 3" using chained_view [of H ?hs 3] top(1) assms(3) by simp
  moreover obtain n where n: "length vs = n + 3" using assms(3) by (metis le_add_diff_inverse2)
  ultimately have "Header_View (?hs ! 3) = Header_View h + of_nat n" using top(2) by (simp add: algebra_simps)
  then have view: "unat (Header_View (?hs ! 3)) = unat (Header_View h) + n"
    using assms(5) n by (simp add: unat_word_ariths unat_of_nat_64)
  have "Header_View (?hs ! 3) \<le> Header_View (commit (g' i))" if "i \<in> set Q" for i
    using g'(2) that top(1) assms(3) by (auto simp: synced_def follows_def nth_tl)
  then have "\<forall>i \<in> set Q. unat (Header_View h) + length vs \<le> unat (Header_View (commit (g' i))) + 3"
    using view n by (simp add: word_le_nat_alt)
  then show ?thesis using g'(1) by blast
qed

lemma launched_synced:
  assumes "\<forall>i \<in> set Q. genesisBlock (E i) b h \<and> launched (E i) rs b h i (g i)" and "leaderOf rs (Header_View h + 1) \<in> set Q"
  shows "synced E rs Q good h [] g"
  using assms certifying.launched_follows [OF certs _ _ refl quorum_large(2)] by (auto simp: synced_def Let_def)

end

section \<open>Nodes with BLS signatures\<close>

lemma bls_signs:
  assumes "bls B" and "i < of_nat (length pks)" and "pks ! unat i = bls_PublicKeyFromSecretKey B sk"
    and "BLS12381Signer_Sign B sk [] m = Inr sig"
  shows "v_Verify (NewBLS12381Verifier B n pks) i m sig"
proof -
  have "length m = 32" "sig = bls_SignatureToCompressed B (bls_Sign B (copy32 m) domain sk)"
    using assms(4) by (auto simp: BLS12381Signer_Sign_def split: if_splits)
  then show ?thesis
    using assms(2) bls.decompress [OF assms(1)] bls.verify_sign [OF assms(1)]
    by (simp add: NewBLS12381Verifier_def BLS12381Verifier_Verify_def Let_def assms(3) not_le)
qed

lemma synchronous_bls:
  assumes "bls B" and "\<forall>i \<in> set Q. running (nodeEnv B (db i) (priv i) conf) \<and> blake2s (db i) = H \<and> i < of_nat (length (conf_Replicas conf)) \<and>
      conf_Replicas conf ! unat i = bls_PublicKeyFromSecretKey B (priv i)"
    and "length rs = length (conf_Replicas conf)" and "distinct Q" and "majorityOf rs \<le> length Q" and "2 \<le> length rs"
  shows "synchronous (\<lambda>i. nodeEnv B (db i) (priv i) conf) rs Q H (NewBLS12381Verifier B (majorityOf rs) (conf_Replicas conf))
    (bls_good B (conf_Replicas conf))"
proof (rule synchronous.intro)
  have ver: "c_verifier (nodeEnv B (db i) (priv i) conf) = NewBLS12381Verifier B (majorityOf rs) (conf_Replicas conf)" for i
    by (simp add: nodeEnv_def majorityOf_def assms(3))
  fix i assume i: "i \<in> set Q"
  show run: "running (nodeEnv B (db i) (priv i) conf)" using assms(2) i by blast
  show "certifying (nodeEnv B (db i) (priv i) conf) (majorityOf rs) (bls_good B (conf_Replicas conf))"
    by (rule certifying_bls [OF _ assms(1) ver]) (use run in \<open>simp add: running_def\<close>)
  show "blake2s (nodeEnv B (db i) (priv i) conf) = H" using assms(2) i by (simp add: nodeEnv_def)
  show "c_verifier (nodeEnv B (db i) (priv i) conf) = NewBLS12381Verifier B (majorityOf rs) (conf_Replicas conf)" by (rule ver)
  show "v_Verify (NewBLS12381Verifier B (majorityOf rs) (conf_Replicas conf)) i m sig"
    if "c_signer (nodeEnv B (db i) (priv i) conf) [] m = Inr sig" for m sig
    by (rule bls_signs [OF assms(1), of _ _ "priv i"]) (use assms(2) i that in \<open>simp_all add: nodeEnv_def\<close>)
qed (rule assms(4-6))+

end
