(* ===== verification/Launch.thy ===== *)
theory Launch
  imports Streams Deployment
begin

text \<open>
  What \<^verbatim>\<open>createExampleNode\<close> of \<^verbatim>\<open>hotstuff-node/main.go\<close> returns: all of the keys, the
  signatures on the genesis block, its import into an empty store and the construction of
  the node succeed, and every node starts from the same state but its own index.
\<close>

section \<open>The replica's own index\<close>

lemma ownIndex_absent: "own \<notin> set rs \<Longrightarrow> ownIndex own rs i rid = rid"
  by (induction rs arbitrary: i rid) auto

lemma ownIndex_nth: "distinct rs \<Longrightarrow> k < length rs \<Longrightarrow> ownIndex (rs ! k) rs i rid = i + of_nat k"
proof (induction rs arbitrary: i rid k)
  case (Cons r rs)
  show ?case
  proof (cases k)
    case 0
    then show ?thesis using Cons.prems by (simp add: ownIndex_absent)
  next
    case (Suc j)
    then show ?thesis using Cons.IH [of j "i + 1"] Cons.prems by (auto simp: add.assoc)
  qed
qed simp

section \<open>The size of a merged signature\<close>

text \<open>Compressed signatures have a fixed, positive length.\<close>

definition shortSigs :: "('sk, 'pk, 'sig) BLS \<Rightarrow> bool" where
  "shortSigs B \<longleftrightarrow> (\<forall>s. bls_SignatureToCompressed B s \<noteq> [] \<and> length (bls_SignatureToCompressed B s) < 2 ^ 32)"

definition shortAgg :: "AggregatedSignature \<Rightarrow> bool" where
  "shortAgg a \<longleftrightarrow> pred_option (\<lambda>sg. sg \<noteq> [] \<and> length sg < 2 ^ 32) (AggregatedSignature_Sig a)"

lemma shortAgg_merge:
  assumes "shortSigs B" and "shortAgg a" and "sig \<noteq> []" and "length sig < 2 ^ 32"
  shows "shortAgg (v_Merge (NewBLS12381Verifier B n pks) a i sig)"
  using assms
  by (auto simp: shortAgg_def shortSigs_def NewBLS12381Verifier_def BLS12381Verifier_Merge_def Let_def
      split: option.split sum.split)

lemma shortAgg_signGenesis:
  "shortSigs B \<Longrightarrow> signGenesis B (NewBLS12381Verifier B n pks) hash i privs a = Inr a' \<Longrightarrow> shortAgg a \<Longrightarrow> shortAgg a'"
proof (induction privs arbitrary: i a)
  case (Cons priv privs)
  from Cons.prems(2) obtain sig where sig: "BLS12381Signer_Sign B priv [] hash = Inr sig"
    and rest: "signGenesis B (NewBLS12381Verifier B n pks) hash (Suc i) privs
      (v_Merge (NewBLS12381Verifier B n pks) a (of_nat i) sig) = Inr a'"
    by (auto elim!: rbind_InrE)
  have "sig \<noteq> []" "length sig < 2 ^ 32"
    using sig Cons.prems(1) by (auto simp: BLS12381Signer_Sign_def shortSigs_def split: if_splits)
  then show ?case using Cons.IH [OF Cons.prems(1) rest] shortAgg_merge [OF Cons.prems(1,3)] by blast
qed simp

lemma sum_sovTypes: "sum_list (map sovTypes vs) \<le> 10 * length vs"
  by (induction vs) (use sovTypes_bounds(2) in \<open>simp_all add: add_mono\<close>)

lemma shortAgg_size:
  assumes "shortAgg a" and "length (AggregatedSignature_Voters a) < 2 ^ 32"
  shows "AggregatedSignature_Size a < 2 ^ 40" and "AggregatedSignature_wf a"
proof -
  have "length (sigBytes (AggregatedSignature_Sig a)) < 2 ^ 32"
    using assms(1) by (cases "AggregatedSignature_Sig a") (simp_all add: shortAgg_def)
  then show "AggregatedSignature_Size a < 2 ^ 40"
    using assms(2) sum_sovTypes [of "AggregatedSignature_Voters a"]
      size_bounds(2) [of "sum_list (map sovTypes (AggregatedSignature_Voters a))"]
      size_bounds(3) [of "sigBytes (AggregatedSignature_Sig a)"]
    by (cases "AggregatedSignature_Sig a") (auto simp: AggregatedSignature_Size_def)
  show "AggregatedSignature_wf a" using assms(1) by (auto simp: shortAgg_def AggregatedSignature_wf_def)
qed

section \<open>A node of the example deployment\<close>

text \<open>
  The state of a node after its start: the genesis block is certified, locked and committed,
  and the replica waits in view one.
\<close>

definition freshNode :: "('db, 'z) cenv \<Rightarrow> Header \<Rightarrow> 'pk list \<Rightarrow> 'db Node \<Rightarrow> bool" where
  "freshNode E g pubs n \<longleftrightarrow>
     (let c = n_consensus n
      in view c = Header_View g + 1 \<and> voted c = Header_View g \<and> prepare c = g \<and> locked c = g \<and> commit c = g \<and>
         replicas c = replicaIds pubs \<and> progress c = Progress_zero \<and> replicaInv E c)"

text \<open>What the example deployment needs of its libraries: a database that accepts writes, and a digest of 32 bytes.\<close>

locale launch = leveldb E for E :: "'db Env" +
  fixes B :: "('sk, 'pk, 'sig) BLS"
  assumes puts: "\<exists>s'. ldb_Put E s k v = Inr s'"
    and digest: "length (blake2s E x) = 32"
    and scheme: "bls B"
    and short: "shortSigs B"
begin

lemma node_replica: "replica (nodeEnv B E priv conf)"
  by unfold_locales (auto simp: nodeEnv_def digest dest: get_put get_put_other)

lemma node_store:
  "blake2s (nodeEnv B E priv conf) = blake2s E" "GetHeader (nodeEnv B E priv conf) s k = GetHeader E s k"
  "SaveHeader (nodeEnv B E priv conf) s h = SaveHeader E s h" "SaveData (nodeEnv B E priv conf) s k d = SaveData E s k d"
  "SaveCertificate (nodeEnv B E priv conf) s c = SaveCertificate E s c" "SaveView (nodeEnv B E priv conf) s v = SaveView E s v"
  "SaveVoted (nodeEnv B E priv conf) s v = SaveVoted E s v" "SetTag (nodeEnv B E priv conf) s t k = SetTag E s t k"
  by (simp_all add: GetHeader_def SaveHeader_def SaveCertificate_def SaveData_def SaveView_def SaveVoted_def
      SetTag_def dbGet_def dbPut_def nodeEnv_def)

lemma node_import: "ImportGenesis (nodeEnv B E priv conf) s g = ImportGenesis E s g"
  unfolding ImportGenesis_def node_store by (rule refl)

lemma import_succeeds:
  assumes "Block_Header g = Some h" and "Block_Cert g = Some cert" and "Block_Data g = Some d"
  shows "\<exists>s'. ImportGenesis E s g = Inr (Inr s')"
proof -
  have "\<forall>s k v. \<exists>s'. dbPut E s k v = Inr s'" using puts by (metis dbPut_def sum.simps(6))
  then obtain put where "dbPut E s k v = Inr (put s k v)" for s k v by metis
  then show ?thesis
    by (simp add: ImportGenesis_def assms SaveHeader_def SaveCertificate_def SaveData_def SaveView_def SaveVoted_def
        SetTag_def Let_def split: sum.split)
qed

lemma NewNode_fresh:
  assumes "ImportGenesis E s g = Inr (Inr s')" and "Block_Header g = Some h" and "Block_Cert g = Some cert"
    and "\<forall>k. \<exists>e. GetHeader E s k = Inl e" and "Header_Size h < 2 ^ 63"
    and "Certificate_Size cert < 2 ^ 63" and "Certificate_wf cert" and "Certificate_Block cert = Header_Hash (blake2s E) h"
  shows "\<exists>n. NewNode B E s' priv conf = Inr n \<and> freshNode (nodeEnv B E priv conf) h (conf_Replicas conf) n \<and>
    cid (n_consensus n) = ownIndex (conf_ID conf) (conf_Replicas conf) 0 0 \<and> prepareCert (n_consensus n) = cert"
proof -
  let ?E = "nodeEnv B E priv conf" and ?rs = "replicaIds (conf_Replicas conf)" and ?i = "ownIndex (conf_ID conf) (conf_Replicas conf) 0 0"
  note E = node_replica [of priv conf]
  obtain e where e: "GetHeader ?E s (hashOf ?E h) = Inl e" using assms(4) by (auto simp: node_store)
  have "intact ?E s" using assms(4) by (auto simp: intact_def node_store) (metis Inl_Inr_False)
  with replica.ImportGenesis_start [OF E, of s g s' h cert e ?i ?rs] assms e
  obtain c where c: "newConsensus ?E s' ?i ?rs = Inr c" and f: "view c = Header_View h + 1" "voted c = Header_View h"
    "prepare c = h" "locked c = h" "commit c = h" "prepareCert c = cert" "replicaInv ?E c"
    by (auto simp: node_import node_store)
  note g = replica.newConsensus_fields [OF E c]
  show ?thesis using c f g(8-10) by (simp add: NewNode_def nodeOf_def freshNode_def Let_def)
qed

text \<open>All nodes import the same genesis block, certified by every key of the common seed.\<close>

lemma createExampleNode_genesis:
  assumes root: "rngRead 32 rng = (root, rng')" "length root < 2 ^ 32"
    and keys: "fst (GenerateKeys B rand rng' n) = Inr (pubs, privs)" and n: "0 < n" "n < 2 ^ 32"
    and h: "h = Header_zero\<lparr>Header_DataRoot := root\<rparr>"
  obtains cert s where "ImportGenesis E db \<lparr>Block_Header = Some h, Block_Data = Some Data_zero, Block_Cert = Some cert\<rparr> = Inr (Inr s)"
    and "Certificate_Block cert = Header_Hash (blake2s E) h" and "Certificate_Size cert < 2 ^ 63" and "Certificate_wf cert"
    and "Header_Size h < 2 ^ 63"
    and "\<exists>a. Certificate_Sig cert = Some a \<and>
      v_VerifyAggregated (NewBLS12381Verifier B (2 * length pubs div 3 + 1) pubs) (Header_Hash (blake2s E) h) a"
    and "\<And>idx. idx < n \<Longrightarrow> createExampleNode B E rngRead rand (Inr db) rng idx n =
      NewNode B E s (privs ! idx) \<lparr>conf_ID = pubs ! idx, conf_Replicas = pubs\<rparr>"
proof -
  let ?hash = "Header_Hash (blake2s E) h" and ?k = "2 * length pubs div 3 + 1"
  let ?V = "NewBLS12381Verifier B ?k pubs"
  obtain rng'' where gen: "GenerateKeys B rand rng' n = (Inr (pubs, privs), rng'')" using keys by (metis prod.collapse)
  have len: "length pubs = n" "length privs = n" "pubs = map (bls_PublicKeyFromSecretKey B) privs"
    using GenerateKeys_length [OF keys] by auto
  have V: "verifier ?V ?k (bls_good B pubs)" by (rule bls.bls_implements_verifier [OF scheme]) simp
  have "length ?hash = 32" by (simp add: Header_Hash_def digest)
  then obtain a where a: "signGenesis B ?V ?hash 0 privs AggregatedSignature_zero = Inr a" "bls_good B pubs ?hash a"
    "AggregatedSignature_Voters a = map of_nat [0..<length privs]"
    using bls.signGenesis_good [OF scheme, of ?hash "[]" privs pubs AggregatedSignature_zero ?k] len n
      verifier.good_zero [OF V] by (auto simp: AggregatedSignature_zero_def)
  have ok: "v_VerifyAggregated ?V ?hash a" by (rule verifier.good_verifies [OF V a(2)]) (use len n in \<open>simp add: a(3); presburger\<close>)
  have "shortAgg a" by (rule shortAgg_signGenesis [OF short a(1)]) (simp add: shortAgg_def AggregatedSignature_zero_def)
  note agg = shortAgg_size [OF this]
  let ?cert = "\<lparr>Certificate_Block = ?hash, Certificate_Sig = Some a\<rparr>"
  let ?g = "\<lparr>Block_Header = Some h, Block_Data = Some Data_zero, Block_Cert = Some ?cert\<rparr>"
  obtain s where s: "ImportGenesis E db ?g = Inr (Inr s)" using import_succeeds [of ?g h ?cert Data_zero db] by auto
  have "AggregatedSignature_Size a < 2 ^ 40" "AggregatedSignature_wf a" using agg len n a(3) by auto
  then have fits: "Certificate_Size ?cert < 2 ^ 63" "Certificate_wf ?cert"
    using size_bounds(2) [of "AggregatedSignature_Size a"] size_bounds(3) [of ?hash]
    by (simp_all add: Certificate_Size_def sizeMsg_def Certificate_wf_def Header_Hash_def digest)
  have small: "Header_Size h < 2 ^ 63" by (rule Header_Size_small) (use root in \<open>simp_all add: h Header_zero_def\<close>)
  have "createExampleNode B E rngRead rand (Inr db) rng idx n = NewNode B E s (privs ! idx) \<lparr>conf_ID = pubs ! idx, conf_Replicas = pubs\<rparr>"
    if "idx < n" for idx
    using root gen a(1) ok s len that unfolding h
    by (simp add: createExampleNode_def randGenesis_def randRoot_def NewMemDB_def Let_def)
  then show thesis using that s fits small ok by simp
qed

lemma createExampleNode_fresh:
  assumes root: "rngRead 32 rng = (root, rng')" "length root < 2 ^ 32"
    and keys: "fst (GenerateKeys B rand rng' n) = Inr (pubs, privs)"
    and n: "0 < n" "n < 2 ^ 32" "idx < n" and empty: "\<forall>k. \<exists>e. GetHeader E db k = Inl e"
  shows "\<exists>node. createExampleNode B E rngRead rand (Inr db) rng idx n = Inr node \<and>
    freshNode (nodeEnv B E (privs ! idx) \<lparr>conf_ID = pubs ! idx, conf_Replicas = pubs\<rparr>)
      (Header_zero\<lparr>Header_DataRoot := root\<rparr>) pubs node \<and>
    (distinct pubs \<longrightarrow> cid (n_consensus node) = of_nat idx)"
proof -
  let ?h = "Header_zero\<lparr>Header_DataRoot := root\<rparr>"
  obtain cert s where s: "ImportGenesis E db \<lparr>Block_Header = Some ?h, Block_Data = Some Data_zero, Block_Cert = Some cert\<rparr> = Inr (Inr s)"
    and cert: "Certificate_Block cert = Header_Hash (blake2s E) ?h" "Certificate_Size cert < 2 ^ 63" "Certificate_wf cert"
    and small: "Header_Size ?h < 2 ^ 63"
    and create: "\<And>idx. idx < n \<Longrightarrow> createExampleNode B E rngRead rand (Inr db) rng idx n =
      NewNode B E s (privs ! idx) \<lparr>conf_ID = pubs ! idx, conf_Replicas = pubs\<rparr>"
    by (rule createExampleNode_genesis [where rngRead = rngRead and rand = rand and rng = rng and root = root and db = db,
          OF root keys n(1,2) refl]) blast
  have len: "length pubs = n" using GenerateKeys_length [OF keys] by auto
  from NewNode_fresh [OF s _ _ empty small cert(2,3,1), of "privs ! idx" "\<lparr>conf_ID = pubs ! idx, conf_Replicas = pubs\<rparr>"]
  show ?thesis using create [OF n(3)] ownIndex_nth [of pubs idx 0 0] len n by auto
qed

end

text \<open>
  An instance: a database in memory, and an additive scheme in the manner of BLS, where a
  signature is the message's point times the key and signatures add up. It has the laws,
  not the security.
\<close>

definition sumBLS :: "(byte, byte, byte) BLS" where
  "sumBLS =
     \<lparr>bls_Sign = (\<lambda>m d sk. sum_list (d @ m) * sk),
      bls_SignatureToCompressed = (\<lambda>s. [s]),
      bls_NewSignatureFromCompressed = (\<lambda>bs. case bs of [s] \<Rightarrow> Inr s | _ \<Rightarrow> Inl ''invalid length''),
      bls_Verify = (\<lambda>m d s pk. s = sum_list (d @ m) * pk),
      bls_VerifyAggregateCommon = (\<lambda>m d pks s. s = sum_list (d @ m) * sum_list pks),
      bls_AggregateSignature = (+),
      bls_PublicKeyFromSecretKey = (\<lambda>sk. sk)\<rparr>"

interpretation sumBLS: bls sumBLS
  by unfold_locales (simp_all add: sumBLS_def algebra_simps)

interpretation memlaunch: launch "memEnv copy32" sumBLS
  by unfold_locales (simp_all add: memEnv_def shortSigs_def, simp_all add: sumBLS_def)

end
