(* ===== verification/Rollout.thy ===== *)
theory Rollout
  imports Synchrony Launch
begin

text \<open>
  The example deployment in lock step: the nodes that \<^verbatim>\<open>createExampleNode\<close> of
  \<^verbatim>\<open>hotstuff-node/main.go\<close> makes of a common seed are a network that commits.
\<close>

text \<open>What the node with index \<open>i\<close> is given: its key of the common seed, and everyone's public keys.\<close>

definition memberEnv :: "('sk, 'pk, 'sig) BLS \<Rightarrow> 'db Env \<Rightarrow> 'pk list \<Rightarrow> 'sk list \<Rightarrow> uint64 \<Rightarrow> 'db CEnv" where
  "memberEnv B E pubs privs i = nodeEnv B E (privs ! unat i) \<lparr>conf_ID = pubs ! unat i, conf_Replicas = pubs\<rparr>"

lemma memberEnv_conf: "memberEnv B E pubs privs i = nodeEnv B E (privs ! unat i) \<lparr>conf_ID = pk, conf_Replicas = pubs\<rparr>"
  by (simp add: memberEnv_def nodeEnv_def)

lemma replicaIds_members:
  assumes "i \<in> set (replicaIds pubs)" and "length pubs < 2 ^ 32"
  shows "unat i < length pubs" and "of_nat (unat i) = i" and "i < of_nat (length pubs)"
proof -
  obtain k where k: "i = of_nat k" "k < length pubs" using assms(1) by (auto simp: replicaIds_def)
  then have "unat i = k" using assms(2) by (simp add: unat_of_nat_64)
  then show "unat i < length pubs" and "of_nat (unat i) = i" using k by simp_all
  then show "i < of_nat (length pubs)" using assms(2) by (simp add: word_less_nat_alt unat_of_nat_64)
qed

context launch
begin

lemma member_running: "running (memberEnv B E pubs privs i)"
proof -
  have "replica (memberEnv B E pubs privs i)" by (simp add: memberEnv_def node_replica)
  moreover have "running_axioms (memberEnv B E pubs privs i)"
    by unfold_locales (simp_all add: memberEnv_def nodeEnv_def puts BLS12381Signer_Sign_def)
  ultimately show ?thesis by (simp add: running_def)
qed

lemma members_synchronous:
  assumes keys: "fst (GenerateKeys B rand rng n) = Inr (pubs, privs)" and n: "2 \<le> n" "n < 2 ^ 32"
    and Q: "distinct Q" "set Q \<subseteq> set (replicaIds pubs)" "majorityOf (replicaIds pubs) \<le> length Q"
  shows "synchronous (memberEnv B E pubs privs) (replicaIds pubs) Q (blake2s E)
    (NewBLS12381Verifier B (majorityOf (replicaIds pubs)) pubs) (bls_good B pubs)"
proof -
  let ?conf = "\<lparr>conf_ID = pubs ! 0, conf_Replicas = pubs\<rparr>"
  have len: "length pubs = n" "length privs = n" "pubs = map (bls_PublicKeyFromSecretKey B) privs"
    using GenerateKeys_length [OF keys] by auto
  have env: "memberEnv B E pubs privs = (\<lambda>i. nodeEnv B E (privs ! unat i) ?conf)" by (rule ext) (rule memberEnv_conf)
  have keyed: "\<forall>i \<in> set Q. running (nodeEnv B E (privs ! unat i) ?conf) \<and> blake2s E = blake2s E \<and>
      i < of_nat (length (conf_Replicas ?conf)) \<and> conf_Replicas ?conf ! unat i = bls_PublicKeyFromSecretKey B (privs ! unat i)"
  proof
    fix i assume "i \<in> set Q"
    then have i: "unat i < length pubs" "i < of_nat (length pubs)" using replicaIds_members [of i pubs] Q(2) len n by auto
    have "pubs ! unat i = bls_PublicKeyFromSecretKey B (privs ! unat i)" using i(1) len by simp
    then show "running (nodeEnv B E (privs ! unat i) ?conf) \<and> blake2s E = blake2s E \<and>
      i < of_nat (length (conf_Replicas ?conf)) \<and> conf_Replicas ?conf ! unat i = bls_PublicKeyFromSecretKey B (privs ! unat i)"
      using i(2) member_running [of pubs privs i] memberEnv_conf [of B E pubs privs i "pubs ! 0"] by simp
  qed
  have many: "length (replicaIds pubs) = length (conf_Replicas ?conf)" "2 \<le> length (replicaIds pubs)"
    using len(1) n(1) by (simp_all add: replicaIds_def)
  show ?thesis using synchronous_bls [OF scheme keyed many(1) Q(1,3) many(2)] unfolding env by simp
qed

text \<open>Every node, once started, has the same certified genesis block.\<close>

lemma members_launched:
  assumes root: "rngRead 32 rng = (root, rng')" "length root < 2 ^ 32"
    and keys: "fst (GenerateKeys B rand rng' n) = Inr (pubs, privs)" and n: "0 < n" "n < 2 ^ 32"
    and "distinct pubs" and empty: "\<forall>k. \<exists>e. GetHeader E db k = Inl e"
    and h: "h = Header_zero\<lparr>Header_DataRoot := root\<rparr>"
  obtains b where "\<And>i. i \<in> set (replicaIds pubs) \<Longrightarrow> genesisBlock (memberEnv B E pubs privs i) b h \<and>
    (\<exists>node c. createExampleNode B E rngRead rand (Inr db) rng (unat i) n = Inr node \<and>
      Start (memberEnv B E pubs privs i) (n_consensus node) = Inr c \<and> launched (memberEnv B E pubs privs i) (replicaIds pubs) b h i c)"
proof -
  obtain cert s where s: "ImportGenesis E db \<lparr>Block_Header = Some h, Block_Data = Some Data_zero, Block_Cert = Some cert\<rparr> = Inr (Inr s)"
    and cert: "Certificate_Block cert = Header_Hash (blake2s E) h" "Certificate_Size cert < 2 ^ 63" "Certificate_wf cert"
    and small: "Header_Size h < 2 ^ 63"
    and sig: "\<exists>a. Certificate_Sig cert = Some a \<and>
      v_VerifyAggregated (NewBLS12381Verifier B (2 * length pubs div 3 + 1) pubs) (Header_Hash (blake2s E) h) a"
    and create: "\<And>idx. idx < n \<Longrightarrow> createExampleNode B E rngRead rand (Inr db) rng idx n =
      NewNode B E s (privs ! idx) \<lparr>conf_ID = pubs ! idx, conf_Replicas = pubs\<rparr>"
    by (rule createExampleNode_genesis [where rngRead = rngRead and rand = rand and rng = rng and root = root and db = db,
          OF root keys n h]) blast
  let ?b = "\<lparr>Block_Header = Some h, Block_Data = Some Data_zero, Block_Cert = Some cert\<rparr>"
  have len: "length pubs = n" using GenerateKeys_length [OF keys] by auto
  show thesis
  proof (rule that [of ?b])
    fix i assume "i \<in> set (replicaIds pubs)"
    then have i: "unat i < n" "of_nat (unat i) = i" using replicaIds_members [of i pubs] len n by auto
    let ?E = "memberEnv B E pubs privs i"
    have gen: "genesisBlock ?E ?b h"
      using small cert sig by (auto simp: genesisBlock_def certifiedBy_def memberEnv_def nodeEnv_def)
    have store: "ImportGenesis ?E db ?b = Inr (Inr s)" "GetHeader ?E db k = GetHeader E db k" for k
      using s by (simp_all add: memberEnv_def node_import node_store)
    obtain e where e: "GetHeader ?E db (hashOf ?E h) = Inl e" using empty store(2) by auto
    have intact: "intact ?E db" using empty by (auto simp: intact_def store(2)) (metis Inl_Inr_False)
    have own: "ownIndex (pubs ! unat i) pubs 0 0 = i" using ownIndex_nth [of pubs "unat i" 0 0] assms(6) i len by simp
    obtain node where node: "NewNode B E s (privs ! unat i) \<lparr>conf_ID = pubs ! unat i, conf_Replicas = pubs\<rparr> = Inr node"
      "freshNode ?E h pubs node"
      using NewNode_fresh [OF s _ _ empty small cert(2,3,1), of "privs ! unat i" "\<lparr>conf_ID = pubs ! unat i, conf_Replicas = pubs\<rparr>"]
      by (auto simp: memberEnv_def)
    then have new: "newConsensus ?E s i (replicaIds pubs) = Inr (n_consensus node)"
      by (auto simp: NewNode_def memberEnv_def own nodeOf_def elim!: rbind_InrE)
    have "replicas (n_consensus node) \<noteq> []" "replicaInv ?E (n_consensus node)"
      using node(2) len n by (auto simp: freshNode_def Let_def replicaIds_def)
    then obtain c where "Start ?E (n_consensus node) = Inr c"
      using running.runs_Start [OF member_running, of "n_consensus node" pubs privs i] replicaInv_sane by (auto simp: runs_def)
    moreover from this have "launched ?E (replicaIds pubs) ?b h i c"
      unfolding launched_def using intact e store(1) new by blast
    ultimately show "genesisBlock ?E ?b h \<and> (\<exists>node c. createExampleNode B E rngRead rand (Inr db) rng (unat i) n = Inr node \<and>
      Start ?E (n_consensus node) = Inr c \<and> launched ?E (replicaIds pubs) ?b h i c)"
      using gen create [OF i(1)] node(1) by auto
  qed
qed

lemma members_commit:
  assumes root: "rngRead 32 rng = (root, rng')" "length root < 2 ^ 32"
    and keys: "fst (GenerateKeys B rand rng' n) = Inr (pubs, privs)" and n: "2 \<le> n" "n < 2 ^ 32"
    and "distinct pubs" and empty: "\<forall>k. \<exists>e. GetHeader E db k = Inl e"
    and Q: "distinct Q" "set Q \<subseteq> set (replicaIds pubs)" "majorityOf (replicaIds pubs) \<le> length Q"
    and fit: "fitting (replicaIds pubs) Q 1 vs" "3 \<le> length vs" "length vs + 1 < 2 ^ 64"
    and hashes: "distinct (map (Header_Hash (blake2s E)) (chainOf (blake2s E) (map fst vs) [Header_zero\<lparr>Header_DataRoot := root\<rparr>]))"
  shows "\<exists>node g g'. (\<forall>i \<in> set Q. createExampleNode B E rngRead rand (Inr db) rng (unat i) n = Inr (node i) \<and>
      Start (memberEnv B E pubs privs i) (n_consensus (node i)) = Inr (g i)) \<and>
    locksteps (memberEnv B E pubs privs) (replicaIds pubs) Q 1 vs g = Inr g' \<and>
    (\<forall>i \<in> set Q. length vs \<le> unat (Header_View (commit (g' i))) + 3)"
proof -
  define h where "h = Header_zero\<lparr>Header_DataRoot := root\<rparr>"
  have view: "Header_View h + 1 = 1" "unat (Header_View h) = 0" by (simp_all add: h_def Header_zero_def)
  have "0 < n" using n(1) by simp
  obtain b where b: "\<And>i. i \<in> set (replicaIds pubs) \<Longrightarrow> genesisBlock (memberEnv B E pubs privs i) b h \<and>
    (\<exists>node c. createExampleNode B E rngRead rand (Inr db) rng (unat i) n = Inr node \<and>
      Start (memberEnv B E pubs privs i) (n_consensus node) = Inr c \<and> launched (memberEnv B E pubs privs i) (replicaIds pubs) b h i c)"
    by (rule members_launched [where rngRead = rngRead and rand = rand and rng = rng and root = root and db = db,
          OF root keys \<open>0 < n\<close> n(2) assms(6) empty h_def]) blast
  then have "\<forall>i \<in> set Q. \<exists>node c. createExampleNode B E rngRead rand (Inr db) rng (unat i) n = Inr node \<and>
      Start (memberEnv B E pubs privs i) (n_consensus node) = Inr c \<and> launched (memberEnv B E pubs privs i) (replicaIds pubs) b h i c"
    using Q(2) by blast
  then obtain node g where g: "\<forall>i \<in> set Q. createExampleNode B E rngRead rand (Inr db) rng (unat i) n = Inr (node i) \<and>
      Start (memberEnv B E pubs privs i) (n_consensus (node i)) = Inr (g i) \<and>
      launched (memberEnv B E pubs privs i) (replicaIds pubs) b h i (g i)" by metis
  note net = members_synchronous [OF keys n Q]
  have "leaderOf (replicaIds pubs) (Header_View h + 1) \<in> set Q" using fit(1,2) unfolding view(1) by (cases vs) auto
  then have "synced (memberEnv B E pubs privs) (replicaIds pubs) Q (bls_good B pubs) h [] g"
    using synchronous.launched_synced [OF net, of b h g] b Q(2) g by blast
  then obtain g' where "locksteps (memberEnv B E pubs privs) (replicaIds pubs) Q 1 vs g = Inr g'"
    "\<forall>i \<in> set Q. length vs \<le> unat (Header_View (commit (g' i))) + 3"
    using synchronous.locksteps_commit [OF net, of h g vs] fit hashes by (auto simp: view simp flip: h_def)
  then show ?thesis using g by blast
qed

end

end
