(* ===== verification/ExampleSynchrony.thy ===== *)
theory ExampleSynchrony
  imports ExampleView ExampleProgram Rollout
begin

text \<open>
  The four replicas of the example in lock step: each of them has imported the genesis block
  into an empty store and started, and they go through the views 3 to 6 with empty data. The
  votes of a view reach the next leader in a different order each time.
\<close>

definition exViews :: "(NodeData \<times> uint64 list) list" where
  "exViews = [(exData, [1, 2, 3]), (exData, [0, 3, 2]), (exData, [3, 1, 0]), (exData, [2, 0, 1])]"

lemma ex_keys:
  fixes i :: uint64
  assumes "i \<in> set [0, 1, 2, 3]"
  shows "running (nodeEnv symBLS (memEnv copy32) (ucast i + 1) exConf) \<and> blake2s (memEnv copy32) = copy32 \<and>
    i < of_nat (length (conf_Replicas exConf)) \<and> conf_Replicas exConf ! unat i = bls_PublicKeyFromSecretKey symBLS (ucast i + 1)"
proof -
  have "running (nodeEnv symBLS (memEnv copy32) (ucast i + 1) exConf)" using exEnvOf_running [of i] by (simp add: exEnvOf_def)
  then show ?thesis using assms by (auto simp: exConf_def symBLS_def memEnv_def)
qed

interpretation exNet: synchronous exEnvOf "[0, 1, 2, 3]" "[0, 1, 2, 3]" copy32
  "NewBLS12381Verifier symBLS (majorityOf [0 :: uint64, 1, 2, 3]) (conf_Replicas exConf)" "bls_good symBLS (conf_Replicas exConf)"
proof -
  have "majorityOf [0 :: uint64, 1, 2, 3] \<le> length [0 :: uint64, 1, 2, 3]" "2 \<le> length [0 :: uint64, 1, 2, 3]"
    "length [0 :: uint64, 1, 2, 3] = length (conf_Replicas exConf)" "distinct [0 :: uint64, 1, 2, 3]"
    by (simp_all add: majorityOf_def exConf_def)
  note net = synchronous_bls [OF symBLS.bls_axioms ballI [OF ex_keys] this(3,4,1,2), folded exEnvOf_def]
  show "synchronous exEnvOf [0, 1, 2, 3] [0, 1, 2, 3] copy32
      (NewBLS12381Verifier symBLS (majorityOf [0 :: uint64, 1, 2, 3]) (conf_Replicas exConf)) (bls_good symBLS (conf_Replicas exConf))"
    by (rule net)
qed

lemma signer_store:
  "blake2s (E\<lparr>c_signer := f\<rparr>) = blake2s E" "SaveHeader (E\<lparr>c_signer := f\<rparr>) s h = SaveHeader E s h"
  "SaveData (E\<lparr>c_signer := f\<rparr>) s k d = SaveData E s k d" "SaveCertificate (E\<lparr>c_signer := f\<rparr>) s c = SaveCertificate E s c"
  "SaveView (E\<lparr>c_signer := f\<rparr>) s v = SaveView E s v" "SaveVoted (E\<lparr>c_signer := f\<rparr>) s v = SaveVoted E s v"
  "SetTag (E\<lparr>c_signer := f\<rparr>) s t k = SetTag E s t k"
  by (simp_all add: SaveHeader_def SaveCertificate_def SaveData_def SaveView_def SaveVoted_def SetTag_def dbPut_def)

lemma ImportGenesis_signer: "ImportGenesis (E\<lparr>c_signer := f\<rparr>) s b = ImportGenesis E s b"
  unfolding ImportGenesis_def signer_store GetHeader_signer by (rule refl)

lemma ex_genesisBlock: "genesisBlock (exEnvOf i) exGenesis exGenesisHeader"
  using ex_sizes exAgg_verifies
  by (simp add: genesisBlock_def exGenesis_def certifiedBy_def exEnvOf_signer) (simp add: exCert_def exHash_def)

lemma ex_launched: "\<exists>c. launched (exEnvOf i) [0, 1, 2, 3] exGenesis exGenesisHeader i c"
proof -
  have E: "replica (exEnvOf i)" using exEnvOf_running by (simp add: running_def)
  have store: "ImportGenesis (exEnvOf i) memDB exGenesis = Inr (Inr exStore)"
    using ex_import by (simp add: exEnvOf_signer ImportGenesis_signer)
  have empty: "GetHeader (exEnvOf i) memDB k = Inl (DBErr ''leveldb: not found'')" for k
    using ex_empty by (simp add: exEnvOf_signer)
  then have intact: "intact (exEnvOf i) memDB" by (simp add: intact_def)
  obtain cert where b: "Block_Header exGenesis = Some exGenesisHeader" "Block_Cert exGenesis = Some cert"
    "Header_Size exGenesisHeader < 2 ^ 63" "Certificate_Size cert < 2 ^ 63" "Certificate_wf cert"
    "Certificate_Block cert = hashOf (exEnvOf i) exGenesisHeader"
    using ex_genesisBlock [of i] by (auto simp: genesisBlock_def)
  obtain c where c: "newConsensus (exEnvOf i) exStore i [0, 1, 2, 3] = Inr c" "replicaInv (exEnvOf i) c"
    using replica.ImportGenesis_start [OF E store b(1,2) empty b(3-6) intact] by blast
  have "sane c" using replicaInv_sane [OF c(2)] replica.newConsensus_fields(9) [OF E c(1)] by simp
  then obtain c' where "Start (exEnvOf i) c = Inr c'" using running.runs_Start [OF exEnvOf_running] by (auto simp: runs_def)
  then show ?thesis using store empty intact c(1) unfolding launched_def by blast
qed

lemma exData_child: "nextHeader copy32 exData h = exChild h"
  by (simp add: nextHeader_def exData_def exChild_def Header_zero_def)

lemma ex_views_chain: "chainOf copy32 (map fst exViews) [exGenesisHeader] = [exSixth, exFifth, exFourth, exThird, exGenesisHeader]"
  by (simp add: exViews_def exData_child exSixth_def exFifth_def exFourth_def exThird_def)

lemma exSixth_view [simp]: "Header_View exSixth = 6"
  by (simp add: exSixth_def exChild_def)

lemma ex_views_hashes: "distinct (map (Header_Hash copy32) [exSixth, exFifth, exFourth, exThird, exGenesisHeader])"
proof -
  have third: "Header_Hash copy32 exThird ! 1 = 3" "Header_Hash copy32 exFourth ! 1 = 4" "Header_Hash copy32 exFifth ! 1 = 5"
    "Header_Hash copy32 exSixth ! 1 = 6"
    using exChild_hash [of exGenesisHeader] exChild_hash [of exThird] exChild_hash [of exFourth] exChild_hash [of exFifth]
    by (simp_all flip: exThird_def exFourth_def exFifth_def exSixth_def)
  have "varint 2 = [2]" by (simp add: varint.simps)
  then have "Header_Hash copy32 exGenesisHeader ! 1 = 2"
    by (simp add: Header_Hash_def copy32_def nth_append Header_MarshalToSizedBuffer_def putVarint_def exGenesisHeader_def Header_zero_def)
  then show ?thesis using third by auto
qed

lemma ex_fitting: "fitting [0, 1, 2, 3] [0, 1, 2, 3] (Header_View exGenesisHeader + 1) exViews"
  by (auto simp: exViews_def exGenesisHeader_def leaderOf_def exData_def)

section \<open>The example deployment\<close>

text \<open>The first four views of the four nodes made of one seed; here too no vote is lost.\<close>

definition exFirstViews :: "(NodeData \<times> uint64 list) list" where
  "exFirstViews = [(exData, [0, 1, 3]), (exData, [2, 1, 0]), (exData, [1, 2, 3]), (exData, [0, 2, 3])]"

definition exRoot :: Header where
  "exRoot = Header_zero\<lparr>Header_DataRoot := replicate 32 5\<rparr>"

lemma ex_first_fitting: "fitting [0, 1, 2, 3] [0, 1, 2, 3] 1 exFirstViews"
  by (auto simp: exFirstViews_def leaderOf_def exData_def)

lemma ex_first_hashes: "distinct (map (Header_Hash copy32) (chainOf copy32 (map fst exFirstViews) [exRoot]))"
proof -
  have views: "Header_View (exChild h) = Header_View h + 1" for h by (simp add: exChild_def)
  have root: "Header_View exRoot = 0" by (simp add: exRoot_def Header_zero_def)
  have "Header_Hash copy32 (exChild exRoot) ! 1 = 1" "Header_Hash copy32 (exChild (exChild exRoot)) ! 1 = 2"
    "Header_Hash copy32 (exChild (exChild (exChild exRoot))) ! 1 = 3"
    "Header_Hash copy32 (exChild (exChild (exChild (exChild exRoot)))) ! 1 = 4"
    using exChild_hash [of exRoot] exChild_hash [of "exChild exRoot"] exChild_hash [of "exChild (exChild exRoot)"]
      exChild_hash [of "exChild (exChild (exChild exRoot))"] by (simp_all add: views root)
  moreover have "varint 32 = [32]" by (simp add: varint.simps)
  then have "Header_Hash copy32 exRoot ! 1 = 32"
    by (simp add: Header_Hash_def copy32_def nth_append Header_MarshalToSizedBuffer_def putBytes_def putLen_def sizeLen_def putVarint_def exRoot_def Header_zero_def)
  ultimately show ?thesis by (auto simp: exFirstViews_def exData_child)
qed

end
