(* ===== verification/Connections.thy ===== *)
theory Connections
  imports Deployment
begin

text \<open>
  How two \<^verbatim>\<open>hotstuff-node\<close> processes set up a connection (\<^verbatim>\<open>tcpNode.go\<close>): each writes its
  index as a decimal string in a frame, reads the other's, and uses it to choose the channel
  whose messages go out on the connection. Strings are their bytes. A failing write of the
  first frame is the argument \<open>sendErr\<close>; the bytes that arrive before the connection ends are
  the argument \<open>reader\<close>.
\<close>

section \<open>Decimal numbers\<close>

text \<open>\<^verbatim>\<open>strconv.Itoa\<close> and \<^verbatim>\<open>strconv.Atoi\<close>: an optional sign, one digit or more, and a value in the range of an \<^verbatim>\<open>int\<close>.\<close>

fun decimal :: "nat \<Rightarrow> bytes" where
  "decimal n = (if n < 10 then [48 + of_nat n] else decimal (n div 10) @ [48 + of_nat (n mod 10)])"

declare decimal.simps [simp del]

definition Itoa :: "int \<Rightarrow> bytes" where
  "Itoa i = (if i < 0 then 45 # decimal (nat (- i)) else decimal (nat i))"

fun digits :: "bytes \<Rightarrow> nat \<Rightarrow> nat option" where
  "digits [] acc = Some acc"
| "digits (b # bs) acc = (if 48 \<le> b \<and> b \<le> 57 then digits bs (10 * acc + unat (b - 48)) else None)"

definition signed :: "bytes \<Rightarrow> bool \<times> bytes" where
  "signed s = (case s of [] \<Rightarrow> (False, []) | b # bs \<Rightarrow> if b = 45 then (True, bs) else if b = 43 then (False, bs) else (False, s))"

definition Atoi :: "bytes \<Rightarrow> int option" where
  "Atoi s =
     (case signed s of (neg, ds) \<Rightarrow>
        if ds = [] then None
        else case digits ds 0 of
          None \<Rightarrow> None
        | Some n \<Rightarrow>
            let v = (if neg then - int n else int n)
            in if - (2 ^ 63) \<le> v \<and> v < 2 ^ 63 then Some v else None)"

lemma decimal_digit:
  assumes "d < 10"
  shows "48 \<le> (48 + of_nat d :: byte) \<and> (48 + of_nat d :: byte) \<le> 57 \<and> unat ((48 + of_nat d :: byte) - 48) = d"
proof -
  have "d < 2 ^ 8" using assms by simp
  then have d: "unat (of_nat d :: byte) = d" by (simp add: unat_of_nat)
  then have "unat (48 + of_nat d :: byte) = 48 + d" using assms by (simp add: unat_word_ariths(1))
  with d assms show ?thesis by (simp add: word_le_nat_alt)
qed

lemma digits_append: "digits (xs @ ys) acc = (case digits xs acc of None \<Rightarrow> None | Some n \<Rightarrow> digits ys n)"
  by (induction xs arbitrary: acc) simp_all

lemma digits_decimal: "digits (decimal n) 0 = Some n"
proof (induction n rule: decimal.induct)
  case (1 n)
  show ?case
  proof (cases "n < 10")
    case True
    then show ?thesis using decimal_digit [of n] by (simp add: decimal.simps [of n])
  next
    case False
    then show ?thesis using 1 decimal_digit [of "n mod 10"] by (simp add: decimal.simps [of n] digits_append)
  qed
qed

lemma decimal_head: "\<exists>b bs. decimal n = b # bs \<and> 48 \<le> b \<and> b \<le> 57"
proof (induction n rule: decimal.induct)
  case (1 n)
  then show ?case using decimal_digit [of n] by (cases "n < 10") (auto simp: decimal.simps [of n])
qed

lemma decimal_length: "n < 10 ^ k \<Longrightarrow> 0 < k \<Longrightarrow> length (decimal n) \<le> k"
proof (induction n arbitrary: k rule: decimal.induct)
  case (1 n)
  show ?case
  proof (cases "n < 10")
    case True
    then show ?thesis using 1 by (simp add: decimal.simps [of n])
  next
    case False
    define j where "j = k - 1"
    have "k \<noteq> 1" using False "1.prems"(1) by auto
    then have k: "k = Suc j" "0 < j" using "1.prems"(2) by (auto simp: j_def)
    then have "n div 10 < 10 ^ j" using "1.prems"(1) by auto
    then show ?thesis using "1.IH" [OF False] False k by (simp add: decimal.simps [of n])
  qed
qed

lemma Atoi_Itoa: "- (2 ^ 63) \<le> i \<Longrightarrow> i < 2 ^ 63 \<Longrightarrow> Atoi (Itoa i) = Some i"
proof -
  assume "- (2 ^ 63) \<le> i" "i < 2 ^ 63"
  moreover have "signed (Itoa i) = (i < 0, decimal (nat \<bar>i\<bar>))"
    using decimal_head [of "nat i"] by (auto simp: Itoa_def signed_def)
  moreover have "decimal (nat \<bar>i\<bar>) \<noteq> []" using decimal_head [of "nat \<bar>i\<bar>"] by auto
  ultimately show ?thesis by (simp add: Atoi_def digits_decimal)
qed

section \<open>The first exchange\<close>

definition toByteArray :: "bytes \<Rightarrow> bytes" where
  "toByteArray msg = beBytes BYTES_ARRAY_PREFIX_LENGTH (of_nat (length msg) :: uint32) @ msg"

definition toString :: "bytes \<Rightarrow> bytes" where
  "toString msg_byte_arr = msg_byte_arr"

text \<open>The bytes written, the outcome, and what is left to read.\<close>

definition exchangeIDs :: "int \<Rightarrow> string option \<Rightarrow> bytes \<Rightarrow> (bytes \<times> (string + int) \<times> bytes) result" where
  "exchangeIDs myID sendErr reader =
     (let initMsg = toByteArray (Itoa myID)
      in case sendErr of
        Some err \<Rightarrow> Inr ([], Inl err, reader)
      | None \<Rightarrow>
          rbind (getMessageFromReader reader) (\<lambda>(r, reader).
          case r of
            Inl readErr \<Rightarrow> Inr (initMsg, Inl readErr, reader)
          | Inr msg_bytes \<Rightarrow>
              case Atoi (toString msg_bytes) of
                None \<Rightarrow> Inr (initMsg, Inl ''invalid syntax or value out of range'', reader)
              | Some yourID \<Rightarrow> Inr (initMsg, Inr yourID, reader)))"

lemma toByteArray_read:
  assumes "length msg < 2 ^ 32"
  shows "getMessageFromReader (toByteArray msg @ rest) = Inr (Inr msg, rest)"
  using getMessageFromReader_frame [OF assms]
  by (simp add: toByteArray_def augmentByteArrayWithLength_def)

lemma exchangeIDs_read:
  assumes "- (2 ^ 63) \<le> i" and "i < 2 ^ 63"
  shows "exchangeIDs j None (toByteArray (Itoa i) @ rest) = Inr (toByteArray (Itoa j), Inr i, rest)"
proof -
  have "nat \<bar>i\<bar> < 10 ^ 19" using assms by simp
  then have "length (decimal (nat \<bar>i\<bar>)) \<le> 19" by (rule decimal_length) simp
  then have "length (Itoa i) < 2 ^ 32" by (auto simp: Itoa_def)
  then show ?thesis by (simp add: exchangeIDs_def toByteArray_read toString_def Atoi_Itoa [OF assms])
qed

section \<open>Left-overs\<close>

text \<open>
  Two functions the program does not call: a reply in one frame, of which a failing write is
  only printed, and the example that prints a frame and the length its prefix gives.
\<close>

definition echoMessage :: "bytes \<Rightarrow> bytes" where
  "echoMessage msg = toByteArray (map (of_nat \<circ> of_char) ''Server reply: '' @ msg)"

definition example_run :: "(bytes \<times> nat) result" where
  "example_run =
     (let bytes_array = toByteArray (map (of_nat \<circ> of_char) ''falcon and many eagles and many eagles and many eagles'')
      in rbind (getMsgLength bytes_array) (\<lambda>n. Inr (bytes_array, n)))"

lemma getMsgLength_toByteArray: "length msg < 2 ^ 32 \<Longrightarrow> getMsgLength (toByteArray msg) = Inr (length msg)"
  using beWord_frame [of msg] by (simp add: toByteArray_def getMsgLength_def BYTES_ARRAY_PREFIX_LENGTH_def)

lemma example_run_prints: "\<exists>b. example_run = Inr (b, 54)"
  by (simp add: example_run_def getMsgLength_toByteArray)

lemma echoMessage_read:
  "length msg < 2 ^ 31 \<Longrightarrow> getMessageFromReader (echoMessage msg @ rest) =
    Inr (Inr (map (of_nat \<circ> of_char) ''Server reply: '' @ msg), rest)"
  unfolding echoMessage_def by (rule toByteArray_read) simp

end
