(* ===== verification/Decoding.thy ===== *)
theory Decoding
  imports Deployment Streams
begin

text \<open>
  What the decoder guarantees of a message read from the network, whatever the bytes and
  even when it stops with an error that the caller ignores: the payload of the \<^verbatim>\<open>oneof\<close> is
  never nil, and no header is longer than the bytes it was read from. Such a message is an
  admissible input of the consensus module.
\<close>

section \<open>Invariants of the decoding loop\<close>

text \<open>
  An invariant may mention the number of bytes that are left; it has to survive reading
  without storing, and every field handler.
\<close>

lemma unmarshalLoop_inv:
  assumes shrink: "\<And>m j k. I m k \<Longrightarrow> j \<le> k \<Longrightarrow> I m j"
  shows "(\<And>n nm fd wt m r m' r'. fs n = Some (nm, fd) \<Longrightarrow> fieldStep l nm fd wt m r = Inr (m', r') \<Longrightarrow>
      I m (length r) \<Longrightarrow> I m' (length r')) \<Longrightarrow>
    I m (length rest) \<Longrightarrow> I (fst (unmarshalLoop fs l m rest)) 0"
proof (induction fs l m rest rule: unmarshalLoop.induct)
  case (1 fs l m rest)
  note unfold = unmarshalLoop.simps [of fs l m rest]
  show ?case
  proof (cases "fst (unmarshalLoop fs l m rest) = m")
    case True
    then show ?thesis using shrink [OF "1.prems"(2)] by simp
  next
    case False
    then obtain wire r where r: "rest \<noteq> []" "readVarint rest = Inr (wire, r)" "wireType wire \<noteq> 4" "\<not> fieldNum wire \<le> 0"
      by (auto simp: unfold split: if_splits sum.splits)
    show ?thesis
    proof (cases "fs (fieldNum wire)")
      case None
      with False r obtain skippy where skip: "skipTypes rest = Inr skippy"
        "\<not> 2 ^ 63 \<le> l - length rest + skippy" "\<not> length rest < skippy"
        by (auto simp: unfold split: if_splits sum.splits)
      have "I m (length (drop skippy rest))" using shrink [OF "1.prems"(2)] by simp
      then show ?thesis using "1.IH"(1) [OF r(1,2) refl r(3,4) None skip "1.prems"(1)] None skip r by (simp add: unfold)
    next
      case (Some f)
      obtain nm fd where f: "f = (nm, fd)" by force
      with False r Some obtain m' r' where step: "fieldStep l nm fd (wireType wire) m r = Inr (m', r')"
        by (auto simp: unfold split: if_splits sum.splits)
      have "length r \<le> length rest" using decodeVarint_consumes [OF r(2)] by simp
      then have "I m' (length r')" using "1.prems"(1) [OF Some [unfolded f] step] shrink [OF "1.prems"(2)] by blast
      then show ?thesis using "1.IH"(2) [OF r(1,2) refl r(3,4) Some f [symmetric] step refl "1.prems"(1)] Some f step r by (simp add: unfold)
    qed
  qed
qed

text \<open>
  A field handler that pays for what it stores with the bytes it reads: \<open>cost\<close> grows by at
  most the length of the slice.
\<close>

fun pays :: "('m \<Rightarrow> nat) \<Rightarrow> 'm field \<Rightarrow> bool" where
  "pays cost (VarintField f) = (\<forall>v m. cost (f v m) \<le> cost m)"
| "pays cost (BytesField f) = (\<forall>b m. cost (f b m) \<le> cost m + length b)"
| "pays cost (MsgField f) = (\<forall>b m m'. f b m = Inr m' \<longrightarrow> cost m' \<le> cost m + length b)"
| "pays cost (PackedField f) = (\<forall>v m. cost (f v m) \<le> cost m)"

definition frugal :: "('m \<Rightarrow> nat) \<Rightarrow> 'm fields \<Rightarrow> bool" where
  "frugal cost fs \<longleftrightarrow> (\<forall>n nm fd. fs n = Some (nm, fd) \<longrightarrow> pays cost fd)"

lemma readDelimited_length: "readDelimited l rest = Inr (b, r) \<Longrightarrow> length b + length r \<le> length rest"
  using readLen_consumes [of l rest] by (fastforce simp: readDelimited_def rbind_Inr_iff)

lemma unpack_pays:
  "unpack f stop m rest = Inr (m', r) \<Longrightarrow> \<forall>v m. cost (f v m) \<le> cost m \<Longrightarrow> (cost m' :: nat) \<le> cost m"
proof (induction f stop m rest rule: unpack.induct)
  case (1 f stop m rest)
  show ?case
  proof (cases "length rest \<le> stop")
    case True
    with "1.prems"(1) show ?thesis by (simp add: unpack.simps)
  next
    case False
    with "1.prems"(1) obtain v r1 where r1: "readVarint rest = Inr (v, r1)" and rec: "unpack f stop (f v m) r1 = Inr (m', r)"
      by (subst (asm) unpack.simps) (auto split: sum.splits)
    then have "cost m' \<le> cost (f v m)" using "1.IH" [OF False r1 refl rec "1.prems"(2)] by simp
    also have "\<dots> \<le> cost m" using "1.prems"(2) by simp
    finally show ?thesis .
  qed
qed

lemma fieldStep_pays:
  assumes "pays cost fd" and "fieldStep l nm fd wt m rest = Inr (m', r)"
  shows "cost m' + length r \<le> cost m + length rest"
proof (cases fd)
  case (VarintField f)
  then show ?thesis using assms by (fastforce simp: rbind_Inr_iff split: if_splits dest: decodeVarint_consumes intro: add_mono)
next
  case (BytesField f)
  then obtain b where "readDelimited l rest = Inr (b, r)" "m' = f b m" using assms(2) by (auto simp: rbind_Inr_iff split: if_splits)
  moreover have "cost (f b m) \<le> cost m + length b" using assms(1) BytesField by simp
  ultimately show ?thesis using readDelimited_length by fastforce
next
  case (MsgField f)
  then obtain b where "readDelimited l rest = Inr (b, r)" "f b m = Inr m'" using assms(2) by (auto simp: rbind_Inr_iff split: if_splits)
  moreover from this have "cost m' \<le> cost m + length b" using assms(1) MsgField by simp
  ultimately show ?thesis using readDelimited_length by fastforce
next
  case (PackedField f)
  have "length r \<le> length rest" using fieldStep_consumes [OF assms(2)] by simp
  moreover have "cost m' \<le> cost m"
    using assms PackedField unpack_pays [where f = f and cost = cost] by (auto simp: rbind_Inr_iff split: if_splits)
  ultimately show ?thesis by simp
qed

lemma unmarshalLoop_pays:
  assumes "frugal cost fs"
  shows "cost (fst (unmarshalLoop fs l m rest)) \<le> cost m + length rest"
proof -
  have "cost (fst (unmarshalLoop fs l m rest)) + 0 \<le> cost m + length rest"
    by (rule unmarshalLoop_inv [where I = "\<lambda>x k. cost x + k \<le> cost m + length rest"])
      (use assms fieldStep_pays in \<open>force simp: frugal_def\<close>)+
  then show ?thesis by simp
qed

lemma unmarshal_pays: "frugal cost fs \<Longrightarrow> unmarshal fs m b = Inr m' \<Longrightarrow> cost m' \<le> cost m + length b"
  using unmarshalLoop_pays [of cost fs "length b" m b]
  by (auto simp: unmarshal_def split: prod.splits option.splits)

text \<open>The same for an embedded message behind a pointer.\<close>

definition ptrCost :: "('m \<Rightarrow> nat) \<Rightarrow> 'm option \<Rightarrow> nat" where
  "ptrCost cost p = (case p of None \<Rightarrow> 0 | Some x \<Rightarrow> cost x)"

lemma intoPtr_pays:
  assumes "frugal cost fs" and "cost zero = 0" and "intoPtr fs zero p b = Inr q"
  shows "ptrCost cost q \<le> ptrCost cost p + length b"
  using unmarshal_pays [OF assms(1)] assms(2,3)
  by (fastforce simp: intoPtr_def ptrCost_def rbind_Inr_iff split: option.splits)

section \<open>Headers in decoded messages\<close>

definition headerCost :: "Header \<Rightarrow> nat" where
  "headerCost h = length (Header_Parent h) + length (Header_DataRoot h) + length (Header_StateRoot h)"

definition proposalCost :: "Proposal \<Rightarrow> nat" where
  "proposalCost p = ptrCost headerCost (Proposal_Header p)"

definition blockCost :: "Block \<Rightarrow> nat" where
  "blockCost b = ptrCost headerCost (Block_Header b)"

definition syncCost :: "Sync \<Rightarrow> nat" where
  "syncCost s = sum_list (map blockCost (Sync_Blocks s))"

lemma frugal_header: "frugal headerCost Header_fields"
  by (auto simp: frugal_def Header_fields_def headerCost_def split: if_splits)

lemma headerCost_small: "headerCost h < 2 ^ 32 \<Longrightarrow> Header_Size h < 2 ^ 63"
  using size_bounds(1) [of "Header_View h"] size_bounds(1) [of "Header_ParentView h"]
    size_bounds(3) [of "Header_Parent h"] size_bounds(3) [of "Header_DataRoot h"] size_bounds(3) [of "Header_StateRoot h"]
  by (simp add: Header_Size_def headerCost_def)

lemmas header_pays = intoPtr_pays [OF frugal_header, of Header_zero]

lemma frugal_proposal: "frugal proposalCost Proposal_fields"
  using header_pays
  by (auto simp: frugal_def Proposal_fields_def proposalCost_def rbind_Inr_iff headerCost_def Header_zero_def split: if_splits)

lemma frugal_block: "frugal blockCost Block_fields"
  using header_pays
  by (auto simp: frugal_def Block_fields_def blockCost_def rbind_Inr_iff headerCost_def Header_zero_def split: if_splits)

lemma frugal_sync: "frugal syncCost Sync_fields"
  using unmarshal_pays [OF frugal_block, of Block_zero]
  by (auto simp: frugal_def Sync_fields_def syncCost_def rbind_Inr_iff blockCost_def Block_zero_def ptrCost_def split: if_splits)

fun messageTypeCost :: "Message_Type \<Rightarrow> nat" where
  "messageTypeCost (Message_Proposal p) = ptrCost proposalCost p"
| "messageTypeCost (Message_Sync p) = ptrCost syncCost p"
| "messageTypeCost _ = 0"

definition messageCost :: "Message \<Rightarrow> nat" where
  "messageCost m = ptrCost messageTypeCost (Message_Type m)"

lemma frugal_message: "frugal messageCost Message_fields"
  using unmarshal_pays [OF frugal_proposal, of Proposal_zero] unmarshal_pays [OF frugal_sync, of Sync_zero]
  by (fastforce simp: frugal_def Message_fields_def messageCost_def rbind_Inr_iff ptrCost_def
      proposalCost_def syncCost_def Proposal_zero_def Sync_zero_def split: if_splits)

section \<open>The payload is there\<close>

fun payload :: "Message_Type \<Rightarrow> bool" where
  "payload (Message_Proposal p) = (p \<noteq> None)"
| "payload (Message_Newview p) = (p \<noteq> None)"
| "payload (Message_Vote p) = (p \<noteq> None)"
| "payload (Message_Sync p) = (p \<noteq> None)"

definition typed :: "Message \<Rightarrow> bool" where
  "typed m \<longleftrightarrow> pred_option payload (Message_Type m)"

lemma decoded_typed: "typed m \<Longrightarrow> typed (fst (unmarshalLoop Message_fields l m b))"
  by (rule unmarshalLoop_inv [where I = "\<lambda>m _. typed m"])
    (auto simp: Message_fields_def typed_def rbind_Inr_iff split: if_splits)

text \<open>What a frame carries is shorter than \<open>2\<^sup>3\<^sup>2\<close> bytes.\<close>

lemma decoded_small:
  assumes "length b < 2 ^ 32"
  shows "smallMessage (fst (Message_Unmarshal Message_zero b))"
proof -
  let ?m = "fst (Message_Unmarshal Message_zero b)"
  have cost: "messageCost ?m < 2 ^ 32"
    using unmarshalLoop_pays [OF frugal_message, of "length b" Message_zero b] assms
    by (simp add: Message_Unmarshal_def messageCost_def Message_zero_def ptrCost_def)
  have small: "Header_Size h < 2 ^ 63" if "headerCost h < 2 ^ 32" for h
    using that by (intro headerCost_small)
  have "headerCost h \<le> syncCost s" if "x \<in> set (Sync_Blocks s)" "Block_Header x = Some h" for x s h
  proof -
    have "blockCost x \<le> sum_list (map blockCost (Sync_Blocks s))" using that(1) by (intro member_le_sum_list) auto
    then show ?thesis using that(2) by (simp add: syncCost_def blockCost_def ptrCost_def)
  qed
  then have "smallBlock x" if "x \<in> set (Sync_Blocks s)" "syncCost s < 2 ^ 32" for x s
    using that small by (fastforce simp: smallBlock_def)
  then show ?thesis
    using cost small
    by (auto simp: smallMessage_def smallProposal_def messageCost_def ptrCost_def proposalCost_def
        list_all_iff split: option.splits Message_Type.splits)
qed

text \<open>Everything the reading loop of a connection passes on.\<close>

lemma getMessageFromReader_small: "getMessageFromReader reader = Inr (Inr b, rest) \<Longrightarrow> length b < 2 ^ 32"
proof -
  assume "getMessageFromReader reader = Inr (Inr b, rest)"
  then obtain x :: uint32 where "length b = unat x"
    by (auto simp: getMessageFromReader_def readFull_def getMsgLength_def split: if_splits elim!: rbind_InrE)
  then show ?thesis using unsigned_less [of x] by simp
qed

lemma received_admissible:
  "listenForMessages reader = Inr (msgs, err) \<Longrightarrow> list_all (\<lambda>m. typed m \<and> smallEvent (Received m)) msgs"
proof (induction reader arbitrary: msgs err rule: listenForMessages.induct)
  case (1 reader)
  obtain r rest where r: "getMessageFromReader reader = Inr (r, rest)" using getMessageFromReader_total [of reader] by auto
  show ?case
  proof (cases r)
    case (Inl e)
    then show ?thesis using "1.prems" r by (simp add: listenForMessages.simps [of reader])
  next
    case (Inr b)
    with "1.prems" r obtain ms where rec: "listenForMessages rest = Inr (ms, err)"
      and msgs: "msgs = fst (Message_Unmarshal Message_zero b) # ms"
      by (auto simp: listenForMessages.simps [of reader] elim!: rbind_InrE)
    have "length b < 2 ^ 32" using getMessageFromReader_small r Inr by blast
    then have "smallMessage (fst (Message_Unmarshal Message_zero b))" by (rule decoded_small)
    moreover have "typed (fst (Message_Unmarshal Message_zero b))"
      unfolding Message_Unmarshal_def by (rule decoded_typed) (simp add: typed_def Message_zero_def)
    ultimately show ?thesis using "1.IH" [OF r _ _ rec] Inr msgs by simp
  qed
qed

end
