(* ===== verification/Sessions.thy ===== *)
theory Sessions
  imports Connections Decoding Application
begin

text \<open>
  A connection of \<^verbatim>\<open>hotstuff-node/tcpNode.go\<close> while it lasts. After the exchange of indices
  \<^verbatim>\<open>handleConnection\<close> starts two goroutines, \<^verbatim>\<open>listenForMessages\<close> and \<^verbatim>\<open>sendMessages\<close>; whichever
  returns cancels the context both of them watch, and when both have returned the connection
  is closed. They run in any order: a session is a state machine, and what it exchanges with
  the rest of the program are the labels of its steps. \<open>s_in\<close> are the bytes that will still
  arrive before the connection ends.
\<close>

section \<open>The two goroutines\<close>

text \<open>
  The listener is at the head of its loop, where it looks at the context, in a read, on its
  way to put a message on \<^verbatim>\<open>inMsgsChan\<close>, or has returned.
\<close>

datatype listener = Head | Reading | Holding Message | Stopped

record Session =
  s_in :: bytes
  s_out :: bytes
  s_chan :: "Message list"
  s_listener :: listener
  s_sending :: bool
  s_cancelled :: bool
  s_closed :: bool

datatype sessionEvent =
    Internal
  | Passed Message
  | Queued Message
  | Took Message
  | Lost Message

inductive sessionStep :: "Session \<Rightarrow> sessionEvent \<Rightarrow> Session \<Rightarrow> bool" where
  stop_listening: "s_listener s = Head \<Longrightarrow> s_cancelled s \<Longrightarrow> sessionStep s Internal (s\<lparr>s_listener := Stopped\<rparr>)"
| start_reading: "s_listener s = Head \<Longrightarrow> \<not> s_cancelled s \<Longrightarrow> sessionStep s Internal (s\<lparr>s_listener := Reading\<rparr>)"
| read: "s_listener s = Reading \<Longrightarrow> getMessageFromReader (s_in s) = Inr (Inr msg_bytes, reader) \<Longrightarrow>
    sessionStep s Internal (s\<lparr>s_in := reader, s_listener := Holding (fst (Message_Unmarshal Message_zero msg_bytes))\<rparr>)"
| read_fail: "s_listener s = Reading \<Longrightarrow> getMessageFromReader (s_in s) = Inr (Inl readErr, reader) \<Longrightarrow>
    sessionStep s Internal (s\<lparr>s_in := reader, s_listener := Stopped, s_cancelled := True\<rparr>)"
| pass: "s_listener s = Holding m \<Longrightarrow> sessionStep s (Passed m) (s\<lparr>s_listener := Head\<rparr>)"
| queue: "length (s_chan s) < MSGS_CAPACITY \<Longrightarrow> sessionStep s (Queued m) (s\<lparr>s_chan := s_chan s @ [m]\<rparr>)"
| send: "s_sending s \<Longrightarrow> s_chan s = m # ms \<Longrightarrow>
    sessionStep s (Took m) (s\<lparr>s_chan := ms, s_out := s_out s @ augmentByteArrayWithLength (Message_Marshal m)\<rparr>)"
| send_fail: "s_sending s \<Longrightarrow> s_chan s = m # ms \<Longrightarrow> k < length (augmentByteArrayWithLength (Message_Marshal m)) \<Longrightarrow>
    sessionStep s (Lost m) (s\<lparr>s_chan := ms, s_out := s_out s @ take k (augmentByteArrayWithLength (Message_Marshal m)),
      s_sending := False, s_cancelled := True\<rparr>)"
| stop_sending: "s_sending s \<Longrightarrow> s_cancelled s \<Longrightarrow> sessionStep s Internal (s\<lparr>s_sending := False\<rparr>)"
| close: "s_listener s = Stopped \<Longrightarrow> \<not> s_sending s \<Longrightarrow> \<not> s_closed s \<Longrightarrow> sessionStep s Internal (s\<lparr>s_closed := True\<rparr>)"

inductive sessionRun :: "Session \<Rightarrow> sessionEvent list \<Rightarrow> Session \<Rightarrow> bool" where
  opened: "sessionRun s [] s"
| stepped: "sessionRun s tr t \<Longrightarrow> sessionStep t e u \<Longrightarrow> sessionRun s (tr @ [e]) u"

definition session :: "bytes \<Rightarrow> bytes \<Rightarrow> Message list \<Rightarrow> Session" where
  "session written reader ch = \<lparr>s_in = reader, s_out = written, s_chan = ch, s_listener = Head, s_sending = True,
     s_cancelled = False, s_closed = False\<rparr>"

text \<open>
  \<^verbatim>\<open>handleConnection\<close> up to the two goroutines: the peer's index and the session, or nothing
  when the exchange fails and the connection is closed.
\<close>

definition handleConnection :: "int \<Rightarrow> (nat \<Rightarrow> Message list) \<Rightarrow> string option \<Rightarrow> bytes \<Rightarrow> (int \<times> Session) option result" where
  "handleConnection idx arrayOfChannels sendErr reader =
     rbind (exchangeIDs idx sendErr reader) (\<lambda>(written, r, reader).
     case r of
       Inl initError \<Rightarrow> Inr None
     | Inr yourID \<Rightarrow>
         if yourID < 0 \<or> int NUMBER_OF_NODES \<le> yourID then Inl IndexOutOfRange
         else Inr (Some (yourID, session written reader (arrayOfChannels (nat yourID)))))"

section \<open>Accepting\<close>

text \<open>
  \<^verbatim>\<open>acceptConnections\<close> on the outcomes of \<^verbatim>\<open>Accept\<close>: the connections that get a handler. An
  error is printed, and the handler is started all the same with the nil connection that
  comes with it; its first write panics.
\<close>

fun acceptConnections :: "(string + 'c) list \<Rightarrow> 'c list result" where
  "acceptConnections [] = Inr []"
| "acceptConnections (Inl err_conn # accepts) = Inl NilDeref"
| "acceptConnections (Inr conn # accepts) = rbind (acceptConnections accepts) (\<lambda>cs. Inr (conn # cs))"

definition listenForConnections :: "string option \<Rightarrow> (string + 'c) list \<Rightarrow> 'c list result" where
  "listenForConnections listenErr accepts =
     (case listenErr of Some err \<Rightarrow> Inl (LogFatal err) | None \<Rightarrow> acceptConnections accepts)"

lemma acceptConnections_all: "acceptConnections accepts = Inr cs \<longleftrightarrow> accepts = map Inr cs"
proof (induction accepts arbitrary: cs rule: acceptConnections.induct)
  case (3 conn accepts)
  then show ?case by (cases cs) (auto simp: rbind_Inr_iff)
qed auto

lemma acceptConnections_error: "Inl err \<in> set accepts \<Longrightarrow> acceptConnections accepts = Inl NilDeref"
  by (induction accepts rule: acceptConnections.induct) auto

section \<open>What a session carries\<close>

fun passed :: "sessionEvent list \<Rightarrow> Message list" where
  "passed [] = []"
| "passed (Passed m # tr) = m # passed tr"
| "passed (_ # tr) = passed tr"

text \<open>The messages the sender took, the one it failed to write included.\<close>

fun taken :: "sessionEvent list \<Rightarrow> Message list" where
  "taken [] = []"
| "taken (Took m # tr) = m # taken tr"
| "taken (Lost m # tr) = m # taken tr"
| "taken (_ # tr) = taken tr"

fun queued :: "sessionEvent list \<Rightarrow> Message list" where
  "queued [] = []"
| "queued (Queued m # tr) = m # queued tr"
| "queued (_ # tr) = queued tr"

lemma passed_append [simp]: "passed (tr @ us) = passed tr @ passed us"
  by (induction tr rule: passed.induct) simp_all

lemma taken_append [simp]: "taken (tr @ us) = taken tr @ taken us"
  by (induction tr rule: taken.induct) simp_all

lemma queued_append [simp]: "queued (tr @ us) = queued tr @ queued us"
  by (induction tr rule: queued.induct) simp_all

lemma sendMessages_append [simp]: "sendMessages (ms @ ns) = sendMessages ms @ sendMessages ns"
  by (induction ms) simp_all

text \<open>What the listener holds, and what it would read to the end.\<close>

fun held :: "listener \<Rightarrow> Message list" where
  "held (Holding m) = [m]"
| "held _ = []"

definition unread :: "bytes \<Rightarrow> Message list" where
  "unread reader = (case listenForMessages reader of Inr (msgs, _) \<Rightarrow> msgs | Inl _ \<Rightarrow> [])"

lemma listenForMessages_total: "\<exists>msgs err. listenForMessages reader = Inr (msgs, err)"
proof (induction reader rule: listenForMessages.induct)
  case (1 reader)
  obtain r rest where r: "getMessageFromReader reader = Inr (r, rest)" using getMessageFromReader_total [of reader] by auto
  show ?case
  proof (cases r)
    case (Inr b)
    then obtain msgs err where "listenForMessages rest = Inr (msgs, err)" using 1 [OF r refl Inr] by blast
    then show ?thesis using r Inr by (simp add: listenForMessages.simps [of reader])
  qed (simp add: listenForMessages.simps [of reader] r)
qed

lemma unread_read:
  assumes "getMessageFromReader reader = Inr (Inr b, rest)"
  shows "unread reader = fst (Message_Unmarshal Message_zero b) # unread rest"
proof -
  obtain msgs err where "listenForMessages rest = Inr (msgs, err)" using listenForMessages_total by blast
  then show ?thesis using assms by (simp add: unread_def listenForMessages.simps [of reader])
qed

lemma unread_fail:
  assumes "getMessageFromReader reader = Inr (Inl err, rest)"
  shows "unread reader = []" and "rest = []"
  using assms
  by (auto simp: unread_def listenForMessages.simps [of reader] getMessageFromReader_def readFull_def
      split: if_splits elim!: rbind_InrE)

lemma unread_Nil [simp]: "unread [] = []"
  by (simp add: unread_def listenForMessages.simps [of "[]"] getMessageFromReader_def readFull_def BYTES_ARRAY_PREFIX_LENGTH_def)

lemma sessionStep_reads:
  assumes "sessionStep s e t"
  shows "passed [e] @ held (s_listener t) @ unread (s_in t) = held (s_listener s) @ unread (s_in s)"
  using assms
proof cases
  case (read b reader)
  then show ?thesis using unread_read [OF read(4)] by simp
next
  case (read_fail err reader)
  then show ?thesis using unread_fail [OF read_fail(4)] by simp
qed simp_all

lemma sessionStep_queue:
  assumes "sessionStep s e t"
  shows "s_chan s @ queued [e] = taken [e] @ s_chan t"
  using assms by cases simp_all

text \<open>
  Whether the sender runs, what is on the wire are the frames of what it took, up to a cut in
  the last one when a write failed; and it takes nothing once it has stopped.
\<close>

definition wire :: "Session \<Rightarrow> bytes \<Rightarrow> Message list \<Rightarrow> bool" where
  "wire s out ms \<longleftrightarrow> (if s_sending s then s_out s = out @ sendMessages ms else \<exists>k. s_out s = out @ take k (sendMessages ms))"

lemma sessionStep_wire:
  assumes "sessionStep s e t" and "wire s out ms"
  shows "wire t out (ms @ taken [e])"
  using assms(1)
proof cases
  case (send m rest)
  then show ?thesis using assms(2) by (simp add: wire_def)
next
  case (send_fail m rest k)
  let ?f = "augmentByteArrayWithLength (Message_Marshal m)"
  have "sendMessages ms @ take k ?f = take (length (sendMessages ms) + k) (sendMessages (ms @ [m]))" by simp
  then show ?thesis
    using send_fail assms(2) by (auto simp: wire_def intro!: exI [of _ "length (sendMessages ms) + k"])
next
  case stop_sending
  then show ?thesis using assms(2) by (auto simp: wire_def intro!: exI [of _ "length (sendMessages ms)"])
qed (use assms(2) in \<open>simp_all add: wire_def\<close>)

lemma sessionRun_carries:
  "sessionRun s tr t \<Longrightarrow> s_sending s \<Longrightarrow>
    passed tr @ held (s_listener t) @ unread (s_in t) = held (s_listener s) @ unread (s_in s) \<and>
    s_chan s @ queued tr = taken tr @ s_chan t \<and> wire t (s_out s) (taken tr)"
proof (induction rule: sessionRun.induct)
  case (stepped s tr t e u)
  have "passed (tr @ [e]) @ held (s_listener u) @ unread (s_in u) = passed tr @ held (s_listener t) @ unread (s_in t)"
    using sessionStep_reads [OF stepped.hyps(2)] by simp
  moreover have "s_chan s @ queued (tr @ [e]) = taken (tr @ [e]) @ s_chan u"
    using stepped.IH [OF stepped.prems] sessionStep_queue [OF stepped.hyps(2)] by (metis append_assoc queued_append taken_append)
  moreover have "wire u (s_out s) (taken tr @ taken [e])"
    using stepped.IH [OF stepped.prems] by (intro sessionStep_wire [OF stepped.hyps(2)]) simp
  ultimately show ?case using stepped.IH [OF stepped.prems] by simp
qed (simp add: wire_def)

section \<open>How a session ends\<close>

definition sessionInv :: "Session \<Rightarrow> bool" where
  "sessionInv s \<longleftrightarrow> (s_listener s = Stopped \<or> \<not> s_sending s \<longrightarrow> s_cancelled s) \<and>
     (s_closed s \<longrightarrow> s_listener s = Stopped \<and> \<not> s_sending s)"

lemma sessionStep_inv: "sessionStep s e t \<Longrightarrow> sessionInv s \<Longrightarrow> sessionInv t"
  by (induction rule: sessionStep.induct) (auto simp: sessionInv_def)

lemma sessionRun_inv: "sessionRun s tr t \<Longrightarrow> sessionInv s \<Longrightarrow> sessionInv t"
  by (induction rule: sessionRun.induct) (auto dest: sessionStep_inv)

lemma sessionRun_then: "sessionStep s e t \<Longrightarrow> sessionRun t tr u \<Longrightarrow> sessionRun s (e # tr) u"
proof (rotate_tac, induction arbitrary: s rule: sessionRun.induct)
  case (opened t)
  then show ?case using sessionRun.stepped [OF sessionRun.opened] by fastforce
next
  case (stepped t tr u e' v)
  then show ?case using sessionRun.stepped [of s "e # tr" u e' v] by simp
qed

lemma sessionStep_in: "sessionStep s e t \<Longrightarrow> s_in s = [] \<Longrightarrow> s_in t = []"
  by (induction rule: sessionStep.induct) (auto simp: getMessageFromReader_def readFull_def split: if_splits elim!: rbind_InrE)

lemma sessionRun_in: "sessionRun s tr t \<Longrightarrow> s_in s = [] \<Longrightarrow> s_in t = []"
  by (induction rule: sessionRun.induct) (auto dest: sessionStep_in)

text \<open>A sender that has stopped takes no message any more.\<close>

lemma sessionStep_silent: "sessionStep s e t \<Longrightarrow> \<not> s_sending s \<Longrightarrow> taken [e] = [] \<and> \<not> s_sending t"
  by (induction rule: sessionStep.induct) simp_all

lemma sessionRun_silent: "sessionRun s tr t \<Longrightarrow> \<not> s_sending s \<Longrightarrow> taken tr = [] \<and> \<not> s_sending t"
  by (induction rule: sessionRun.induct) (auto dest: sessionStep_silent)

text \<open>
  From every state both goroutines can run to their end, without another message being
  queued, and unless the context is cancelled before, all that arrives is read.
\<close>

definition closable :: "Session \<Rightarrow> bool" where
  "closable s \<longleftrightarrow> (\<exists>tr t. sessionRun s tr t \<and> s_closed t \<and> queued tr = [] \<and> (s_cancelled s \<or> s_in t = []))"

lemma closable_step:
  assumes "sessionStep s e t" and "queued [e] = []" and "s_cancelled t \<Longrightarrow> s_cancelled s \<or> s_in t = []" and "closable t"
  shows "closable s"
proof -
  obtain tr u where u: "sessionRun t tr u" "s_closed u" "queued tr = []" "s_cancelled t \<or> s_in u = []"
    using assms(4) by (auto simp: closable_def)
  have "sessionRun s (e # tr) u" by (rule sessionRun_then [OF assms(1) u(1)])
  moreover have "queued (e # tr) = []" using assms(2) u(3) queued_append [of "[e]" tr] by simp
  moreover have "s_cancelled s \<or> s_in u = []" using assms(3) u(4) sessionRun_in [OF u(1)] by blast
  ultimately show ?thesis using u(2) unfolding closable_def by blast
qed

lemma closable_stopped:
  assumes "sessionInv s" and "s_listener s = Stopped"
  shows "closable s"
proof -
  have closed: "closable u" if "s_closed u" "s_cancelled u" for u
    unfolding closable_def using that sessionRun.opened [of u] by (intro exI [of _ "[]"]) auto
  have silent: "closable u" if "s_listener u = Stopped" "\<not> s_sending u" "s_cancelled u" for u
    using that closed closable_step [OF sessionStep.close [of u]] by (cases "s_closed u") simp_all
  show ?thesis
    using assms silent closable_step [OF sessionStep.stop_sending [of s]] by (cases "s_sending s") (simp_all add: sessionInv_def)
qed

text \<open>The listener is done after at most three steps for every byte that is left.\<close>

fun stepsLeft :: "listener \<Rightarrow> nat" where
  "stepsLeft (Holding m) = 2"
| "stepsLeft Head = 1"
| "stepsLeft _ = 0"

lemma session_can_close: "sessionInv s \<Longrightarrow> closable s"
proof (induction "3 * length (s_in s) + stepsLeft (s_listener s)" arbitrary: s rule: less_induct)
  case less
  have on: "closable s" if "sessionStep s e t" "queued [e] = []" "s_cancelled t \<Longrightarrow> s_cancelled s \<or> s_in t = []"
    "3 * length (s_in t) + stepsLeft (s_listener t) < 3 * length (s_in s) + stepsLeft (s_listener s) \<or> s_listener t = Stopped" for e t
    using closable_step [OF that(1-3)] less.hyps [of t] closable_stopped [of t] that(4) sessionStep_inv [OF that(1) less.prems] by blast
  show ?case
  proof (cases "s_listener s")
    case Head
    then show ?thesis
      using on [OF sessionStep.stop_listening] on [OF sessionStep.start_reading] by (cases "s_cancelled s") simp_all
  next
    case Reading
    obtain r rest where r: "getMessageFromReader (s_in s) = Inr (r, rest)" using getMessageFromReader_total [of "s_in s"] by auto
    show ?thesis
    proof (cases r)
      case (Inl err)
      then show ?thesis using on [OF sessionStep.read_fail [OF Reading]] r unread_fail(2) by simp
    next
      case (Inr b)
      then have "length rest < length (s_in s)" using r getMessageFromReader_shorter by blast
      then show ?thesis using on [OF sessionStep.read [OF Reading]] r Inr Reading by simp
    qed
  next
    case (Holding m)
    then show ?thesis using on [OF sessionStep.pass] by simp
  next
    case Stopped
    then show ?thesis using closable_stopped less.prems by blast
  qed
qed

lemma session_fields [simp]:
  "s_in (session written reader ch) = reader" "s_out (session written reader ch) = written"
  "s_chan (session written reader ch) = ch" "s_listener (session written reader ch) = Head"
  "s_sending (session written reader ch)" "\<not> s_cancelled (session written reader ch)" "sessionInv (session written reader ch)"
  by (simp_all add: session_def sessionInv_def)

lemma session_winds_down:
  assumes "sessionRun (session written reader ch) tr s"
  shows "\<exists>us t. sessionRun s us t \<and> s_closed t \<and> queued us = [] \<and> (s_cancelled s \<or> passed tr @ passed us = unread reader)"
proof -
  have inv: "sessionInv s" by (rule sessionRun_inv [OF assms]) simp
  then obtain us t where t: "sessionRun s us t" "s_closed t" "queued us = []" "s_cancelled s \<or> s_in t = []"
    using session_can_close unfolding closable_def by blast
  have "sessionInv t" by (rule sessionRun_inv [OF t(1) inv])
  then have "held (s_listener t) = []" using t(2) by (simp add: sessionInv_def)
  moreover have "passed tr @ held (s_listener s) @ unread (s_in s) = unread reader" using sessionRun_carries [OF assms] by simp
  moreover have "passed us @ held (s_listener t) @ unread (s_in t) = held (s_listener s) @ unread (s_in s)" if "\<not> s_cancelled s"
  proof -
    have "s_sending s" using inv that by (auto simp: sessionInv_def)
    then show ?thesis using sessionRun_carries [OF t(1)] by simp
  qed
  ultimately have "s_cancelled s \<or> passed tr @ passed us = unread reader" using t(4) by (cases "s_cancelled s") simp_all
  then show ?thesis using t by blast
qed

section \<open>From node to node\<close>

text \<open>
  What a peer is passed on a connection is a first part of what was taken for it, in order:
  TCP delivers a first part of the bytes written.
\<close>

lemma session_to_session:
  assumes "sessionRun s tr s'" and "s_sending s" and "s_out s' = s_out s @ bytes"
    and "sessionRun t us t'" and "s_sending t" "s_listener t = Head" and "s_in t = take k bytes"
    and "list_all sendable (taken tr)"
  shows "\<exists>n. taken tr = passed us @ n"
proof -
  obtain j where bytes: "bytes = take j (sendMessages (taken tr))"
    using sessionRun_carries [OF assms(1,2)] assms(3) by (auto simp: wire_def split: if_splits intro: that [of "length (sendMessages (taken tr))"])
  obtain n err where "listenForMessages (s_in t) = Inr (take n (taken tr), err)"
    using listenForMessages_sent [OF assms(8), of "min k j"] by (auto simp: assms(7) bytes)
  then have "unread (s_in t) = take n (taken tr)" by (simp add: unread_def)
  then have "passed us @ held (s_listener t') @ unread (s_in t') = take n (taken tr)"
    using sessionRun_carries [OF assms(4,5)] assms(6) by simp
  then have "taken tr = passed us @ (held (s_listener t') @ unread (s_in t') @ drop n (taken tr))"
    by (metis append_assoc append_take_drop_id)
  then show ?thesis ..
qed

text \<open>The same from the first byte on: both sides have learned who the other is.\<close>

lemma handleConnection_session:
  assumes "handleConnection i outs sendErr reader = Inr (Some (j, s))"
  shows "\<exists>rest. exchangeIDs i sendErr reader = Inr (toByteArray (Itoa i), Inr j, rest) \<and> 0 \<le> j \<and> j < int NUMBER_OF_NODES \<and>
    s = session (toByteArray (Itoa i)) rest (outs (nat j))"
  using assms
  by (auto simp: handleConnection_def exchangeIDs_def Let_def elim!: rbind_InrE split: option.splits sum.splits if_splits)

lemma Itoa_length: "- (2 ^ 63) \<le> i \<Longrightarrow> i < 2 ^ 63 \<Longrightarrow> length (Itoa i) < 2 ^ 32"
proof -
  assume "- (2 ^ 63) \<le> i" "i < 2 ^ 63"
  then have "nat \<bar>i\<bar> < 10 ^ 19" by simp
  then have "length (decimal (nat \<bar>i\<bar>)) \<le> 19" by (rule decimal_length) simp
  then show ?thesis by (auto simp: Itoa_def)
qed

lemma exchangeIDs_prefix:
  assumes "- (2 ^ 63) \<le> i" and "i < 2 ^ 63" and "exchangeIDs j sendErr (take k (toByteArray (Itoa i) @ rest)) = Inr (w, Inr x, reader)"
  shows "x = i \<and> reader = take (k - length (toByteArray (Itoa i))) rest"
proof -
  let ?f = "toByteArray (Itoa i)"
  have none: "sendErr = None" using assms(3) by (auto simp: exchangeIDs_def Let_def split: option.splits)
  have "\<not> k < length ?f"
  proof
    assume "k < length ?f"
    then obtain err r where "getMessageFromReader (take k ?f) = Inr (Inl err, r)"
      using getMessageFromReader_cut [OF Itoa_length [OF assms(1,2)], of k]
      by (auto simp: toByteArray_def augmentByteArrayWithLength_def)
    then show False using assms(3) none \<open>k < length ?f\<close> by (simp add: exchangeIDs_def)
  qed
  then show ?thesis using assms(3) none exchangeIDs_read [OF assms(1,2), of j] by auto
qed

lemma connected_carries:
  assumes "handleConnection (int i) outs sendErr reader = Inr (Some (p, s))" and "sessionRun s tr s'"
    and "handleConnection (int j) outs' sendErr' (take k (s_out s')) = Inr (Some (q, t))" and "sessionRun t us t'"
    and "i < NUMBER_OF_NODES" and "list_all sendable (taken tr)"
  shows "q = int i \<and> (\<exists>rest. taken tr = passed us @ rest)"
proof -
  let ?f = "toByteArray (Itoa (int i))"
  obtain r where s: "s = session ?f r (outs (nat p))" using handleConnection_session [OF assms(1)] by blast
  obtain rest where t: "exchangeIDs (int j) sendErr' (take k (s_out s')) = Inr (toByteArray (Itoa (int j)), Inr q, rest)"
    "t = session (toByteArray (Itoa (int j))) rest (outs' (nat q))"
    using handleConnection_session [OF assms(3)] by blast
  obtain bytes where out: "s_out s' = ?f @ bytes"
    using sessionRun_carries [OF assms(2)] by (auto simp: s wire_def split: if_splits)
  have "- (2 ^ 63) \<le> int i" "int i < 2 ^ 63" using assms(5) by (simp_all add: NUMBER_OF_NODES_def)
  from exchangeIDs_prefix [OF this] t(1) out have q: "q = int i" "rest = take (k - length ?f) bytes" by auto
  have "\<exists>n. taken tr = passed us @ n"
    by (rule session_to_session [OF assms(2) _ _ assms(4) _ _ _ assms(6)]) (simp_all add: s t(2) out q(2))
  then show ?thesis using q(1) by blast
qed

end
