(* ===== verification/ExampleConnection.thy ===== *)
theory ExampleConnection
  imports ExampleProgram Sessions
begin

text \<open>The vote of the example leaves node 1 on a connection and is passed on at node 0.\<close>

abbreviation exVoteMsg :: Message where
  "exVoteMsg \<equiv> NewVoteMsg (exVote 0)"

lemma exVoteMsg_sendable: "sendable exVoteMsg"
proof -
  have "length domain = 8" by (simp add: domain_def)
  then have "Vote_Size (exVote 0) \<le> 1000"
    using size_bounds(1) [of "Vote_View (exVote 0)"] size_bounds(1) [of "Vote_Voter (exVote 0)"]
      size_bounds(3) [of "Vote_Block (exVote 0)"] size_bounds(3) [of "Vote_Sig (exVote 0)"]
    by (simp add: Vote_Size_def) (simp add: exVote_def)
  then show ?thesis
    using size_bounds(2) [of "Vote_Size (exVote 0)"]
    by (simp add: sendable_def Message_wf_def Message_Size_def msg_defs sizeMsg_def)
qed

lemma ex_connects:
  assumes "i < NUMBER_OF_NODES"
  shows "handleConnection j outs None (toByteArray (Itoa (int i)) @ rest) =
    Inr (Some (int i, session (toByteArray (Itoa j)) rest (outs i)))"
proof -
  have "- (2 ^ 63) \<le> int i" "int i < 2 ^ 63" using assms by (simp_all add: NUMBER_OF_NODES_def)
  from exchangeIDs_read [OF this] assms show ?thesis by (simp add: handleConnection_def)
qed

lemma ex_sends:
  "\<exists>s. sessionRun (session out reader []) [Queued m, Took m] s \<and> s_out s = out @ augmentByteArrayWithLength (Message_Marshal m)"
proof -
  let ?s = "session out reader []"
  have "sessionRun ?s ([] @ [Queued m]) (?s\<lparr>s_chan := s_chan ?s @ [m]\<rparr>)"
    by (rule sessionRun.stepped [OF sessionRun.opened sessionStep.queue]) (simp add: MSGS_CAPACITY_def)
  from sessionRun.stepped [OF this sessionStep.send [of _ m "[]"]] show ?thesis by auto
qed

lemma ex_reads:
  assumes "sendable m"
  shows "\<exists>t. sessionRun (session out (augmentByteArrayWithLength (Message_Marshal m)) ch) [Internal, Internal, Passed m] t"
proof -
  let ?t = "session out (augmentByteArrayWithLength (Message_Marshal m)) ch"
  have frame: "getMessageFromReader (augmentByteArrayWithLength (Message_Marshal m)) = Inr (Inr (Message_Marshal m), [])"
    using getMessageFromReader_frame [OF sendable_read(1) [OF assms], of "[]"] by simp
  have "sessionRun ?t ([] @ [Internal]) (?t\<lparr>s_listener := Reading\<rparr>)"
    by (rule sessionRun.stepped [OF sessionRun.opened sessionStep.start_reading]) simp_all
  from sessionRun.stepped [OF this sessionStep.read [of _ "Message_Marshal m" "[]"]]
  have "sessionRun ?t ([] @ [Internal, Internal]) (?t\<lparr>s_in := [], s_listener := Holding m\<rparr>)"
    using frame sendable_read(2) [OF assms] by simp
  from sessionRun.stepped [OF this sessionStep.pass [of _ m]] show ?thesis by auto
qed

text \<open>A frame that holds an empty proposal and a byte that cannot be decoded.\<close>

lemma ex_garbage:
  obtains m err where "listenForMessages (augmentByteArrayWithLength [10, 0, 7]) = Inr ([m], err)"
proof -
  have "getMessageFromReader (augmentByteArrayWithLength [10, 0, 7]) = Inr (Inr [10, 0, 7], [])"
    using getMessageFromReader_frame [of "[10, 0, 7]" "[]"] by simp
  moreover have "\<exists>err. listenForMessages [] = Inr ([], err)"
    by (subst listenForMessages.simps) (simp add: getMessageFromReader_def readFull_def BYTES_ARRAY_PREFIX_LENGTH_def)
  ultimately show thesis using that by (subst (asm) listenForMessages.simps) auto
qed

end
