(* ===== verification/Ledger.thy ===== *)
theory Ledger
  imports Store
begin

text \<open>
  Sequences of writes to the block store of \<^verbatim>\<open>store.go\<close> against the maps a client sees,
  and the walk of a chain iterator from a block down to the first one.
\<close>

section \<open>Writes\<close>

datatype storeOp =
    PutHeader Header
  | PutCertificate Certificate
  | PutData bytes Data
  | PutTag Tag bytes
  | PutView uint64
  | PutVoted uint64

fun execOp :: "('db, 'z) Env_scheme \<Rightarrow> storeOp \<Rightarrow> 'db \<Rightarrow> storeErr + 'db" where
  "execOp E (PutHeader h) s = SaveHeader E s h"
| "execOp E (PutCertificate c) s = SaveCertificate E s c"
| "execOp E (PutData hash d) s = SaveData E s hash d"
| "execOp E (PutTag t hash) s = SetTag E s t hash"
| "execOp E (PutView v) s = SaveView E s v"
| "execOp E (PutVoted v) s = SaveVoted E s v"

fun execOps :: "('db, 'z) Env_scheme \<Rightarrow> storeOp list \<Rightarrow> 'db \<Rightarrow> storeErr + 'db" where
  "execOps E [] s = Inr s"
| "execOps E (op # ops) s = rbind (execOp E op s) (execOps E ops)"

text \<open>The specification: six independent maps, each write an update of one of them.\<close>

fun specOp :: "hash \<Rightarrow> storeOp \<Rightarrow> absStore \<Rightarrow> absStore" where
  "specOp H (PutHeader h) a = a\<lparr>a_headers := (a_headers a)(Header_Hash H h := Some h)\<rparr>"
| "specOp H (PutCertificate c) a = a\<lparr>a_certs := (a_certs a)(Certificate_Block c := Some c)\<rparr>"
| "specOp H (PutData hash d) a = a\<lparr>a_data := (a_data a)(hash := Some d)\<rparr>"
| "specOp H (PutTag t hash) a = a\<lparr>a_tags := (a_tags a)(t := Some hash)\<rparr>"
| "specOp H (PutView v) a = a\<lparr>a_view := Some v\<rparr>"
| "specOp H (PutVoted v) a = a\<lparr>a_voted := Some v\<rparr>"

text \<open>What an encoding can carry; a tag is one of the four of \<^verbatim>\<open>store.go\<close>.\<close>

fun opFits :: "storeOp \<Rightarrow> bool" where
  "opFits (PutHeader h) \<longleftrightarrow> Header_Size h < 2 ^ 63"
| "opFits (PutCertificate c) \<longleftrightarrow> Certificate_Size c < 2 ^ 63 \<and> Certificate_wf c"
| "opFits (PutData hash d) \<longleftrightarrow> Data_Size d < 2 ^ 63"
| "opFits (PutTag t hash) \<longleftrightarrow> t \<in> set storeTags"
| "opFits (PutView v) \<longleftrightarrow> True"
| "opFits (PutVoted v) \<longleftrightarrow> True"

context leveldb
begin

lemma execOp_spec: "execOp E op s = Inr s' \<Longrightarrow> opFits op \<Longrightarrow> absOf E s' = specOp (blake2s E) op (absOf E s)"
  by (cases op) (simp_all add: save_abs)

lemma execOps_spec:
  "execOps E ops s = Inr s' \<Longrightarrow> list_all opFits ops \<Longrightarrow> absOf E s' = fold (specOp (blake2s E)) ops (absOf E s)"
  by (induction ops arbitrary: s) (auto simp: execOp_spec elim!: rbind_InrE)

end

section \<open>Walking a chain\<close>

text \<open>\<open>linked E s h hs\<close>: the stored ancestors of \<open>h\<close> are \<open>hs\<close>, nearest first, and the parent of the last is unknown.\<close>

fun linked :: "('db, 'z) Env_scheme \<Rightarrow> 'db \<Rightarrow> Header \<Rightarrow> Header list \<Rightarrow> bool" where
  "linked E s h [] \<longleftrightarrow> ok (GetHeader E s (Header_Parent h)) = None"
| "linked E s h (p # ps) \<longleftrightarrow> GetHeader E s (Header_Parent h) = Inr p \<and> linked E s p ps"

lemma ci_Next_header:
  "ci_header ci = Some h \<Longrightarrow> ci_store (ci_Next E ci) = ci_store ci \<and>
    ci_header (ci_Next E ci) = ok (GetHeader E (ci_store ci) (Header_Parent h)) \<and>
    (ci_Valid (ci_Next E ci) \<longleftrightarrow> ok (GetHeader E (ci_store ci) (Header_Parent h)) \<noteq> None)"
  by (cases "GetHeader E (ci_store ci) (Header_Parent h)") (simp_all add: ci_Next_def ci_Valid_def Let_def)

lemma ci_Next_walk:
  assumes "linked E s h hs" and "ci_store ci = s" and "ci_header ci = Some h" and "ci_Valid ci"
  shows "(\<forall>k \<le> length hs. ci_header ((ci_Next E ^^ k) ci) = Some ((h # hs) ! k) \<and> ci_Valid ((ci_Next E ^^ k) ci)) \<and>
    \<not> ci_Valid ((ci_Next E ^^ Suc (length hs)) ci)"
  using assms
proof (induction hs arbitrary: h ci)
  case Nil
  then show ?case using ci_Next_header [of ci h E] by simp
next
  case (Cons p ps)
  have step: "ci_store (ci_Next E ci) = s" "ci_header (ci_Next E ci) = Some p" "ci_Valid (ci_Next E ci)"
    using ci_Next_header [of ci h E] Cons.prems by simp_all
  have rest: "(\<forall>k \<le> length ps. ci_header ((ci_Next E ^^ k) (ci_Next E ci)) = Some ((p # ps) ! k) \<and>
      ci_Valid ((ci_Next E ^^ k) (ci_Next E ci))) \<and> \<not> ci_Valid ((ci_Next E ^^ Suc (length ps)) (ci_Next E ci))"
    using Cons.IH [OF _ step] Cons.prems(1) by simp
  have "ci_header ((ci_Next E ^^ k) ci) = Some ((h # p # ps) ! k) \<and> ci_Valid ((ci_Next E ^^ k) ci)"
    if "k \<le> length (p # ps)" for k
    using that rest Cons.prems(3,4) by (cases k) (simp_all add: funpow_swap1)
  then show ?case using rest by (simp add: funpow_swap1)
qed

end
