(* ===== verification/Startup.thy ===== *)
theory Startup
  imports Connections
begin

text \<open>
  How a \<^verbatim>\<open>hotstuff-node\<close> process comes up (\<^verbatim>\<open>hotstuff-node/main.go\<close>,
  \<^verbatim>\<open>hotstuff-node/tcpNode.go\<close>): the addresses \<^verbatim>\<open>main\<close> makes from its flags, the addresses
  \<^verbatim>\<open>entryPoint\<close> listens on and dials, and the loop that dials a peer. Flags arrive parsed:
  the index as a number, the list of hosts as a string.
\<close>

section \<open>Addresses\<close>

definition DEFAULT_ADDRESS_NUMBER :: int where
  "DEFAULT_ADDRESS_NUMBER = 9000"

text \<open>\<^verbatim>\<open>strings.Split\<close> at a separator of one byte.\<close>

fun Split :: "byte \<Rightarrow> bytes \<Rightarrow> bytes list" where
  "Split sep [] = [[]]"
| "Split sep (b # bs) = (if b = sep then [] # Split sep bs else (b # hd (Split sep bs)) # tl (Split sep bs))"

definition getAddressList :: "bytes list" where
  "getAddressList = map (\<lambda>i. 58 # Itoa (DEFAULT_ADDRESS_NUMBER + int i)) [0..<NUMBER_OF_NODES]"

definition localhost :: bytes where
  "localhost = [49, 50, 55, 46, 48, 46, 48, 46, 49]"

definition getIPAddressList :: "bytes list" where
  "getIPAddressList = map (\<lambda>i. localhost @ [58] @ Itoa (DEFAULT_ADDRESS_NUMBER + int i)) [0..<NUMBER_OF_NODES]"

text \<open>The list \<^verbatim>\<open>main\<close> passes to \<^verbatim>\<open>entryPoint\<close>: each host with the port of its index.\<close>

definition mainAddresses :: "bytes \<Rightarrow> bytes list result" where
  "mainAddresses ipAddresses =
     (let ipAddressList = Split 44 ipAddresses
      in if length ipAddressList \<noteq> NUMBER_OF_NODES
         then Inl (PanicMsg ''IP address list does not have correct size!'')
         else Inr (map (\<lambda>i. ipAddressList ! i @ [58] @ Itoa (DEFAULT_ADDRESS_NUMBER + int i)) [0..<NUMBER_OF_NODES]))"

text \<open>The address a process listens on, and those it dials: of every node with a smaller index.\<close>

definition connectionPlan :: "int \<Rightarrow> bytes list \<Rightarrow> (bytes \<times> bytes list) result" where
  "connectionPlan index ipAddressList =
     (if index < 0 \<or> int NUMBER_OF_NODES \<le> index then Inl IndexOutOfRange
      else Inr (ipAddressList ! nat index, map (\<lambda>i. ipAddressList ! i) [0..<nat index]))"

definition startup :: "int \<Rightarrow> bytes \<Rightarrow> (bytes \<times> bytes list) result" where
  "startup index ipAddresses = rbind (mainAddresses ipAddresses) (connectionPlan index)"

text \<open>The string that a user passes for a list of hosts.\<close>

fun joined :: "byte \<Rightarrow> bytes list \<Rightarrow> bytes" where
  "joined sep [] = []"
| "joined sep [w] = w"
| "joined sep (w # ws) = w @ sep # joined sep ws"

lemma Split_nonempty [simp]: "Split sep bs \<noteq> []"
  by (induction bs) simp_all

lemma Split_free: "sep \<notin> set w \<Longrightarrow> Split sep w = [w]"
  by (induction w) auto

lemma Split_word: "sep \<notin> set w \<Longrightarrow> Split sep (w @ sep # bs) = w # Split sep bs"
  by (induction w) auto

lemma Split_joined: "ws \<noteq> [] \<Longrightarrow> \<forall>w \<in> set ws. sep \<notin> set w \<Longrightarrow> Split sep (joined sep ws) = ws"
  by (induction sep ws rule: joined.induct) (simp_all add: Split_free Split_word)

lemma Split_sound: "joined sep (Split sep bs) = bs"
proof (induction bs)
  case (Cons b bs)
  obtain w ws where "Split sep bs = w # ws" by (cases "Split sep bs") simp_all
  then show ?case using Cons by (cases ws) auto
qed simp

lemma address_last: "i < 10 \<Longrightarrow> last (Itoa (DEFAULT_ADDRESS_NUMBER + int i)) = 48 + of_nat i"
proof -
  assume "i < 10"
  then have "(9000 + i) mod 10 = i" by presburger
  moreover have "nat (9000 + int i) = 9000 + i" by simp
  ultimately show ?thesis by (simp add: Itoa_def DEFAULT_ADDRESS_NUMBER_def decimal.simps [of "9000 + i"])
qed

text \<open>The ports keep the addresses apart, whatever the hosts.\<close>

lemma mainAddresses_joined:
  assumes "length hosts = NUMBER_OF_NODES" and "\<forall>w \<in> set hosts. 44 \<notin> set w"
  obtains as where "mainAddresses (joined 44 hosts) = Inr as" and "length as = NUMBER_OF_NODES" and "distinct as"
    and "\<And>i. i < NUMBER_OF_NODES \<Longrightarrow> as ! i = hosts ! i @ [58] @ Itoa (DEFAULT_ADDRESS_NUMBER + int i)"
proof -
  let ?f = "\<lambda>i. hosts ! i @ [58] @ Itoa (DEFAULT_ADDRESS_NUMBER + int i)"
  have "hosts \<noteq> []" using assms(1) by (auto simp: NUMBER_OF_NODES_def)
  then have "mainAddresses (joined 44 hosts) = Inr (map ?f [0..<NUMBER_OF_NODES])"
    using assms Split_joined [of hosts 44] by (simp add: mainAddresses_def)
  moreover have "inj_on ?f {0..<NUMBER_OF_NODES}"
  proof (rule inj_onI)
    fix i j assume i: "i \<in> {0..<NUMBER_OF_NODES}" and j: "j \<in> {0..<NUMBER_OF_NODES}" and eq: "?f i = ?f j"
    have "last (?f i) = last (?f j)" using eq by simp
    moreover have "last (?f k) = 48 + of_nat k" if "k < NUMBER_OF_NODES" for k
      using that address_last [of k] decimal_head [of "nat (DEFAULT_ADDRESS_NUMBER + int k)"]
      by (auto simp: NUMBER_OF_NODES_def Itoa_def)
    ultimately have "(of_nat i :: byte) = of_nat j" using i j by simp
    then have "unat (of_nat i :: byte) = unat (of_nat j :: byte)" by simp
    then show "i = j" using i j by (simp add: unat_of_nat NUMBER_OF_NODES_def)
  qed
  ultimately show thesis by (intro that [of "map ?f [0..<NUMBER_OF_NODES]"]) (simp_all add: distinct_map)
qed

section \<open>Dialling\<close>

text \<open>A \<^verbatim>\<open>sync.WaitGroup\<close> is its counter; \<^verbatim>\<open>Wait\<close> returns when it is zero.\<close>

definition wg_Add :: "int \<Rightarrow> int \<Rightarrow> int" where
  "wg_Add wg k = wg + k"

definition wg_Wait :: "int \<Rightarrow> bool" where
  "wg_Wait wg \<longleftrightarrow> wg = 0"

text \<open>
  \<^verbatim>\<open>initiateConnection\<close> on the outcomes of its dials: it sleeps after an error; after a
  success it hands the connection to a goroutine, which does not get the group, and waits
  for the group it has just added one to.
\<close>

datatype 'c dialEvent = Slept | Handled 'c | Blocked

fun initiateConnection :: "(string + 'c) list \<Rightarrow> 'c dialEvent list" where
  "initiateConnection [] = []"
| "initiateConnection (Inl err_conn # dials) = Slept # initiateConnection dials"
| "initiateConnection (Inr conn # dials) =
     Handled conn # (if wg_Wait (wg_Add 0 1) then initiateConnection dials else [Blocked])"

lemma initiateConnection_first:
  "initiateConnection (map Inl errs @ Inr c # dials) = replicate (length errs) Slept @ [Handled c, Blocked]"
  by (induction errs) (simp_all add: wg_Add_def wg_Wait_def)

end
