(* ===== verification/Chat.thy ===== *)
theory Chat
  imports Startup Sessions
begin

text \<open>
  The stand-alone program \<^verbatim>\<open>node/\<close>: the first version of the connections, without the
  consensus package. Every node listens on a port of its own and dials the nodes with a
  smaller index; a connection carries at most one text from each side, in the frames of
  \<^verbatim>\<open>hotstuff-node\<close>. What a connection does is the texts it prints and the bytes it writes.
\<close>

section \<open>Frames\<close>

definition CHAT_PREFIX_LENGTH :: nat where
  "CHAT_PREFIX_LENGTH = 4"

definition chat_toByteArray :: "bytes \<Rightarrow> bytes" where
  "chat_toByteArray msg = beBytes CHAT_PREFIX_LENGTH (of_nat (length msg) :: uint32) @ msg"

definition chat_getMsgLength :: "bytes \<Rightarrow> nat result" where
  "chat_getMsgLength b = (if length b < 4 then Inl IndexOutOfRange else Inr (unat (beWord (take 4 b) :: uint32)))"

definition chat_toString :: "bytes \<Rightarrow> bytes" where
  "chat_toString msg_byte_arr = msg_byte_arr"

definition chat_getMessageFromReader :: "bytes \<Rightarrow> ((string + bytes) \<times> bytes) result" where
  "chat_getMessageFromReader reader =
     (case readFull CHAT_PREFIX_LENGTH reader of
        (None, reader) \<Rightarrow> Inr (Inl ''Failed to read first 4 bytes from reader'', reader)
      | (Some length_buf, reader) \<Rightarrow>
          rbind (chat_getMsgLength length_buf) (\<lambda>msg_length.
          case readFull msg_length reader of
            (None, reader) \<Rightarrow> Inr (Inl ''Failed to read message from reader'', reader)
          | (Some msg_buf, reader) \<Rightarrow> Inr (Inr (chat_toString msg_buf), reader)))"

text \<open>Both programs read and write the same frames.\<close>

lemma chat_frames: "chat_toByteArray = toByteArray" "chat_getMessageFromReader = getMessageFromReader"
proof -
  have len: "chat_getMsgLength = getMsgLength" by (simp add: fun_eq_iff chat_getMsgLength_def getMsgLength_def)
  show "chat_toByteArray = toByteArray"
    by (simp add: fun_eq_iff chat_toByteArray_def toByteArray_def BYTES_ARRAY_PREFIX_LENGTH_def CHAT_PREFIX_LENGTH_def)
  show "chat_getMessageFromReader = getMessageFromReader"
    unfolding fun_eq_iff chat_getMessageFromReader_def getMessageFromReader_def len BYTES_ARRAY_PREFIX_LENGTH_def CHAT_PREFIX_LENGTH_def chat_toString_def
    by (intro allI refl)
qed

section \<open>A connection\<close>

text \<open>The texts \<^verbatim>\<open>listenForMessages\<close> prints before the reader fails.\<close>

function chat_listenForMessages :: "bytes \<Rightarrow> bytes list result" where
  "chat_listenForMessages reader =
     (case chat_getMessageFromReader reader of
        Inl crash \<Rightarrow> Inl crash
      | Inr (Inl readErr, _) \<Rightarrow> Inr []
      | Inr (Inr msg, reader') \<Rightarrow> rbind (chat_listenForMessages reader') (\<lambda>msgs. Inr (msg # msgs)))"
  by pat_completeness auto

termination
  by (relation "measure length") (auto simp: chat_frames getMessageFromReader_shorter)

declare chat_listenForMessages.simps [simp del]

definition chat_sendMessages :: "bytes \<Rightarrow> bytes" where
  "chat_sendMessages msg = chat_toByteArray msg"

text \<open>
  \<^verbatim>\<open>handleConnection\<close> counts its goroutines in a wait group and closes the connection once
  both are done. The listening goroutine gets the group by value: its \<^verbatim>\<open>Done\<close> counts down a
  copy. The result: what is written and printed, and whether the connection is closed.
\<close>

record chatConn =
  cc_written :: bytes
  cc_printed :: "bytes list"
  cc_closed :: bool

definition chat_handleConnection :: "bool \<Rightarrow> bytes \<Rightarrow> bytes \<Rightarrow> chatConn result" where
  "chat_handleConnection send msg reader =
     (let wg = wg_Add 0 1; copy = wg
      in rbind (chat_listenForMessages reader) (\<lambda>printed.
         let copy = wg_Add copy (- 1);
             wg = (if send then wg_Add wg 1 else wg);
             written = (if send then chat_sendMessages msg else [])
         in Inr \<lparr>cc_written = written, cc_printed = printed, cc_closed = wg_Wait wg\<rparr>))"

lemma chat_listenForMessages_sent:
  assumes "list_all (\<lambda>msg. length msg < 2 ^ 32) msgs"
  shows "chat_listenForMessages (concat (map chat_sendMessages msgs)) = Inr msgs"
  using assms
proof (induction msgs)
  case Nil
  then show ?case
    by (simp add: chat_listenForMessages.simps [of "[]"] chat_getMessageFromReader_def readFull_def CHAT_PREFIX_LENGTH_def)
next
  case (Cons msg msgs)
  then show ?case
    using toByteArray_read [of msg "concat (map toByteArray msgs)"]
    by (simp add: chat_sendMessages_def chat_frames chat_listenForMessages.simps [of "toByteArray msg @ _"])
qed

lemma chat_listenForMessages_total: "\<exists>msgs. chat_listenForMessages reader = Inr msgs"
proof (induction reader rule: chat_listenForMessages.induct)
  case (1 reader)
  obtain r rest where r: "chat_getMessageFromReader reader = Inr (r, rest)"
    using getMessageFromReader_total [of reader] by (auto simp: chat_frames)
  show ?case
  proof (cases r)
    case (Inl err)
    then show ?thesis using r by (simp add: chat_listenForMessages.simps [of reader])
  next
    case (Inr msg)
    then obtain msgs where "chat_listenForMessages rest = Inr msgs" using 1 [OF r] by blast
    then show ?thesis using r Inr by (simp add: chat_listenForMessages.simps [of reader])
  qed
qed

section \<open>The program\<close>

definition CHAT_ADDRESS_NUMBER :: int where
  "CHAT_ADDRESS_NUMBER = 8000"

definition CHAT_NUMBER_OF_NODES :: nat where
  "CHAT_NUMBER_OF_NODES = 4"

definition chat_getAddressList :: "bytes list" where
  "chat_getAddressList = map (\<lambda>i. 58 # Itoa (CHAT_ADDRESS_NUMBER + int i)) [0..<CHAT_NUMBER_OF_NODES]"

definition checkFlags :: "string \<Rightarrow> unit result" where
  "checkFlags mode =
     (if mode \<noteq> ''listen'' \<and> mode \<noteq> ''initiate''
      then Inl (PanicMsg (''nodeMode argument only accepts values 'listen' and 'initiate'' @ [CHR 0x27])) else Inr ())"

text \<open>\<^verbatim>\<open>main\<close>: the text to send, the address to listen on, and those to dial.\<close>

definition chat_main :: "int \<Rightarrow> string \<Rightarrow> (bytes \<times> bytes \<times> bytes list) result" where
  "chat_main index mode =
     rbind (checkFlags mode) (\<lambda>_.
     if index < 0 \<or> int CHAT_NUMBER_OF_NODES \<le> index then Inl IndexOutOfRange
     else Inr (map (of_nat \<circ> of_char) ''hello from node '' @ Itoa index, chat_getAddressList ! nat index,
       map (\<lambda>i. chat_getAddressList ! i) [0..<nat index]))"

text \<open>
  \<^verbatim>\<open>initiateConnection\<close> gives up at the first error, and waits for ever after a success.
\<close>

fun chat_initiateConnection :: "(string + 'c) list \<Rightarrow> 'c dialEvent list" where
  "chat_initiateConnection [] = []"
| "chat_initiateConnection (Inl err_conn # dials) = []"
| "chat_initiateConnection (Inr conn # dials) =
     Handled conn # (if wg_Wait (wg_Add 0 1) then chat_initiateConnection dials else [Blocked])"

text \<open>Accepting is that of \<^verbatim>\<open>hotstuff-node\<close>, the handler of a nil connection included.\<close>

fun chat_acceptConnections :: "(string + 'c) list \<Rightarrow> 'c list result" where
  "chat_acceptConnections [] = Inr []"
| "chat_acceptConnections (Inl err_conn # accepts) = Inl NilDeref"
| "chat_acceptConnections (Inr conn # accepts) = rbind (chat_acceptConnections accepts) (\<lambda>cs. Inr (conn # cs))"

definition chat_listenForConnections :: "string option \<Rightarrow> (string + 'c) list \<Rightarrow> 'c list result" where
  "chat_listenForConnections listenErr accepts =
     (case listenErr of Some err \<Rightarrow> Inl (LogFatal err) | None \<Rightarrow> chat_acceptConnections accepts)"

lemma chat_acceptConnections_same: "chat_acceptConnections accepts = acceptConnections accepts"
  by (induction accepts rule: chat_acceptConnections.induct) simp_all

lemma chat_listenForConnections_same: "chat_listenForConnections = listenForConnections"
  by (simp add: fun_eq_iff chat_listenForConnections_def listenForConnections_def chat_acceptConnections_same split: option.split)

definition chat_echoMessage :: "bytes \<Rightarrow> bytes" where
  "chat_echoMessage msg = chat_toByteArray (map (of_nat \<circ> of_char) ''Server reply: '' @ msg)"

definition chat_example_run :: "(bytes \<times> nat) result" where
  "chat_example_run =
     (let bytes_array = chat_toByteArray (map (of_nat \<circ> of_char) ''falcon and many eagles and many eagles and many eagles'')
      in rbind (chat_getMsgLength bytes_array) (\<lambda>n. Inr (bytes_array, n)))"

lemma chat_leftovers_same: "chat_echoMessage = echoMessage" "chat_example_run = example_run"
  by (simp_all add: fun_eq_iff chat_echoMessage_def echoMessage_def chat_example_run_def example_run_def chat_frames
      chat_getMsgLength_def getMsgLength_def)

end
