(* ===== verification/Defects.thy ===== *)
theory Defects
  imports Rounds Decoding
begin

text \<open>
  Places where the code does less than the protocol asks for. Each lemma exhibits what the
  code does instead, at the state and message that matter, in full generality.
\<close>

section \<open>Proposals\<close>

lemma syncView_timeout_views:
  "syncView E c h (Some tc) = Inr c' \<Longrightarrow>
    view c' = (if TimeoutCertificate_View tc \<ge> view c then TimeoutCertificate_View tc + 1 else view c)"
  by (auto simp: syncView_def jumpToView_def durable_def elim!: rbind_InrE dest!: durable_nextRoundFalse split: if_splits)

context running
begin

text \<open>
  The view that a proposal's time-out certificate names is not part of what is verified: the
  signature is checked for the view before the header's, and the replica then moves past the
  named view, whatever it is.
\<close>

lemma timeout_view_unchecked:
  assumes "sane c" and "Proposal_Header p = Some h" and "Proposal_ParentCert p = Some cert" and "Proposal_Timeout p = Some tc"
    and "checkProposal E c h cert (Some tc) (Proposal_Sig p) = Inr (Accepted parent)"
    and "view c \<le> TimeoutCertificate_View tc" and "TimeoutCertificate_View tc + 1 \<noteq> Header_View h"
  shows "\<exists>c'. onProposal E c p = Inr c' \<and> view c' = TimeoutCertificate_View tc + 1"
proof -
  obtain c1 where c1: "updatePrepare E c parent cert = Inr c1" "sane c1"
    using runs_updatePrepare [OF assms(1)] by (auto simp: runs_def)
  obtain c2 where c2: "syncView E c1 parent (Some tc) = Inr c2" "sane c2"
    using runs_syncView [OF c1(2)] by (auto simp: runs_def)
  obtain c3 where c3: "update E c2 parent = Inr c3" using runs_update [OF c2(2)] by (auto simp: runs_def)
  have "view c3 = TimeoutCertificate_View tc + 1"
    using syncView_timeout_views [OF c2(1)] updatePrepare_views [OF c1(1)] update_views [OF c3] assms(6) by simp
  then show ?thesis using assms(2-5,7) c1(1) c2(1) c3 by (auto simp: onProposal_def)
qed

text \<open>
  A proposal for another view than the one the replica ends up in raises the certified block
  to the proposal's parent, but the parent's certificate is not stored: the next start fails.
\<close>

lemma late_proposal_breaks_restart:
  assumes inv: "replicaInv E c" "replicas c \<noteq> []" and small: "smallProposal p"
    and p: "Proposal_Header p = Some h" "Proposal_ParentCert p = Some cert" "Proposal_Timeout p = None"
    and check: "checkProposal E c h cert None (Proposal_Sig p) = Inr (Accepted parent)"
    and views: "Header_View (prepare c) < Header_View parent" "Header_View parent < view c" "Header_View h \<noteq> view c"
    and absent: "a_certs (absOf E (store c)) (Header_Parent h) = None"
  shows "\<exists>c'. onProposal E c p = Inr c' \<and> newConsensus E (store c') i rs = Inl (LogFatal ''failed to load prepare certificate'')"
proof -
  have sane: "sane c" by (rule replicaInv_sane [OF inv])
  obtain c1 where c1: "updatePrepare E c parent cert = Inr c1" "sane c1"
    using runs_updatePrepare [OF sane] by (auto simp: runs_def)
  have c2: "syncView E c1 parent None = Inr c1" using updatePrepare_views [OF c1(1)] views(2) by (simp add: syncView_def linorder_not_le [symmetric])
  obtain c3 where c3: "update E c1 parent = Inr c3" using runs_update [OF c1(2)] by (auto simp: runs_def)
  have "view c3 = view c" using update_views [OF c3] updatePrepare_views [OF c1(1)] by simp
  then have step: "onProposal E c p = Inr c3" using p check c1(1) c2 c3 views(3) by (simp add: onProposal_def)
  have "smallMessage (NewProposalMsg p)" using small by (simp add: smallMessage_def msg_defs)
  moreover have "Step E (NewProposalMsg p) c = Inr c3" using step by (simp add: Step_def dispatch_def msg_defs)
  ultimately have kept: "replicaInv E c3" using acts_replicaInv [OF Step_acts] inv(1) by blast
  have "GetHeader E (store c) (Header_Parent h) = Inr parent"
    using check by (auto simp: checkProposal_def elim!: rbind_InrE split: if_splits sum.splits)
  then have "hashOf E parent = Header_Parent h" using inv(1) by (auto simp: replicaInv_def dest: intactD)
  moreover have "prepare c3 = parent" using update_views [OF c3] updatePrepare_views [OF c1(1)] views(1) by simp
  moreover have "a_certs (absOf E (store c3)) = a_certs (absOf E (store c))"
    using blocks_updates(1) [OF c1(1)] blocks_updates(2) [OF c3] by (simp add: blocksOf_def)
  ultimately have "a_certs (absOf E (store c3)) (hashOf E (prepare c3)) = None" using absent by simp
  from restart_fails [OF kept this] step show ?thesis by blast
qed

end

section \<open>Synchronized blocks\<close>

text \<open>Two linked blocks do not lock the second while the parent of the first is unknown.\<close>

lemma lock_skipped:
  assumes "GetHeader E (store c) (Header_Parent parent) = Inr gparent" and "GetHeader E (store c) (Header_Parent gparent) = Inl err"
  shows "update E c parent = Inr c"
  using assms by (simp add: update_def)

text \<open>The certificate of a synchronized block is filed under the hash it names, of whatever block that is.\<close>

lemma certificate_misfiled:
  assumes "leveldb E" and "SaveBlock E s b = Inr (Inr s')"
    and "Block_Header b = Some h" "Block_Cert b = Some cert" "Block_Data b = Some data"
    and "Certificate_Size cert < 2 ^ 63" "Certificate_wf cert"
  shows "GetCertificate E s' (Certificate_Block cert) = Inr cert"
proof -
  obtain s1 s2 where s2: "SaveCertificate E s1 cert = Inr s2" and s': "SaveData E s2 (Header_Hash (blake2s E) h) data = Inr s'"
    using assms(2-5) by (auto simp: SaveBlock_def ebind_Inr_Inr_iff)
  have "a_certs (absOf E s') (Certificate_Block cert) = Some cert"
    using arg_cong [OF leveldb.SaveData_frame [OF assms(1) s'], of a_certs]
      leveldb.SaveCertificate_abs [OF assms(1) s2 assms(6,7)] by simp
  then show ?thesis by (simp add: GetCertificate_abs)
qed

section \<open>New-view messages\<close>

text \<open>
  A quorum of new-view messages for a view the replica has left makes it wait for data in a
  view it need not lead.
\<close>

lemma stale_quorum_asks_for_data:
  assumes "getLeader c (NewView_View n + 1) = Inr (cid c)" and "NewView_Cert n = Some cert"
    and "GetHeader E (store c) (Certificate_Block cert) = Inr h" and "Header_View h \<le> Header_View (prepare c)"
    and "Timeouts_Collect (blake2s E) (c_verifier E) (timeouts c) n = Inr (True, ts)" and "t_Cert ts = Some tc"
    and "TimeoutCertificate_View tc < view c" and "view c \<noteq> NewView_View n"
  shows "onNewView E c n = Inr (awaitData (c\<lparr>timeouts := ts, timeoutCert := Some tc\<rparr>))"
  proof -
  have "\<not> Header_View h > Header_View (prepare c)" "\<not> TimeoutCertificate_View tc \<ge> view c" using assms(4,7) by simp_all
  then show ?thesis using assms(1-3,5,6,8) by (simp add: onNewView_def updatePrepare_def syncView_def Let_def)
qed

section \<open>Undecodable messages\<close>

text \<open>What was decoded before an error is passed on to the node as a message.\<close>

lemma undecodable_message_passed:
  assumes "length b < 2 ^ 32" and "Message_Unmarshal Message_zero b = (m, Some err)"
  shows "\<exists>readErr. listenForMessages (augmentByteArrayWithLength b) = Inr ([m], readErr)"
proof -
  have "\<exists>readErr. listenForMessages [] = Inr ([], readErr)"
    by (subst listenForMessages.simps) (simp add: getMessageFromReader_def readFull_def BYTES_ARRAY_PREFIX_LENGTH_def)
  then show ?thesis
    using getMessageFromReader_frame [OF assms(1), of "[]"] assms(2) by (subst listenForMessages.simps) auto
qed

end
