(* ===== verification/Spec2Isabelle.thy ===== *)
theory Spec2Isabelle
  imports ExampleChain ExampleView ExampleSynchrony ExampleConnection Ledger Launch Chat Defects
begin

text \<open>
  A verification of \<^verbatim>\<open>go-hotstuff\<close> (chained HotStuff in Go, package \<^verbatim>\<open>hotstuff\<close>) and of the
  programs \<^verbatim>\<open>hotstuff-node\<close> and \<^verbatim>\<open>node\<close> that deploy it over TCP.

  \<^bold>\<open>The program.\<close> A replica is the module \<^verbatim>\<open>consensus\<close> (\<^verbatim>\<open>consensus.go\<close>): a state machine that
  handles one message, tick or batch of data at a time, writes to a block store
  (\<^verbatim>\<open>store.go\<close>, over goleveldb), signs and verifies with BLS signatures (\<^verbatim>\<open>crypto/\<close>),
  collects votes and time-outs into certificates (\<^verbatim>\<open>utils.go\<close>) and accumulates what it wants
  to tell the world in \<^verbatim>\<open>Progress\<close> (\<^verbatim>\<open>progress.go\<close>). A \<^verbatim>\<open>Node\<close> (\<^verbatim>\<open>node.go\<close>) runs the module
  in an event loop and exchanges everything with the application over channels.
  \<^verbatim>\<open>hotstuff-node/\<close> is an application: it builds the node from a common seed, encodes its
  messages (\<^verbatim>\<open>types/types.pb.go\<close>) in length-prefixed frames, sends them to the other
  processes over TCP and feeds the node with what arrives. \<^verbatim>\<open>node/\<close> is an earlier experiment
  with the connections alone.

  \<^bold>\<open>The theories.\<close>
  \<^item> \<open>Prelude\<close>: results with the ways a Go process stops (\<open>crash\<close>: panics, \<^verbatim>\<open>log.Fatal\<close>),
    their bind, nil dereferences, shared lemmas on words and lists.
  \<^item> \<open>Wire\<close>, \<open>Types\<close>: \<^verbatim>\<open>types/types.pb.go\<close>. Varints, tags, the unmarshal loop and its errors
    once, then the thirteen messages with \<^verbatim>\<open>Size\<close>, \<^verbatim>\<open>Marshal\<close>, \<^verbatim>\<open>MarshalToSizedBuffer\<close> and
    \<^verbatim>\<open>Unmarshal\<close>, each an interpretation of the locale \<open>wire_codec\<close>, which proves sizes and
    round trips for all of them.
  \<^item> \<open>Encoding\<close>, \<open>Store\<close>, \<open>Ledger\<close>: \<^verbatim>\<open>encoding.go\<close>, \<^verbatim>\<open>types/hash.go\<close> and \<^verbatim>\<open>store.go\<close>. The
    locale \<open>leveldb\<close> holds the laws of the database; the store is shown to implement six maps
    (\<open>absOf\<close>), and the chain iterator to walk parents.
  \<^item> \<open>Crypto\<close>, \<open>Progress\<close>, \<open>Collectors\<close>, \<open>Genesis\<close>: \<^verbatim>\<open>crypto/\<close>, \<^verbatim>\<open>progress.go\<close>, \<^verbatim>\<open>utils.go\<close>.
    The pairing library is a parameter with the laws of the locale for it.
  \<^item> \<open>Consensus\<close>: every function of \<^verbatim>\<open>consensus.go\<close> on the record \<open>consensus\<close>. \<^verbatim>\<open>nextRound\<close>
    and \<^verbatim>\<open>sendMsg\<close> call each other through \<^verbatim>\<open>Step\<close>; the model passes the inner step as an
    argument and ties the knot at the only depth the code reaches: a handler sends votes
    and new-views, and handling these sends nothing.
  \<^item> \<open>Actions\<close>: a handler decomposes into atomic moves (\<open>move\<close>, \<open>acts\<close>). \<open>Safety\<close>,
    \<open>Durability\<close>, \<open>Quorums\<close> and \<open>Finality\<close> reason about moves only: views and locks grow, votes are
    checked and never repeated, three-chains are final; the store always holds enough for a
    restart (\<open>replicaInv\<close>); certificates list a quorum; three certified blocks in a row
    commit. \<open>Totality\<close>: the handlers return. \<open>Rounds\<close>: the view of a timely proposal, from the
    votes of a quorum to the leader that has it certified, and a chain of such proposals.
    \<open>Synchrony\<close>: the network in lock step (\<open>lockstep\<close>), view after view from the genesis
    block: the leader's \<^verbatim>\<open>Send\<close>, its broadcast handled by the others, their votes handled by
    the next leader; a locale holds what the replicas have in common, and nodes with BLS
    keys are shown to satisfy it. \<open>Defects\<close>: places where the code does less than the protocol asks for.
  \<^item> \<open>Ballots\<close>, \<open>Agreement\<close>: agreement among several replicas. \<open>Ballots\<close> is the argument on
    votes and quorums, without code; \<open>Agreement\<close> runs the code of the honest replicas against
    an adversary and shows that every execution yields such ballots.
  \<^item> \<open>Node\<close>, \<open>Streams\<close>: \<^verbatim>\<open>node.go\<close>. The event loop as a step relation whose labels are the
    cases it takes; over whole runs nothing is lost or reordered on the way to the
    application.
  \<^item> \<open>Deployment\<close>, \<open>Connections\<close>, \<open>Startup\<close>, \<open>Launch\<close>, \<open>Application\<close>, \<open>Sessions\<close>: \<^verbatim>\<open>hotstuff-node/\<close>.
    Frames and message loops; the exchange of indices; addresses and dialling;
    \<^verbatim>\<open>createExampleNode\<close>; the goroutine of \<^verbatim>\<open>entryPoint\<close> beside the node's loop and the
    connections; a connection as a state machine of its two goroutines and their context,
    and accepting. \<open>Rollout\<close>: the nodes of \<^verbatim>\<open>createExampleNode\<close> as a network in lock step.
    \<open>Decoding\<close>: what the decoder guarantees of any bytes, by an invariant of the
    unmarshal loop. \<open>Chat\<close>: \<^verbatim>\<open>node/\<close>.
  \<^item> \<open>Example\<close>, \<open>ExampleProgram\<close>, \<open>ExampleChain\<close>, \<open>ExampleView\<close>, \<open>ExampleSynchrony\<close>,
    \<open>ExampleConnection\<close>: four replicas with an in-memory store, a
    transparent signature scheme and a digest that copies, at which the theorems are applied.

  \<^bold>\<open>State and operations.\<close> A struct is a record with the source's fields, a nil pointer is
  \<open>None\<close>, machine integers are words, so views wrap as in Go. A function that may stop the
  process returns \<open>'a result\<close>; an error that Go returns is a value beside it. A mutable
  argument is returned updated. A Go channel is a list bounded by its capacity; a blocked
  send or receive is a step that is not possible. Which goroutine runs next, and which ready
  case a \<^verbatim>\<open>select\<close> takes, is free: the theorems hold for every choice.

  \<^bold>\<open>What is shown.\<close> Agreement between honest replicas (C1) and of a replica with its own past,
  across restarts (C2, C3); what a vote was checked for (C4); that exactly three-chains become
  final (C5, C6), that a quorum in lock step commits all but its last three blocks (C7), the
  nodes of the example deployment in particular (C8), and that any view that goes well is
  certified (C9); the invariant, restart and first start (C10 to C12); that handlers return (C13, C14); what
  certificates contain (C15, C16); the store as six maps and the encodings (C17, C18, C36,
  C37); the deployed program and its connections, end to end from one node to another (C19 to
  C24, C38 to C40); behaviour of single operations (C25, C26). C27 to C35
  state how the code fails: a repeated voter counts twice, unread reports silence the node, an
  unverified certificate prevents the next start, the confirmations nobody reads or a single
  broken connection stop the program, a peer's index, an error of \<^verbatim>\<open>Accept\<close> or an incomplete
  message stops it at once, and the time-out disappears after 64 views.

  \<^bold>\<open>Assumptions.\<close> Hypotheses are the locales of the parameters: \<open>leveldb\<close> (a read returns the last
  write), \<open>replica\<close> (also: digests have 32 bytes), \<open>running\<close> (also: writes succeed and the
  signer signs digests), \<open>certifying\<close> (a merged signature verifies), \<open>launch\<close> (short signatures),
  \<open>synchronous\<close> (a quorum with one digest, one verifier and the keys it knows).
  All are interpreted on the example's concrete functions. Encodings are assumed shorter
  than \<open>2\<^sup>6\<^sup>3\<close> bytes. C1 assumes in addition, in the locale \<open>network\<close>: fewer than a third of the replicas
  are faulty; headers that occur do not collide; a verifier accepts only signatures that
  exist (\<open>idealVerifier\<close>) for quorums of different voters, which C27 shows the code's own
  verifier does not ensure; and blocks are synchronized only once their parent is known,
  without which \<^verbatim>\<open>update\<close> skips the lock. No fuel is used anywhere: every loop of the model
  recurses on its input, with a termination proof where that is not structural.

  \<^bold>\<open>Not modelled.\<close> Logging and printing, hence also that the logger \<^verbatim>\<open>vlog\<close> is nil until
  \<^verbatim>\<open>Start\<close> has run, while the event loop may take a message first; \<^verbatim>\<open>OpenDB\<close>, which nothing
  calls, like \<^verbatim>\<open>collectMessages\<close> of \<^verbatim>\<open>hotstuff-node/main.go\<close>; the helper \<^verbatim>\<open>must\<close> there, which
  is written out where it is used; sockets, of which only the bytes and the outcomes of \<^verbatim>\<open>Accept\<close>, \<^verbatim>\<open>Dial\<close> and \<^verbatim>\<open>Write\<close>
  enter the model; parsing of flags; the getters, registration and reflection code of
  \<^verbatim>\<open>types.pb.go\<close>; \<^verbatim>\<open>old_node/\<close> (commented out) and the scripts that plot measurements. Structs
  with one field (\<^verbatim>\<open>BlockStore\<close>, \<^verbatim>\<open>BLS12381Signer\<close>, \<^verbatim>\<open>Replica\<close>) are their field. Certificates are
  values: that a queued proposal shares its time-out certificate with the replica's state is
  not represented. A connection owns the channel it takes messages from: a second connection
  to the same peer, which the addresses of the deployment do not lead to, is not considered.
\<close>

section \<open>Agreement\<close>



section \<open>Agreement of a replica with itself\<close>

lemma run_commitments:
  assumes "replica (nodeEnv B db priv conf)" and "intact (nodeEnv B db priv conf) s"
    and "NewNode B db s priv conf = Inr n" and "run (nodeEnv B db priv conf) call n tr n'"
    and "list_all smallEvent tr"
  shows "ascends (voted (n_consensus n)) (commitments (delivered tr) @ commitments (outbox n')) (voted (n_consensus n'))"
    and "replicaInv (nodeEnv B db priv conf) (n_consensus n')"
  using replica.run_streams [OF assms(1,4,5)] NewNode_start [OF assms(1-3)] by auto

text \<open>
  C2. Over any run of a node, from its construction on a store whose headers are filed under
  their hashes, the votes and new-view messages delivered to the network carry strictly
  increasing views, all above the view the store had recorded as voted: a replica never
  votes twice in a view, and never votes in a view it has given up.
\<close>

theorem no_double_vote:
  assumes "replica (nodeEnv B db priv conf)" and "intact (nodeEnv B db priv conf) s"
    and "NewNode B db s priv conf = Inr n" and "run (nodeEnv B db priv conf) call n tr n'"
    and "list_all smallEvent tr"
  shows "sorted_wrt (<) (commitments (delivered tr)) \<and>
    (\<forall>v\<in>set (commitments (delivered tr)). voted (n_consensus n) < v \<and> v \<le> voted (n_consensus n'))"
  using run_commitments(1) [OF assms] by (auto simp: ascends_def sorted_wrt_append)

theorem no_double_vote_witness:
  "replica exEnv \<and> intact exEnv exStore \<and> NewNode symBLS (memEnv copy32) exStore 1 exConf = Inr (nodeOf exReplica) \<and>
    (\<exists>n. run exEnv call (nodeOf exReplica) [Received (NewProposalMsg exProposal), Delivered exDelivery] n \<and>
      commitments exDelivery = [3] \<and> sorted_wrt (<) (commitments exDelivery) \<and>
      (\<forall>v\<in>set (commitments exDelivery). 2 < v \<and> v \<le> voted (n_consensus n)))"
proof -
  obtain n where n: "run exEnv call (nodeOf exReplica) [Received (NewProposalMsg exProposal), Delivered exDelivery] n"
    by (rule ex_run)
  have intact: "intact exEnv exStore" using ex_first(2) by (simp add: replicaInv_def exReplica_def)
  note env = exEnv_replica intact
  have "sorted_wrt (<) (commitments exDelivery) \<and>
      (\<forall>v\<in>set (commitments exDelivery). 2 < v \<and> v \<le> voted (n_consensus n))"
    using no_double_vote [OF env [unfolded exEnv_def] ex_node n [unfolded exEnv_def]] ex_small
    by (simp add: nodeOf_def exReplica_def)
  moreover have "commitments exDelivery = [3]" by (simp add: exDelivery_def exVote_def)
  ultimately show ?thesis using n env ex_node by blast
qed

text \<open>
  C3. The same across a restart: what a node delivers after it was rebuilt from the store it
  left behind continues the strictly increasing sequence of what it delivered before.
\<close>

theorem no_double_vote_after_restart:
  assumes "replica (nodeEnv B db priv conf)" and "intact (nodeEnv B db priv conf) s"
    and "NewNode B db s priv conf = Inr n" and "run (nodeEnv B db priv conf) call n tr n'"
    and "NewNode B db (Node_Store n') priv conf = Inr m" and "run (nodeEnv B db priv conf) call m tr' m'"
    and "list_all smallEvent (tr @ tr')"
  shows "sorted_wrt (<) (commitments (delivered tr @ delivered tr'))"
proof -
  have small: "list_all smallEvent tr" "list_all smallEvent tr'" using assms(7) by simp_all
  note first = run_commitments [OF assms(1-4) small(1)]
  have intact: "intact (nodeEnv B db priv conf) (store (n_consensus n'))" using first(2) by (simp add: replicaInv_def)
  note second = run_commitments(1) [OF assms(1) intact assms(5) [unfolded Node_Store_def] assms(6) small(2)]
  have "voted (n_consensus m) = voted (n_consensus n')"
  proof -
    obtain i rs where "newConsensus (nodeEnv B db priv conf) (store (n_consensus n')) i rs = Inr (n_consensus m)"
      using NewNode_start [OF assms(1) intact assms(5) [unfolded Node_Store_def]] by blast
    then show ?thesis
      using replica.newConsensus_fields(2) [OF assms(1)] first(2) by (simp add: replicaInv_def persisted_def)
  qed
  with first(1) second have "ascends (voted (n_consensus n'))
      (commitments (delivered tr') @ commitments (outbox m')) (voted (n_consensus m'))" by simp
  from ascends_trans [OF ascends_prefix [OF first(1)] ascends_prefix [OF this]]
  show ?thesis by (simp add: ascends_def)
qed

theorem no_double_vote_after_restart_witness:
  "\<exists>n m. run exEnv call (nodeOf exReplica) [Received (NewProposalMsg exProposal), Delivered exDelivery] n \<and>
    NewNode symBLS (memEnv copy32) (Node_Store n) 1 exConf = Inr m \<and> run exEnv call m [] m \<and>
    sorted_wrt (<) (commitments (exDelivery @ []))"
proof -
  obtain n where n: "run exEnv call (nodeOf exReplica) [Received (NewProposalMsg exProposal), Delivered exDelivery] n"
    and c: "n_consensus n = exVoted\<lparr>progress := Progress_zero\<rparr>" by (rule ex_run)
  have intact: "intact exEnv exStore" using ex_first(2) by (simp add: replicaInv_def exReplica_def)
  obtain c' where "newConsensus exEnv (store exVoted) 0 [0, 1, 2, 3] = Inr c'"
    using replica.restart [OF exEnv_replica ex_voted_inv, of exCert 0 "[0, 1, 2, 3]"] ex_vote(4) ex_cert by (auto simp: exHash_def)
  then have m: "NewNode symBLS (memEnv copy32) (Node_Store n) 1 exConf = Inr (nodeOf c')"
    unfolding exEnv_def by (simp add: c Node_Store_def NewNode_def exConf_def replicaIds_def upt_rec)
  have here: "run exEnv call (nodeOf c') [] (nodeOf c')" by (rule run.here)
  note env = exEnv_replica intact
  show ?thesis
    using no_double_vote_after_restart [OF env [unfolded exEnv_def] ex_node n [unfolded exEnv_def] m here [unfolded exEnv_def]]
      ex_small n m here by auto
qed

text \<open>
  C4. A message makes a replica vote only for a header it has stored, proposed in the view
  the replica is in and signed by that view's leader, whose parent carries an accepted
  certificate and is safe with respect to the lock, once the lock has caught up with the
  chain below; the vote names that header and is signed by the replica. The state at which
  all of this holds lies between the states before and after the message, so the lock it is
  compared with is no lower than the one before.
\<close>

theorem vote_is_checked:
  assumes "replica E" and "Step E msg c = Inr c'" and "smallMessage msg" and "emits c ms c'"
    and "m \<in> set ms" and "MsgTo_Message m = NewVoteMsg v"
  shows "\<exists>d h. acts E c d \<and> acts E d c' \<and> Header_View (locked c) \<le> Header_View (locked d) \<and>
    voteChecked E d h \<and> voteFor E (cid c) h v"
proof -
  have "acts E c c'" by (rule replica.Step_acts [OF assms(1-3)])
  then obtain d h where "acts E c d" "acts E d c'" "voteChecked E d h" "voteFor E (cid c) h v"
    using acts_vote [OF _ assms(4-6)] by blast
  then show ?thesis using acts_grows [of E c d] by (auto simp: grows_def)
qed

theorem vote_is_checked_witness:
  "\<exists>d h. Step exEnv (NewProposalMsg exProposal) exReplica = Inr exVoted \<and>
    acts exEnv exReplica d \<and> acts exEnv d exVoted \<and>
    voteChecked exEnv d h \<and> voteFor exEnv 0 h (exVote 0)"
  using vote_is_checked [OF exEnv_replica ex_vote(1) ex_small, of exDelivery "hd exDelivery" "exVote 0"] ex_vote(1,2)
  by (auto simp: emits_def exReplica_def Progress_zero_def exDelivery_def)

text \<open>
  C5. Every block a node announces as final, over any run, is the tail of a chain of three
  blocks in consecutive views whose head is certified, and final blocks are announced in
  strictly increasing views, above the block that was final at the start.
\<close>

theorem final_blocks_three_chain:
  assumes "replica (nodeEnv B db priv conf)" and "intact (nodeEnv B db priv conf) s"
    and "NewNode B db s priv conf = Inr n" and "run (nodeEnv B db priv conf) call n tr n'"
    and "list_all smallEvent tr"
  shows "list_all (threeChain (nodeEnv B db priv conf)) (finalHeaders (announced tr)) \<and>
    sorted_wrt (<) (map Header_View (finalHeaders (announced tr))) \<and>
    (\<forall>h\<in>set (finalHeaders (announced tr)). Header_View (commit (n_consensus n)) < Header_View h)"
proof -
  obtain bs where "announced tr @ newsbox n' = bs" and "list_all (threeChain (nodeEnv B db priv conf)) (finalHeaders bs)"
    and "ascends (Header_View (commit (n_consensus n))) (map Header_View (finalHeaders bs)) (Header_View (commit (n_consensus n')))"
    using replica.run_streams [OF assms(1,4,5)] NewNode_start [OF assms(1-3)] by auto
  then show ?thesis by (auto simp: ascends_def sorted_wrt_append)
qed

theorem final_blocks_three_chain_witness:
  "\<exists>n bs. run exEnv call (nodeOf exReplica) [Received exSync, BlocksOut bs] n \<and> finalHeaders bs \<noteq> [] \<and>
    list_all (threeChain exEnv) (finalHeaders bs) \<and> (\<forall>h\<in>set (finalHeaders bs). 2 < Header_View h)"
proof -
  obtain n bs where n: "run exEnv call (nodeOf exReplica) [Received exSync, BlocksOut bs] n" and bs: "finalHeaders bs \<noteq> []"
    by (rule exSync_run)
  have intact: "intact exEnv exStore" using ex_first(2) by (simp add: replicaInv_def exReplica_def)
  note env = exEnv_replica intact
  show ?thesis
    using final_blocks_three_chain [OF env [unfolded exEnv_def] ex_node n [unfolded exEnv_def]] exSync_small n bs
    by (auto simp: exEnv_def nodeOf_def exReplica_def exGenesisHeader_def)
qed

text \<open>
  C6. A replica that learns three certified blocks in consecutive views, each the parent of
  the next, commits the first of them unless it has committed something at least as high
  before, and whenever its committed block changes the new one is announced as final.
\<close>

theorem three_chain_is_committed:
  assumes "running E" and "sane c"
    and "fullBlock E b1 h1" "fullBlock E b2 h2" "fullBlock E b3 h3"
    and "Header_Parent h2 = hashOf E h1" "Header_Parent h3 = hashOf E h2"
    and "Header_View h2 = Header_View h1 + 1" "Header_View h3 = Header_View h2 + 1"
    and "Header_View h1 < Header_View h2" "Header_View h2 < Header_View h3"
    and "distinct [hashOf E h1, hashOf E h2, hashOf E h3]"
  shows "\<exists>c'. Step E (NewSyncMsg [b1, b2, b3]) c = Inr c' \<and> Header_View h1 \<le> Header_View (commit c') \<and>
    (commit c' = commit c \<or> commit c' \<in> set (finalized (progress c')))"
proof -
  obtain c' where c': "syncBlocks E c [b1, b2, b3] = Inr c'" "Header_View h1 \<le> Header_View (commit c')"
    using running.three_chain_commits [OF assms] by blast
  then have step: "Step E (NewSyncMsg [b1, b2, b3]) c = Inr c'" by (simp add: Step_def dispatch_def msg_defs onSync_def)
  have "smallMessage (NewSyncMsg [b1, b2, b3])"
    using assms(3-5) by (simp add: smallMessage_def msg_defs smallBlock_def fullBlock_def)
  then have "acts E c c'" using replica.Step_acts [OF _ step] assms(1) by (simp add: running_def)
  then show ?thesis using step c'(2) acts_announces by blast
qed

theorem three_chain_is_committed_witness:
  "\<exists>c. Step exEnv exSync exReplica = Inr c \<and> 3 \<le> Header_View (commit c) \<and>
    (commit c = exGenesisHeader \<or> commit c \<in> set (finalized (progress c)))"
  using three_chain_is_committed [OF exEnv_running ex_sane ex_chain _ _ _ _ ex_chain_hashes]
  by (simp add: exSync_def exReplica_def)

text \<open>
  C7. Good views commit. A quorum of nodes with BLS keys has imported a certified genesis
  block and started. In each of the following views the leader, one of them, proposes the
  data it is given, the others handle the proposal, and the leader of the next view handles
  their votes, in any order. Then every call returns, and after three views or more every one
  of them has committed all but the last three blocks. Views stay below \<open>2 ^ 64\<close> and
  the hashes of the blocks are distinct.
\<close>

theorem good_views_commit:
  assumes "bls B" and "\<forall>i \<in> set Q. running (nodeEnv B (db i) (priv i) conf) \<and> blake2s (db i) = H \<and>
      i < of_nat (length (conf_Replicas conf)) \<and> conf_Replicas conf ! unat i = bls_PublicKeyFromSecretKey B (priv i)"
    and "length rs = length (conf_Replicas conf)" and "distinct Q" and "majorityOf rs \<le> length Q" and "2 \<le> length rs"
    and start: "\<forall>i \<in> set Q. genesisBlock (nodeEnv B (db i) (priv i) conf) b h \<and> launched (nodeEnv B (db i) (priv i) conf) rs b h i (g i)"
    and fit: "fitting rs Q (Header_View h + 1) vs" "3 \<le> length vs"
    and more: "distinct (map (Header_Hash H) (chainOf H (map fst vs) [h]))" "unat (Header_View h) + length vs + 1 < 2 ^ 64"
  shows "\<exists>g'. locksteps (\<lambda>i. nodeEnv B (db i) (priv i) conf) rs Q (Header_View h + 1) vs g = Inr g' \<and>
    (\<forall>i \<in> set Q. unat (Header_View h) + length vs \<le> unat (Header_View (commit (g' i))) + 3)"
proof -
  note net = synchronous_bls [OF assms(1-6)]
  have "leaderOf rs (Header_View h + 1) \<in> set Q" using fit by (cases vs) auto
  then show ?thesis
    using synchronous.locksteps_commit [OF net synchronous.launched_synced [OF net start] fit more] by blast
qed

theorem good_views_commit_witness:
  "\<exists>g g'. (\<forall>i \<in> set [0, 1, 2, 3]. launched (exEnvOf i) [0, 1, 2, 3] exGenesis exGenesisHeader i (g i)) \<and>
    locksteps exEnvOf [0, 1, 2, 3] [0, 1, 2, 3] 3 exViews g = Inr g' \<and>
    (\<forall>i \<in> set [0, 1, 2, 3]. 3 \<le> unat (Header_View (commit (g' i))))"
proof -
  obtain g where g: "launched (exEnvOf i) [0, 1, 2, 3] exGenesis exGenesisHeader i (g i)" for i using ex_launched by metis
  have start: "\<forall>i \<in> set [0, 1, 2, 3]. genesisBlock (exEnvOf i) exGenesis exGenesisHeader \<and>
      launched (exEnvOf i) [0, 1, 2, 3] exGenesis exGenesisHeader i (g i)" using g ex_genesisBlock by blast
  have small: "length [0 :: uint64, 1, 2, 3] = length (conf_Replicas exConf)" "distinct [0 :: uint64, 1, 2, 3]"
    "majorityOf [0 :: uint64, 1, 2, 3] \<le> length [0 :: uint64, 1, 2, 3]" "2 \<le> length [0 :: uint64, 1, 2, 3]"
    by (simp_all add: majorityOf_def exConf_def)
  have four: "3 \<le> length exViews" "unat (Header_View exGenesisHeader) + length exViews + 1 < 2 ^ 64"
    by (simp_all add: exViews_def exGenesisHeader_def)
  have "Header_View exGenesisHeader + 1 = 3" "unat (Header_View exGenesisHeader) + length exViews = 6"
    by (simp_all add: exViews_def exGenesisHeader_def)
  then obtain g' where "locksteps exEnvOf [0, 1, 2, 3] [0, 1, 2, 3] 3 exViews g = Inr g'"
    and "\<forall>i \<in> set [0, 1, 2, 3]. 6 \<le> unat (Header_View (commit (g' i))) + 3"
    using good_views_commit [OF symBLS.bls_axioms ballI [OF ex_keys] small start [unfolded exEnvOf_def] ex_fitting four(1)
        ex_views_hashes [folded ex_views_chain] four(2), folded exEnvOf_def] by (simp only:) blast
  then show ?thesis using g by (intro exI [of "\<lambda>g. \<exists>g'. _ g g'" g] exI [of _ g']) auto
qed

text \<open>
  C8. The example deployment commits. From a common seed that yields different keys,
  \<^verbatim>\<open>createExampleNode\<close> makes and \<^verbatim>\<open>Start\<close> starts the nodes of a quorum; when they go
  through three or more views in lock step, from view one on, everything returns and each of
  them has committed all but the last three blocks. The hashes of the blocks are distinct.
\<close>

theorem example_deployment_commits:
  assumes "launch E B" and "rngRead 32 rng = (root, rng')" and "length root < 2 ^ 32"
    and "fst (GenerateKeys B rand rng' n) = Inr (pubs, privs)" and "2 \<le> n" and "n < 2 ^ 32"
    and "distinct pubs" and "\<forall>k. \<exists>e. GetHeader E db k = Inl e"
    and "distinct Q" and "set Q \<subseteq> set (replicaIds pubs)" and "majorityOf (replicaIds pubs) \<le> length Q"
    and "fitting (replicaIds pubs) Q 1 vs" and "3 \<le> length vs" and "length vs + 1 < 2 ^ 64"
    and "distinct (map (Header_Hash (blake2s E)) (chainOf (blake2s E) (map fst vs) [Header_zero\<lparr>Header_DataRoot := root\<rparr>]))"
  shows "\<exists>node g g'. (\<forall>i \<in> set Q. createExampleNode B E rngRead rand (Inr db) rng (unat i) n = Inr (node i) \<and>
      Start (memberEnv B E pubs privs i) (n_consensus (node i)) = Inr (g i)) \<and>
    locksteps (memberEnv B E pubs privs) (replicaIds pubs) Q 1 vs g = Inr g' \<and>
    (\<forall>i \<in> set Q. length vs \<le> unat (Header_View (commit (g' i))) + 3)"
  using launch.members_commit [OF assms(1), of rngRead rng root rng' rand n pubs privs db Q vs] assms(2-) by blast

theorem example_deployment_commits_witness:
  "\<exists>node g g'. (\<forall>i \<in> set [0, 1, 2, 3]. createExampleNode sumBLS (memEnv copy32) (\<lambda>n r. (replicate n r, r)) (\<lambda>r. (Inr r, r + 1))
        (Inr memDB) 5 (unat i) 4 = Inr (node i) \<and>
      Start (memberEnv sumBLS (memEnv copy32) [5, 6, 7, 8] [5, 6, 7, 8] i) (n_consensus (node i)) = Inr (g i)) \<and>
    locksteps (memberEnv sumBLS (memEnv copy32) [5, 6, 7, 8] [5, 6, 7, 8]) [0, 1, 2, 3] [0, 1, 2, 3] 1 exFirstViews g = Inr g' \<and>
    (\<forall>i \<in> set [0, 1, 2, 3]. 4 \<le> unat (Header_View (commit (g' i))) + 3)"
proof -
  have keys: "fst (GenerateKeys sumBLS (\<lambda>r. (Inr r, r + 1)) 5 4) = Inr ([5, 6, 7, 8], [5, 6, 7, 8])"
    by (simp add: numeral_eq_Suc GenerateKey_def sumBLS_def)
  have empty: "\<forall>k. \<exists>e. GetHeader (memEnv copy32) memDB k = Inl e"
    by (simp add: GetHeader_def dbGet_def memEnv_def memDB_def)
  have ids: "replicaIds [5, 6, 7, 8 :: byte] = [0, 1, 2, 3]" by (simp add: replicaIds_def upt_rec)
  have H: "blake2s (memEnv copy32) = copy32" by (simp add: memEnv_def)
  have views: "length exFirstViews = 4" by (simp add: exFirstViews_def)
  show ?thesis
    using example_deployment_commits [OF memlaunch.launch_axioms, of "\<lambda>n r. (replicate n r, r)" 5 "replicate 32 5" 5
        "\<lambda>r. (Inr r, r + 1)" 4 "[5, 6, 7, 8]" "[5, 6, 7, 8]" memDB "[0, 1, 2, 3]" exFirstViews, unfolded ids H views,
        OF refl _ keys _ _ _ empty _ _ _ ex_first_fitting _ _ ex_first_hashes [unfolded exRoot_def]]
    by (simp add: majorityOf_def)
qed

text \<open>
  C9. A view that goes well is certified: when a quorum of replicas, the leader of the next
  view among them, gets a proposal on the highest certified block they know, each of them
  handles it, sending its vote to that leader and nothing else, and once the leader has
  handled the votes of the others, in whatever order they are listed, it has the block
  certified, is in the next view and asks for data to propose there.
\<close>

theorem honest_view_certifies:
  assumes "\<forall>i \<in> set (j # is). attending (E i) (g i) H rs i p h parent" and "getLeader (g j) (Header_View h + 1) = Inr j"
    and "\<forall>i \<in> set (j # is). \<forall>sig. c_signer (E i) [] (Header_Hash H h) = Inr sig \<longrightarrow>
      v_Verify (c_verifier (E j)) i (Header_Hash H h) sig"
    and "distinct (j # is)" and "is \<noteq> []" and "vt_majority (votes (g j)) = length (j # is)"
  shows "\<exists>g' v c'. (\<forall>i \<in> set (j # is). Step (E i) (NewProposalMsg p) (g i) = Inr (g' i) \<and>
      emits (g i) [\<lparr>Recipients = Some [j], MsgTo_Message = NewVoteMsg (v i)\<rparr>] (g' i)) \<and>
    steps (E j) (map (\<lambda>i. NewVoteMsg (v i)) is) (g' j) = Inr c' \<and> prepare c' = h \<and> view c' = Header_View h + 1 \<and>
    waitingData c' \<and> Progress_WaitingData (progress c')"
  by (rule attended_view_certifies [OF assms])

theorem honest_view_certifies_witness:
  "\<exists>g' v c'. (\<forall>i \<in> set [0, 2, 1]. Step (exEnvOf i) (NewProposalMsg exProposal) (exReplicaOf i) = Inr (g' i)) \<and>
    steps (exEnvOf 0) (map (\<lambda>i. NewVoteMsg (v i)) [2, 1 :: uint64]) (g' 0) = Inr c' \<and> prepare c' = exHeader \<and> view c' = 4 \<and> waitingData c'"
proof -
  have att: "\<forall>i \<in> set [0, 2, 1]. attending (exEnvOf i) (exReplicaOf i) copy32 [0, 1, 2, 3] i exProposal exHeader exGenesisHeader"
    using ex_attending by blast
  have lead: "getLeader (exReplicaOf 0) (Header_View exHeader + 1) = Inr 0"
    by (simp add: getLeader_def exReplicaOf_def exReplica_def exHeader_def)
  have sigs: "\<forall>i \<in> set [0, 2, 1]. \<forall>sig. c_signer (exEnvOf i) [] (Header_Hash copy32 exHeader) = Inr sig \<longrightarrow>
      v_Verify (c_verifier (exEnvOf 0)) i (Header_Hash copy32 exHeader) sig"
    using ex_signs_verify by auto
  have "vt_majority (votes (exReplicaOf 0)) = length [0, 2, 1 :: uint64]"
    by (simp add: exReplicaOf_def exReplica_def NewVotes_def)
  from honest_view_certifies [OF att lead sigs _ _ this]
  obtain g' v c' where "\<forall>i \<in> set [0, 2, 1]. Step (exEnvOf i) (NewProposalMsg exProposal) (exReplicaOf i) = Inr (g' i)"
    and "steps (exEnvOf 0) (map (\<lambda>i. NewVoteMsg (v i)) [2, 1 :: uint64]) (g' 0) = Inr c'" "prepare c' = exHeader"
      "view c' = Header_View exHeader + 1" "waitingData c'" by fastforce
  moreover have "Header_View exHeader + 1 = 4" by (simp add: exHeader_def)
  ultimately show ?thesis by metis
qed

text \<open>
  C10. Every message, tick and proposal keeps the replica's invariant: headers are filed under
  their hashes; the stored views and tags are the replica's own; the vote collector is idle
  or collects for the header voted for in the current view; the new-view collector has a
  certificate to extend.
\<close>

theorem invariant_kept:
  assumes "replica E" and "replicaInv E c"
    and "Step E msg c = Inr c' \<and> smallMessage msg \<or> Tick E c = Inr c' \<or> Start E c = Inr c' \<or>
      Send E state root data c = Inr c' \<and> length state + length root < 2 ^ 62"
  shows "replicaInv E c'"
proof -
  have "acts E c c'"
    using assms(3) replica.Step_acts [OF assms(1)] replica.Tick_acts [OF assms(1)] replica.Start_acts [OF assms(1)]
      replica.Send_acts [OF assms(1)] by blast
  then show ?thesis by (rule replica.acts_replicaInv [OF assms(1) _ assms(2)])
qed

theorem invariant_kept_witness: "replicaInv exEnv exReplica \<and> replicaInv exEnv exVoted"
  using invariant_kept [OF exEnv_replica ex_first(2), of "NewProposalMsg exProposal" exVoted] ex_vote(1) ex_small ex_first(2)
  by blast



text \<open>
  C12. A node that starts for the first time: after the genesis block was imported into a
  store that did not know it, the replica is in the view after the genesis block, has voted
  for it, and has it certified, locked and committed.
\<close>

theorem first_start:
  assumes "replica E" and "ImportGenesis E s g = Inr (Inr s')" and "Block_Header g = Some h" and "Block_Cert g = Some cert"
    and "GetHeader E s (hashOf E h) = Inl e" and "Header_Size h < 2 ^ 63"
    and "Certificate_Size cert < 2 ^ 63" and "Certificate_wf cert" and "Certificate_Block cert = hashOf E h"
    and "intact E s"
  shows "\<exists>c. newConsensus E s' i rs = Inr c \<and> view c = Header_View h + 1 \<and> voted c = Header_View h \<and>
    prepare c = h \<and> locked c = h \<and> commit c = h \<and> prepareCert c = cert \<and> replicaInv E c"
  by (rule replica.ImportGenesis_start [OF assms])

theorem first_start_witness:
  "\<exists>c. newConsensus exEnv exStore 0 [0, 1, 2, 3] = Inr c \<and> view c = 3 \<and> voted c = 2 \<and> prepare c = exGenesisHeader \<and>
    prepareCert c = exCert \<and> replicaInv exEnv c"
  using first_start [OF exEnv_replica ex_import, of exGenesisHeader exCert _ 0 "[0, 1, 2, 3]"] ex_sizes ex_empty ex_intact
  by (auto simp: exGenesis_def exCert_def exHash_def exGenesisHeader_def Header_zero_def)



text \<open>
  C14. Neither does the clock: \<^verbatim>\<open>Tick\<close> and \<^verbatim>\<open>Start\<close> return, so the panic of \<^verbatim>\<open>Timeouts.Start\<close>
  is never reached.
\<close>

theorem clock_returns:
  assumes "running E" and "replicaInv E c" and "replicas c \<noteq> []"
  shows "(\<exists>c'. Tick E c = Inr c') \<and> (\<exists>c'. Start E c = Inr c')"
  using running.runs_Tick [OF assms(1) replicaInv_sane [OF assms(2,3)]]
    running.runs_Start [OF assms(1) replicaInv_sane [OF assms(2,3)]] by (auto simp: runs_def)

theorem clock_returns_witness: "(\<exists>c'. Tick exEnv exReplica = Inr c') \<and> (\<exists>c'. Start exEnv exReplica = Inr c')"
  by (rule clock_returns [OF exEnv_running ex_first(2)]) (simp add: exReplica_def)

section \<open>Quorums\<close>

text \<open>
  C15. When a vote lets a reachable replica raise its certified block, the certificate it made
  names that block, is accepted by \<^verbatim>\<open>VerifyAggregated\<close>, and lists a quorum of different
  voters.
\<close>

theorem vote_certificate:
  assumes "replica E" and "bls B" and "c_verifier E = NewBLS12381Verifier B (majorityOf rs) pks"
    and "intact E s" and "newConsensus E s i rs = Inr c0" and "acts E c0 c"
    and "onVote E c v = Inr c'" and "prepare c' \<noteq> prepare c"
  shows "\<exists>a. prepareCert c' = \<lparr>Certificate_Block = hashOf E (prepare c'), Certificate_Sig = Some a\<rparr> \<and>
    v_VerifyAggregated (c_verifier E) (hashOf E (prepare c')) a \<and>
    distinct (AggregatedSignature_Voters a) \<and> majorityOf rs \<le> length (AggregatedSignature_Voters a)"
proof -
  note cert = certifying_bls [OF assms(1-3)]
  have inv: "replicaInv E c0" by (rule replica.newConsensus_replicaInv [OF assms(1,5,4)])
  have ok: "certifying.collectorsOk E (majorityOf rs) (bls_good B pks) c"
    by (rule certifying.acts_collectorsOk [OF cert assms(6) inv certifying.newConsensus_collectorsOk [OF cert assms(5) refl]])
  show ?thesis
    by (rule certifying.onVote_certificate [OF cert assms(7) replica.acts_replicaInv [OF assms(1,6) inv] ok assms(8)])
qed

theorem vote_certificate_witness:
  "\<exists>c a. onVote exEnv (exVoted\<lparr>votes := exBallot 2\<rparr>) (exVote 2) = Inr c \<and> prepare c = exHeader \<and>
    prepareCert c = \<lparr>Certificate_Block = hashOf exEnv exHeader, Certificate_Sig = Some a\<rparr> \<and>
    v_VerifyAggregated (c_verifier exEnv) (hashOf exEnv exHeader) a \<and> 3 \<le> length (AggregatedSignature_Voters a)"
proof -
  obtain c where c: "onVote exEnv (exVoted\<lparr>votes := exBallot 2\<rparr>) (exVote 2) = Inr c" "prepare c = exHeader" by (rule ex_quorum)
  have V: "c_verifier exEnv = NewBLS12381Verifier symBLS (majorityOf [0, 1, 2, 3 :: uint64]) [1, 2, 3, 4]"
    by (simp add: exEnv_memNode memNode_def majorityOf_def)
  have "exHeader \<noteq> exGenesisHeader" by (simp add: exHeader_def exGenesisHeader_def Header_zero_def)
  then show ?thesis
    using vote_certificate [OF exEnv_replica symBLS.bls_axioms V _ ex_first(1) ex_two_votes c(1)] c ex_first(2) ex_vote(4)
    by (auto simp: replicaInv_def exReplica_def majorityOf_def)
qed

text \<open>
  C16. When new-view messages give a reachable replica a new timeout certificate, it is for the
  view those messages gave up, is accepted by \<^verbatim>\<open>VerifyAggregated\<close> for that view, and lists a
  quorum of different voters.
\<close>

theorem timeout_certificate:
  assumes "replica E" and "bls B" and "c_verifier E = NewBLS12381Verifier B (majorityOf rs) pks"
    and "intact E s" and "newConsensus E s i rs = Inr c0" and "acts E c0 c"
    and "onNewView E c n = Inr c'" and "timeoutCert c' = Some tc" and "timeoutCert c \<noteq> Some tc"
  shows "\<exists>a. tc = \<lparr>TimeoutCertificate_View = NewView_View n, TimeoutCertificate_Sig = Some a\<rparr> \<and>
    v_VerifyAggregated (c_verifier E) (HashSum (blake2s E) (EncodeUint64 (NewView_View n))) a \<and>
    distinct (AggregatedSignature_Voters a) \<and> majorityOf rs \<le> length (AggregatedSignature_Voters a)"
proof -
  note cert = certifying_bls [OF assms(1-3)]
  have inv: "replicaInv E c0" by (rule replica.newConsensus_replicaInv [OF assms(1,5,4)])
  have ok: "certifying.collectorsOk E (majorityOf rs) (bls_good B pks) c"
    by (rule certifying.acts_collectorsOk [OF cert assms(6) inv certifying.newConsensus_collectorsOk [OF cert assms(5) refl]])
  show ?thesis by (rule certifying.onNewView_certificate [OF cert assms(7) ok assms(8,9)])
qed

theorem timeout_certificate_witness:
  "\<exists>c a. onNewView exEnv (exReplica\<lparr>timeouts := exTimeouts 2\<rparr>) (exNewView 2) = Inr c \<and>
    timeoutCert c = Some \<lparr>TimeoutCertificate_View = 3, TimeoutCertificate_Sig = Some a\<rparr> \<and>
    v_VerifyAggregated (c_verifier exEnv) (HashSum copy32 (EncodeUint64 3)) a \<and> 3 \<le> length (AggregatedSignature_Voters a)"
proof -
  obtain c where c: "onNewView exEnv (exReplica\<lparr>timeouts := exTimeouts 2\<rparr>) (exNewView 2) = Inr c"
    "timeoutCert c = t_Cert (exTimeouts 3)" by (rule ex_timeout)
  obtain tc where tc: "t_Cert (exTimeouts 3) = Some tc" by (simp add: exTimeouts_def)
  have V: "c_verifier exEnv = NewBLS12381Verifier symBLS (majorityOf [0, 1, 2, 3 :: uint64]) [1, 2, 3, 4]"
    by (simp add: exEnv_memNode memNode_def majorityOf_def)
  show ?thesis
    using timeout_certificate [OF exEnv_replica symBLS.bls_axioms V _ ex_first(1) ex_two_timeouts c(1), of tc] c tc ex_first(2)
    by (auto simp: replicaInv_def exReplica_def majorityOf_def exNewView_def)
qed

text \<open>
  C27. The verifier does not check that the voters it counts differ: with one secret key of the
  set, an aggregate that lists only its owner is accepted for any message and any threshold.
\<close>

theorem one_key_makes_a_quorum:
  assumes "bls B" and "\<not> of_nat (length pks) \<le> i" and "pks ! unat i = bls_PublicKeyFromSecretKey B sk"
  shows "\<exists>a. set (AggregatedSignature_Voters a) = {i} \<and> v_VerifyAggregated (NewBLS12381Verifier B (Suc k) pks) m a"
  by (rule bls.one_key_certificate [OF assms])

theorem one_key_makes_a_quorum_witness:
  "\<exists>a. set (AggregatedSignature_Voters a) = {2} \<and> v_VerifyAggregated (NewBLS12381Verifier symBLS 3 [1, 2, 3, 4]) exHash a"
  using one_key_makes_a_quorum [OF symBLS.bls_axioms, of "[1, 2, 3, 4]" 2 3 2 exHash]
  by (simp add: symBLS_def word_le_nat_alt numeral_3_eq_3)

section \<open>Progress and its limits\<close>

text \<open>
  C28. Once a block is reported missing and the application does not read the reports, as in
  \<^verbatim>\<open>hotstuff-node\<close>, the node delivers at most three more batches of messages and then falls
  silent: \<^verbatim>\<open>Progress.Reset\<close> keeps \<^verbatim>\<open>NotFound\<close>, so the loop re-arms the report for ever and
  never takes over new progress.
\<close>

theorem unread_reports_silence_the_node:
  assumes "replica E" and "run E callUnread n tr n'" and "list_all smallEvent tr" and "blockMissing n"
  shows "length (filter isDelivery tr) \<le> 3"
proof -
  have "length (filter isDelivery tr) + deliveriesLeft n' \<le> deliveriesLeft n"
    using replica.run_missing [OF assms] by simp
  moreover have "deliveriesLeft n \<le> 3" by (simp add: deliveriesLeft_def)
  ultimately show ?thesis by simp
qed

theorem unread_reports_silence_the_node_witness:
  "\<exists>n n'. blockMissing n \<and> run exEnv callUnread n [MissingOut [\<lparr>BlockRef_Hash = exHash, BlockRef_View = 3\<rparr>], Ticked] n' \<and>
    length (filter isDelivery [MissingOut [\<lparr>BlockRef_Hash = exHash, BlockRef_View = 3\<rparr>], Ticked]) \<le> 3"
proof -
  let ?refs = "[\<lparr>BlockRef_Hash = exHash, BlockRef_View = 3\<rparr>]" and ?c = "exReplica\<lparr>progress := AddNotFound Progress_zero 3 exHash\<rparr>"
  have missing: "blockMissing (nodeOf ?c)" by (simp add: blockMissing_def nodeOf_def AddNotFound_def)
  obtain n1 where first: "iterate exEnv (MissingOut ?refs) (nodeOf ?c) = Some (Inr n1)" and n1: "n_done n1 = False"
    and c1: "n_consensus n1 = ?c"
    by (simp add: iterate_def takeProgress_def select_def nodeOf_def AddNotFound_def Progress_zero_def Progress_Reset_def Let_def)
  obtain p where taken: "n_consensus (takeProgress n1) = ?c\<lparr>progress := p\<rparr>" using takeProgress_consensus c1 by metis
  have "\<exists>c2. Tick exEnv (?c\<lparr>progress := p\<rparr>) = Inr c2" by (simp add: Tick_def exReplica_def)
  then obtain n2 where second: "iterate exEnv Ticked n1 = Some (Inr n2)"
    using n1 taken by (auto simp: iterate_def select_def withConsensus_def)
  have "run exEnv callUnread (nodeOf ?c) ([] @ [MissingOut ?refs]) n1" by (rule run.looped [OF run.here first])
  then have run: "run exEnv callUnread (nodeOf ?c) (([] @ [MissingOut ?refs]) @ [Ticked]) n2" using second by (rule run.looped)
  show ?thesis using unread_reports_silence_the_node [OF exEnv_replica run _ missing] run missing by auto
qed

text \<open>
  C35. The time-out of a view is two to the number of views since the last certified block and
  doubles with each further view, until the shift leaves the integer: from 64 views on it is
  zero, and fewer than \<open>2 ^ 64\<close> ticks never reach it, so the replica no longer leaves the view
  by itself.
\<close>

theorem timeout_doubles_then_vanishes:
  "(unat (view c - Header_View (prepare c)) < 62 \<longrightarrow>
      unat (newTimeout c) = 2 ^ unat (view c - Header_View (prepare c)) \<and>
      newTimeout (c\<lparr>view := view c + 1\<rparr>) = 2 * newTimeout c) \<and>
    (64 \<le> unat (view c - Header_View (prepare c)) \<and> k < 2 ^ 64 \<longrightarrow>
      ((\<lambda>r. rbind r (Tick E)) ^^ k) (Inr (resetTimeout c)) = Inr ((resetTimeout c)\<lparr>ticks := of_nat k\<rparr>))"
  using newTimeout_doubles newTimeout_vanishes by blast

theorem timeout_doubles_then_vanishes_witness:
  "unat (newTimeout exReplica) = 2 ^ 1 \<and>
    ((\<lambda>r. rbind r (Tick exEnv)) ^^ 1000) (Inr (resetTimeout (exReplica\<lparr>view := 66\<rparr>))) =
      Inr ((resetTimeout (exReplica\<lparr>view := 66\<rparr>))\<lparr>ticks := of_nat 1000\<rparr>)"
proof
  show "unat (newTimeout exReplica) = 2 ^ 1"
    using timeout_doubles_then_vanishes [of exReplica 0 exEnv] by (simp add: exReplica_def exGenesisHeader_def)
  have "64 \<le> unat (view (exReplica\<lparr>view := 66\<rparr>) - Header_View (prepare (exReplica\<lparr>view := 66\<rparr>)))"
    by (simp add: exReplica_def exGenesisHeader_def)
  then show "((\<lambda>r. rbind r (Tick exEnv)) ^^ 1000) (Inr (resetTimeout (exReplica\<lparr>view := 66\<rparr>))) =
      Inr ((resetTimeout (exReplica\<lparr>view := 66\<rparr>))\<lparr>ticks := of_nat 1000\<rparr>)"
    using timeout_doubles_then_vanishes [of "exReplica\<lparr>view := 66\<rparr>" 1000 exEnv] by simp
qed

text \<open>
  C29. A new-view message need not be signed, nor its certificate verified, to replace the
  certificate a leader keeps: when the certificate names a known later block whose real
  certificate is not stored, the replica adopts it unchecked, and from then on a restart
  from its store exits.
\<close>

theorem unverified_certificate_breaks_restart:
  assumes "running E" and "replicaInv E c" and "getLeader c (NewView_View n + 1) = Inr (cid c)"
    and "NewView_Cert n = Some cert" and "GetHeader E (store c) (Certificate_Block cert) = Inr h"
    and "Header_View (prepare c) < Header_View h" and "a_certs (absOf E (store c)) (Certificate_Block cert) = None"
    and "t_view (timeouts c) = 0"
  shows "\<exists>c'. onNewView E c n = Inr c' \<and> prepareCert c' = cert \<and>
    newConsensus E (store c') i rs = Inl (LogFatal ''failed to load prepare certificate'')"
proof -
  have E: "replica E" and L: "leveldb E" using assms(1) by (simp_all add: running_def replica_def)
  obtain s where s: "SetTag E (store c) PrepareTag (hashOf E h) = Inr s"
    using running.runs_saves(1) [OF assms(1), of "store c" PrepareTag "hashOf E h"] by (auto simp: runs_def)
  let ?c = "c\<lparr>prepare := h, prepareCert := cert, store := s, progress := AddHeader (progress c) h False\<rparr>"
  have "updatePrepare E c h cert = Inr ?c" using assms(6) s by (simp add: updatePrepare_def)
  then have step: "onNewView E c n = Inr ?c"
    using assms(3-5,8) by (simp add: onNewView_def Timeouts_Collect_def)
  have inv: "replicaInv E ?c" by (rule replica.acts_replicaInv [OF E replica.onNewView_acts [OF E step] assms(2)])
  have "hashOf E h = Certificate_Block cert" using assms(2,5) by (auto simp: replicaInv_def dest: intactD)
  then have "a_certs (absOf E (store ?c)) (hashOf E (prepare ?c)) = None"
    using leveldb.SetTag_abs [OF L s] assms(7) by (simp add: storeTags_def)
  from replica.restart_fails [OF E inv this] step show ?thesis by auto
qed

theorem unverified_certificate_breaks_restart_witness:
  "\<exists>c. onNewView exEnv exVoted exForged = Inr c \<and>
    newConsensus exEnv (store c) 0 [0, 1, 2, 3] = Inl (LogFatal ''failed to load prepare certificate'')"
  using unverified_certificate_breaks_restart [OF exEnv_running ex_voted_inv, of exForged _ exHeader 0 "[0, 1, 2, 3]"]
    ex_vote(4,7,8,9,10,11) ex_hashes_differ
  by (auto simp: exForged_def getLeader_def NewTimeouts_def exHeader_def exGenesisHeader_def)

text \<open>
  C34. A message without a part its handler reads stops the process: a proposal without
  header, and for the leader a new-view message without certificate.
\<close>

theorem incomplete_messages_crash:
  assumes "Proposal_Header p = None" and "NewView_Cert n = None" and "getLeader c (NewView_View n + 1) = Inr (cid c)"
  shows "Step E (NewProposalMsg p) c = Inl NilDeref \<and> Step E (NewViewMsg n) c = Inl NilDeref"
  using assms by (simp add: Step_def dispatch_def msg_defs onProposal_def onNewView_def)

theorem incomplete_messages_crash_witness:
  "Step exEnv (NewProposalMsg Proposal_zero) exReplica = Inl NilDeref \<and>
    Step exEnv (NewViewMsg (NewView_zero\<lparr>NewView_View := 3\<rparr>)) exReplica = Inl NilDeref"
  by (rule incomplete_messages_crash) (simp_all add: Proposal_zero_def NewView_zero_def getLeader_def exReplica_def)

section \<open>Proposals and synchronization\<close>



text \<open>
  C26. A synchronized block above the committed one whose certificate signs its hash, and
  names it, is stored: the block can be read back whole.
\<close>

theorem sync_stores_blocks:
  assumes "running E" and "sane c"
    and "Block_Header b = Some h" "Block_Cert b = Some cert" "Block_Data b = Some data"
    and "Header_Size h < 2 ^ 63" "Certificate_Size cert < 2 ^ 63" "Certificate_wf cert" "Data_Size data < 2 ^ 63"
    and "Certificate_Block cert = hashOf E h" and "certifiedBy E (hashOf E h) (Certificate_Sig cert)"
    and "Header_View (commit c) < Header_View h"
  shows "\<exists>c'. Step E (NewSyncMsg [b]) c = Inr c' \<and> GetBlock E (store c') (hashOf E h) = Inr b \<and>
    Header_View h \<le> Header_View (prepare c')"
proof -
  have E: "replica E" and L: "leveldb E" using assms(1) by (simp_all add: running_def replica_def)
  obtain c' where step: "Step E (NewSyncMsg [b]) c = Inr c'"
    using running.runs_Step [OF assms(1,2), of "NewSyncMsg [b]"] assms(4,11)
    by (auto simp: runs_def wholeMessage_def msg_defs certifiedBy_def)
  then obtain s c1 where s: "SaveBlock E (store c) b = Inr (Inr s)"
    and c1: "updatePrepare E (c\<lparr>store := s\<rparr>) h cert = Inr c1" and c': "update E c1 h = Inr c'"
    using assms(3-5,11,12)
    by (auto simp: Step_def dispatch_def msg_defs onSync_def syncBlock_def verifyAggregated_def certifiedBy_def
        elim!: rbind_InrE split: if_splits)
  have "GetBlock E s (hashOf E h) = Inr b" by (rule leveldb.GetBlock_SaveBlock [OF L s assms(3-10)])
  moreover have "blocksOf E s = blocksOf E (store c')" "Header_View h \<le> Header_View (prepare c')"
    using replica.blocks_updates(1) [OF E c1] replica.blocks_updates(2) [OF E c'] by simp_all
  ultimately show ?thesis using step GetBlock_cong [of E s "store c'"] by blast
qed

theorem sync_stores_blocks_witness:
  "\<exists>c. Step exEnv (NewSyncMsg [exBlock]) exReplica = Inr c \<and> GetBlock exEnv (store c) (hashOf exEnv exHeader) = Inr exBlock"
  using sync_stores_blocks [OF exEnv_running ex_sane, of exBlock exHeader exBlockCert Data_zero]
    exBlock_certified exBlock_sizes ex_sizes(2)
  by (auto simp: exBlock_def exBlockCert_def exReplica_def exGenesisHeader_def exHeader_def)

section \<open>Encodings and the store\<close>

text \<open>
  C18. A message is written in exactly the number of bytes its \<^verbatim>\<open>Size\<close> announces, and
  \<^verbatim>\<open>Unmarshal\<close> reads it back, whichever of the four kinds it is.
\<close>

theorem message_round_trip:
  assumes "Message_wf m" and "Message_Size m < 2 ^ 63"
  shows "length (Message_Marshal m) = Message_Size m \<and> Message_Unmarshal Message_zero (Message_Marshal m) = (m, None)"
proof -
  have "Message_Marshal m = Message_MarshalToSizedBuffer m"
    by (simp add: Message_Marshal_def Message_codec.size_exact)
  then show ?thesis
    using Message_codec.loop_reads [OF assms(1) order_refl assms(2)]
    by (simp add: Message_Unmarshal_def Message_codec.size_exact)
qed

theorem message_round_trip_witness:
  "Message_Unmarshal Message_zero (Message_Marshal (NewViewMsg NewView_zero)) = (NewViewMsg NewView_zero, None)"
  using message_round_trip [of "NewViewMsg NewView_zero"]
    size_bounds(2) [of "NewView_Size NewView_zero"]
  by (simp add: msg_defs Message_wf_def NewView_wf_def NewView_zero_def Message_Size_def NewView_Size_def
      sizeVarint_def sizeBytes_def sizeMsg_def)

text \<open>
  C36. \<^verbatim>\<open>encodeVarintTypes\<close> stores a number in the at most ten bytes before its offset and
  leaves the rest of the buffer alone; the reading loop returns the number and what follows
  it, and reports a premature end when any of its bytes is missing.
\<close>

theorem varint_round_trip:
  assumes "sovTypes v \<le> offset" and "offset \<le> length d" and "k < sovTypes v"
  shows "\<exists>d'. encodeVarintTypes d offset v = Inr (d', offset - sovTypes v) \<and> length d' = length d \<and> sovTypes v \<le> 10 \<and>
    take (offset - sovTypes v) d' = take (offset - sovTypes v) d \<and>
    readVarint (drop (offset - sovTypes v) d') = Inr (v, drop offset d) \<and>
    readVarint (take k (drop (offset - sovTypes v) d')) = Inl ErrUnexpectedEOF"
proof -
  let ?base = "offset - sovTypes v"
  let ?d = "take ?base d @ varint v @ drop offset d"
  have base: "length (take ?base d) = ?base" using assms(1,2) by simp
  then have drop_base: "drop ?base ?d = varint v @ drop offset d" and take_base: "take ?base ?d = take ?base d" by simp_all
  have cut: "readVarint (take k (varint v)) = Inl ErrUnexpectedEOF"
    by (rule decodeVarint_cut [of _ _ _ "drop k (varint v)" v "[]"])
      (use assms(3) readVarint_varint [of v "[]"] in simp_all)
  have "length ?d = length d" using assms(1,2) by simp
  then show ?thesis
    using encodeVarintTypes_spec [OF assms(1,2)] sovTypes_bounds(2) [of v] drop_base take_base cut assms(3)
    by (intro exI [of _ ?d]) (simp add: readVarint_varint)
qed

theorem varint_round_trip_witness:
  "\<exists>d'. encodeVarintTypes [7, 7, 7] 2 5 = Inr (d', 1) \<and> readVarint (drop 1 d') = Inr (5, [7])"
  using varint_round_trip [of 5 2 "[7, 7, 7]" 0] by (auto simp: sovTypes_small)

text \<open>
  C17. The block store implements six independent maps: after any successful sequence of
  writes, headers are found by hash, certificates by the block they name, data by hash, tags
  and the two views as if each write had updated only its own map.
\<close>

theorem store_refines_maps:
  assumes "leveldb E" and "execOps E ops s = Inr s'" and "list_all opFits ops"
  shows "absOf E s' = fold (specOp (blake2s E)) ops (absOf E s)"
  by (rule leveldb.execOps_spec [OF assms])

theorem store_refines_maps_witness:
  "\<exists>s. execOps exEnv [PutView 5, PutTag LockedTag exHash, PutVoted 4] exStore = Inr s \<and>
    a_view (absOf exEnv s) = Some 5 \<and> a_voted (absOf exEnv s) = Some 4 \<and> a_tags (absOf exEnv s) LockedTag = Some exHash"
proof -
  obtain s where s: "execOps exEnv [PutView 5, PutTag LockedTag exHash, PutVoted 4] exStore = Inr s"
    by (simp add: SaveView_def SetTag_def SaveVoted_def ex_puts)
  show ?thesis using store_refines_maps [OF exEnv_leveldb s] s by (simp add: storeTags_def)
qed

text \<open>
  C37. An iterator started at a block visits its stored ancestors in order, stays valid on
  each of them, and fails with the store's error right after the last.
\<close>

theorem iterator_walks_chain:
  assumes "linked E s h hs"
  shows "(\<forall>k \<le> length hs.
      ci_Header ((ci_Next E ^^ k) (NewChainIteratorFrom s (Some h))) = Some ((h # hs) ! k) \<and>
      ci_Valid ((ci_Next E ^^ k) (NewChainIteratorFrom s (Some h)))) \<and>
    ci_Err ((ci_Next E ^^ Suc (length hs)) (NewChainIteratorFrom s (Some h))) \<noteq> None"
  using ci_Next_walk [OF assms, of "NewChainIteratorFrom s (Some h)"]
  by (simp add: NewChainIteratorFrom_def NewChainIterator_def ci_Valid_def ci_Header_def ci_Err_def)

theorem iterator_walks_chain_witness:
  "ci_Header ((ci_Next exEnv ^^ 1) (NewChainIteratorFrom exStore (Some exHeader))) = Some exGenesisHeader \<and>
    ci_Err ((ci_Next exEnv ^^ 2) (NewChainIteratorFrom exStore (Some exHeader))) \<noteq> None"
proof -
  have "linked exEnv exStore exHeader [exGenesisHeader]"
    using ex_headers by (auto simp: exHeader_def exGenesisHeader_def Header_zero_def)
  from iterator_walks_chain [OF this] show ?thesis by (auto simp: numeral_2_eq_2)
qed

section \<open>The deployment\<close>











text \<open>
  C32. The index a peer announces is not checked: a peer that announces an index outside the
  table of channels stops the process.
\<close>

theorem announced_index_crashes:
  assumes "i < 0 \<or> int NUMBER_OF_NODES \<le> i" and "- (2 ^ 63) \<le> i" and "i < 2 ^ 63"
  shows "handleConnection idx outs None (toByteArray (Itoa i) @ rest) = Inl IndexOutOfRange"
  using assms exchangeIDs_read [OF assms(2,3), of idx rest] by (auto simp: handleConnection_def)

theorem announced_index_crashes_witness: "handleConnection 0 (\<lambda>_. []) None (toByteArray (Itoa 4) @ []) = Inl IndexOutOfRange"
  by (rule announced_index_crashes) (simp_all add: NUMBER_OF_NODES_def)

text \<open>
  C24. Every node of the example deployment starts: whatever keys and root the common seed
  yields, \<^verbatim>\<open>createExampleNode\<close> returns a node in view one that has the same genesis block
  certified, locked and committed as every other, keeps the replica's invariant and, when no
  two keys are equal, has its own index.
\<close>

theorem example_node_starts:
  assumes "launch E B" and "rngRead 32 rng = (root, rng')" and "length root < 2 ^ 32"
    and "fst (GenerateKeys B rand rng' n) = Inr (pubs, privs)"
    and "0 < n" and "n < 2 ^ 32" and "idx < n" and "\<forall>k. \<exists>e. GetHeader E db k = Inl e"
  shows "\<exists>node. createExampleNode B E rngRead rand (Inr db) rng idx n = Inr node \<and>
    freshNode (nodeEnv B E (privs ! idx) \<lparr>conf_ID = pubs ! idx, conf_Replicas = pubs\<rparr>)
      (Header_zero\<lparr>Header_DataRoot := root\<rparr>) pubs node \<and>
    (distinct pubs \<longrightarrow> cid (n_consensus node) = of_nat idx)"
  using launch.createExampleNode_fresh [OF assms(1), of rngRead rng root rng' rand n pubs privs idx db] assms(2-) by blast

theorem example_node_starts_witness:
  "\<exists>node. createExampleNode sumBLS (memEnv copy32) (\<lambda>n r. (replicate n r, r)) (\<lambda>r. (Inr r, r + 1)) (Inr memDB) 5 2 4 = Inr node \<and>
    cid (n_consensus node) = 2 \<and> view (n_consensus node) = 1"
proof -
  have "fst (GenerateKeys sumBLS (\<lambda>r. (Inr r, r + 1)) 5 4) = Inr ([5, 6, 7, 8], [5, 6, 7, 8])"
    by (simp add: numeral_eq_Suc GenerateKey_def sumBLS_def)
  moreover have "\<forall>k. \<exists>e. GetHeader (memEnv copy32) memDB k = Inl e"
    by (simp add: GetHeader_def dbGet_def memEnv_def memDB_def)
  ultimately show ?thesis
    using example_node_starts [OF memlaunch.launch_axioms, of "\<lambda>n r. (replicate n r, r)" 5 "replicate 32 5" 5 "\<lambda>r. (Inr r, r + 1)" 4
        "[5, 6, 7, 8]" "[5, 6, 7, 8]" 2 memDB]
    by (auto simp: freshNode_def Let_def Header_zero_def)
qed

text \<open>
  C20. The program around the node relays its messages faithfully: over any run of the
  program the node runs as its own model says, and for every peer the messages its
  connection has taken, followed by those still in the channel, in the current case and in
  the node's channel, are exactly the copies for that peer of everything the node delivered,
  in order.
\<close>

theorem program_relays_messages:
  assumes "appRun E idx data (entryPoint n) tr b" and "n_deliver n = []"
  shows "run E callUnread n (nodeEvents tr) (app_node b) \<and>
    departures rx tr @ app_out b rx @ peerMessages rx (app_todo b) @ copies idx rx (concat (n_deliver (app_node b))) =
      copies idx rx (delivered (nodeEvents tr))"
  using appRun_run [OF assms(1)] appRun_transit [OF assms(1), of rx] assms(2) by (simp add: inTransit_def entryPoint_def)

theorem program_relays_messages_witness:
  "\<exists>b. appRun exEnv 1 exData (entryPoint (nodeOf exReplica)) exRun b \<and> n_deliver (nodeOf exReplica) = [] \<and>
    departures 0 exRun = [NewVoteMsg (exVote 0)] \<and>
    departures 0 exRun @ app_out b 0 @ peerMessages 0 (app_todo b) @ copies 1 0 (concat (n_deliver (app_node b))) =
      copies 1 0 (delivered (nodeEvents exRun))"
proof -
  obtain b where b: "appRun exEnv 1 exData (entryPoint (nodeOf exReplica)) exRun b" by (rule ex_program)
  have "departures 0 exRun = [NewVoteMsg (exVote 0)]" by (simp add: exRun_def)
  then show ?thesis using program_relays_messages [OF b, of 0] b by (auto simp: nodeOf_def)
qed

text \<open>
  C22. No task of the program panics: the messages of a node with at most as many replicas as
  there are connections only name channels that exist, and the node is started once.
\<close>

theorem program_tasks_succeed:
  assumes "replica (nodeEnv B db priv conf)" and "NewNode B db s priv conf = Inr n"
    and "length (conf_Replicas conf) \<le> NUMBER_OF_NODES"
    and "appRun (nodeEnv B db priv conf) idx data (entryPoint n) tr b" and "list_all smallEvent (nodeEvents tr)"
    and "app_todo b = t # ts" and "r \<in> set (doTask t (b\<lparr>app_todo := ts\<rparr>))"
  shows "\<exists>a. r = Inr a"
  using appSafe_task(1) [OF replica.appRun_safe [OF assms(1,4) entryPoint_safe [OF assms(2,3,1)] assms(5)] assms(6,7)] .

theorem program_tasks_succeed_witness:
  "\<exists>a. Node_Start (nodeOf exReplica) = Inr a \<and>
    rbind (Node_Start (nodeOf exReplica)) (\<lambda>n. Inr ((entryPoint (nodeOf exReplica))\<lparr>app_todo := [ToNode Message_zero], app_node := n\<rparr>))
      \<in> set (doTask StartNode ((entryPoint (nodeOf exReplica))\<lparr>app_todo := [ToNode Message_zero]\<rparr>))"
proof -
  have conf: "length (conf_Replicas exConf) \<le> NUMBER_OF_NODES" by (simp add: exConf_def NUMBER_OF_NODES_def)
  have todo: "app_todo (entryPoint (nodeOf exReplica)) = StartNode # [ToNode Message_zero]" by (simp add: entryPoint_def)
  have r: "rbind (Node_Start (nodeOf exReplica)) (\<lambda>n. Inr ((entryPoint (nodeOf exReplica))\<lparr>app_todo := [ToNode Message_zero], app_node := n\<rparr>))
      \<in> set (doTask StartNode ((entryPoint (nodeOf exReplica))\<lparr>app_todo := [ToNode Message_zero]\<rparr>))"
    by (simp add: entryPoint_def)
  from program_tasks_succeed [OF exEnv_replica [unfolded exEnv_def] ex_node conf appRun.start _ todo r]
  show ?thesis using r by (auto elim!: rbind_InrE)
qed

text \<open>
  C30. Nobody reads the channel of confirmations: of the final blocks a node announces, the
  program confirms at most a hundred, and once it waits to confirm another one its goroutine
  never takes a step again, while the node and the connections go on.
\<close>

theorem program_stops_after_confirmations:
  assumes "appRun E idx data a tr b" and "app_confirmed a \<le> CONFIRMED_CAPACITY"
  shows "app_confirmed b \<le> CONFIRMED_CAPACITY \<and>
    app_confirmed b + unconfirmed b = app_confirmed a + unconfirmed a + length (finalHeaders (announced (nodeEvents tr))) \<and>
    (stuck a \<longrightarrow> list_all (\<lambda>e. \<not> ofEntryPoint e) tr \<and> stuck b)"
  using appRun_confirmed [OF assms(1)] appRun_stuck [OF assms(1)] assms(2) by simp

theorem program_stops_after_confirmations_witness:
  "\<exists>b. appRun exEnv 1 exData ((entryPoint (nodeOf exReplica))\<lparr>app_todo := [Confirm], app_confirmed := 100\<rparr>)
      [Arrived Message_zero] b \<and> stuck b \<and> app_confirmed b \<le> CONFIRMED_CAPACITY"
proof -
  let ?a = "(entryPoint (nodeOf exReplica))\<lparr>app_todo := [Confirm], app_confirmed := 100\<rparr>"
  have a: "stuck ?a" "app_confirmed ?a \<le> CONFIRMED_CAPACITY" by (simp_all add: stuck_def CONFIRMED_CAPACITY_def)
  have "appStep exEnv 1 exData ?a (Arrived Message_zero) (?a\<lparr>app_in := app_in ?a @ [Message_zero]\<rparr>)"
    by (rule appStep.arrived) (simp add: entryPoint_def MSGS_CAPACITY_def)
  then have run: "appRun exEnv 1 exData ?a [Arrived Message_zero] (?a\<lparr>app_in := app_in ?a @ [Message_zero]\<rparr>)"
    by (rule appRun_then) (rule appRun.start)
  show ?thesis using program_stops_after_confirmations [OF run a(2)] a(1) run by blast
qed

text \<open>
  C38. Every pair of nodes shares exactly one connection: given a comma-separated list of four
  hosts, each process of the deployment gets an address of its own to listen on, and of two
  processes exactly one dials the address of the other, the one with the larger index.
\<close>

theorem pairs_connect_once:
  assumes "length hosts = NUMBER_OF_NODES" and "\<forall>w \<in> set hosts. 44 \<notin> set w"
    and "i < NUMBER_OF_NODES" and "j < NUMBER_OF_NODES" and "i \<noteq> j"
  shows "\<exists>a b dials dials'. startup (int i) (joined 44 hosts) = Inr (a, dials) \<and>
    startup (int j) (joined 44 hosts) = Inr (b, dials') \<and>
    a = hosts ! i @ [58] @ Itoa (9000 + int i) \<and> b = hosts ! j @ [58] @ Itoa (9000 + int j) \<and>
    (b \<in> set dials \<longleftrightarrow> j < i) \<and> (a \<in> set dials' \<longleftrightarrow> i < j)"
proof -
  obtain as where as: "mainAddresses (joined 44 hosts) = Inr as" "length as = NUMBER_OF_NODES" "distinct as"
    and nth: "\<And>i. i < NUMBER_OF_NODES \<Longrightarrow> as ! i = hosts ! i @ [58] @ Itoa (DEFAULT_ADDRESS_NUMBER + int i)"
    using mainAddresses_joined [OF assms(1,2)] by blast
  have plan: "startup (int k) (joined 44 hosts) = Inr (as ! k, map (\<lambda>i. as ! i) [0..<k])" if "k < NUMBER_OF_NODES" for k
    using that as(1) by (simp add: startup_def connectionPlan_def)
  have dialled: "as ! k \<in> set (map (\<lambda>i. as ! i) [0..<l]) \<longleftrightarrow> k < l" if "k < NUMBER_OF_NODES" "l < NUMBER_OF_NODES" for k l
    using that as(2,3) by (auto simp: nth_eq_iff_index_eq)
  show ?thesis
    using plan [OF assms(3)] plan [OF assms(4)] dialled [OF assms(4,3)] dialled [OF assms(3,4)]
      nth [OF assms(3), unfolded DEFAULT_ADDRESS_NUMBER_def] nth [OF assms(4), unfolded DEFAULT_ADDRESS_NUMBER_def]
    by (intro exI conjI) assumption+
qed

theorem pairs_connect_once_witness:
  "\<exists>a b dials dials'. startup 2 (joined 44 [[49], [50], [51], [52]]) = Inr (a, dials) \<and>
    startup 1 (joined 44 [[49], [50], [51], [52]]) = Inr (b, dials') \<and> b \<in> set dials \<and> a \<notin> set dials'"
  using pairs_connect_once [of "[[49], [50], [51], [52]]" 2 1] by (auto simp: NUMBER_OF_NODES_def)


text \<open>
  C40. The stand-alone program carries every text: it prints exactly the texts the other side
  sent on the connection, in order, and writes its own frame; but it never closes the
  connection, since the listening goroutine counts down a copy of the wait group.
\<close>

theorem chat_carries_texts:
  assumes "list_all (\<lambda>msg. length msg < 2 ^ 32) texts"
  shows "chat_handleConnection send msg (concat (map chat_sendMessages texts)) =
    Inr \<lparr>cc_written = (if send then chat_sendMessages msg else []), cc_printed = texts, cc_closed = False\<rparr>"
  using chat_listenForMessages_sent [OF assms] by (simp add: chat_handleConnection_def wg_Add_def wg_Wait_def)

theorem chat_carries_texts_witness:
  "chat_handleConnection True [104] (concat (map chat_sendMessages [[1, 2], []])) =
    Inr \<lparr>cc_written = chat_sendMessages [104], cc_printed = [[1, 2], []], cc_closed = False\<rparr>"
  using chat_carries_texts [of "[[1, 2], []]" True "[104]"] by simp

end
